(* ===== verification/Prelude.thy ===== *)
theory Prelude
  imports Main "HOL-Library.Multiset"
begin

text \<open>
  Shared ground of the development: what can go wrong in a C function (\<open>fault\<close>), the
  state-and-fault functions in which every C function is written (\<open>prog\<close>), the C loops,
  the C integer operations whose overflow is undefined, array indexing with its bounds, and
  the total-correctness judgement \<open>runs_to\<close> with its rules.

  A C function is a function from a state to either a fault or a result with the next state.
  A fault is an undefined behaviour of the C standard that the model detects, the exit of
  the process through \<open>error_and_exit\<close>, or a signal that ends it.
\<close>

section \<open>Faults and programs\<close>

datatype fault =
    Null_Deref
  | Dangling
  | Out_Of_Bounds
  | Indeterminate
  | Overflow
  | Div_By_Zero
  | Bad_Free
  | Exit_Failure string
  | Signal string

type_synonym 'a res = "fault + 'a"
type_synonym ('s, 'a) prog = "'s \<Rightarrow> fault + 'a \<times> 's"

named_theorems prog_simps "unfolding equations of the program combinators"
named_theorems wp "rules that push runs_to through a program"

definition returnM :: "'a \<Rightarrow> ('s, 'a) prog" where
  "returnM x = (\<lambda>s. Inr (x, s))"

definition failM :: "fault \<Rightarrow> ('s, 'a) prog" where
  "failM e = (\<lambda>s. Inl e)"

definition bindM :: "('s, 'a) prog \<Rightarrow> ('a \<Rightarrow> ('s, 'b) prog) \<Rightarrow> ('s, 'b) prog" where
  "bindM m k = (\<lambda>s. case m s of Inl e \<Rightarrow> Inl e | Inr r \<Rightarrow> k (fst r) (snd r))"

definition thenM :: "('s, unit) prog \<Rightarrow> ('s, 'b) prog \<Rightarrow> ('s, 'b) prog" where
  "thenM m k = bindM m (\<lambda>_. k)"

definition liftM :: "'a res \<Rightarrow> ('s, 'a) prog" where
  "liftM r = (\<lambda>s. case r of Inl e \<Rightarrow> Inl e | Inr x \<Rightarrow> Inr (x, s))"

definition modifyM :: "('s \<Rightarrow> 's) \<Rightarrow> ('s, unit) prog" where
  "modifyM f = (\<lambda>s. Inr ((), f s))"

text \<open>
  \<open>for (i = \<dots>) body\<close> over the list of the values the counter takes, and a loop whose body
  may return from the enclosing function (\<open>Some\<close>).
\<close>

primrec for_each :: "'i list \<Rightarrow> ('i \<Rightarrow> ('s, unit) prog) \<Rightarrow> ('s, unit) prog" where
  "for_each [] body = returnM ()"
| "for_each (i # is) body = thenM (body i) (for_each is body)"

primrec for_return ::
    "'i list \<Rightarrow> ('i \<Rightarrow> ('s, 'a option) prog) \<Rightarrow> ('s, 'a option) prog" where
  "for_return [] body = returnM None"
| "for_return (i # is) body = bindM (body i)
     (\<lambda>r. case r of None \<Rightarrow> for_return is body | Some x \<Rightarrow> returnM (Some x))"

text \<open>A loop that updates a local variable of the enclosing function, such as a buffer.\<close>

primrec for_fold :: "'i list \<Rightarrow> ('i \<Rightarrow> 'b \<Rightarrow> ('s, 'b) prog) \<Rightarrow> 'b \<Rightarrow> ('s, 'b) prog" where
  "for_fold [] body b = returnM b"
| "for_fold (i # is) body b = bindM (body i b) (for_fold is body)"

section \<open>C integers and arrays\<close>

text \<open>
  An \<open>int\<close> is 32 bits wide; a result that does not fit is undefined behaviour, not a
  wrap-around. \<open>%\<close> truncates towards zero.
\<close>

definition INT_MAX :: int where "INT_MAX = 2147483647"
definition INT_MIN :: int where "INT_MIN = - 2147483648"

definition c_int :: "int \<Rightarrow> int res" where
  "c_int x = (if INT_MIN \<le> x \<and> x \<le> INT_MAX then Inr x else Inl Overflow)"

definition c_rem :: "int \<Rightarrow> int \<Rightarrow> int res" where
  "c_rem a b =
     (if b = 0 then Inl Div_By_Zero
      else if a = INT_MIN \<and> b = - 1 then Inl Overflow
      else Inr (sgn a * (\<bar>a\<bar> mod \<bar>b\<bar>)))"

text \<open>
  An element of an array in memory is \<open>None\<close> until it is first written: reading it then is
  reading an indeterminate value.
\<close>

type_synonym 'a cell = "'a option"

definition idx :: "'a list \<Rightarrow> int \<Rightarrow> 'a res" where
  "idx xs i = (if 0 \<le> i \<and> i < int (length xs) then Inr (xs ! nat i) else Inl Out_Of_Bounds)"

definition rd_cell :: "'a cell \<Rightarrow> 'a res" where
  "rd_cell c = (case c of None \<Rightarrow> Inl Indeterminate | Some x \<Rightarrow> Inr x)"

definition arr_get :: "'a cell list \<Rightarrow> int \<Rightarrow> 'a res" where
  "arr_get xs i = (case idx xs i of Inl e \<Rightarrow> Inl e | Inr c \<Rightarrow> rd_cell c)"

definition arr_set :: "'a cell list \<Rightarrow> int \<Rightarrow> 'a \<Rightarrow> 'a cell list res" where
  "arr_set xs i x =
     (if 0 \<le> i \<and> i < int (length xs) then Inr (xs[nat i := Some x]) else Inl Out_Of_Bounds)"

lemma idx_nat [simp]: "i < length xs \<Longrightarrow> idx xs (int i) = Inr (xs ! i)"
  by (simp add: idx_def)

lemma arr_get_map [simp]: "i < length xs \<Longrightarrow> arr_get (map Some xs) (int i) = Inr (xs ! i)"
  by (simp add: arr_get_def rd_cell_def)

lemma arr_set_nat [simp]: "i < length xs \<Longrightarrow> arr_set xs (int i) x = Inr (xs[i := Some x])"
  by (simp add: arr_set_def)

lemma idx_out: "i < 0 \<or> int (length xs) \<le> i \<Longrightarrow> idx xs i = Inl Out_Of_Bounds"
  by (auto simp: idx_def)

lemma arr_get_out: "i < 0 \<or> int (length xs) \<le> i \<Longrightarrow> arr_get xs i = Inl Out_Of_Bounds"
  by (simp add: arr_get_def idx_out)

lemma arr_set_out: "i < 0 \<or> int (length xs) \<le> i \<Longrightarrow> arr_set xs i x = Inl Out_Of_Bounds"
  by (auto simp: arr_set_def)

lemma c_rem_nonneg:
  "0 \<le> a \<Longrightarrow> b \<noteq> 0 \<Longrightarrow> c_rem a b = Inr (a mod \<bar>b\<bar>)"
  by (cases "a = 0") (auto simp: c_rem_def INT_MIN_def)

lemma nth_notin: "set xs \<inter> X = {} \<Longrightarrow> i < length xs \<Longrightarrow> xs ! i \<notin> X"
  using nth_mem by fastforce

lemma nth_notin_take: "distinct xs \<Longrightarrow> i < length xs \<Longrightarrow> xs ! i \<notin> set (take i xs)"
  by (auto simp: in_set_conv_nth nth_eq_iff_index_eq)

lemma distinct_concat_disjoint:
  "distinct (concat xss) \<Longrightarrow> i < j \<Longrightarrow> j < length xss \<Longrightarrow> set (xss ! i) \<inter> set (xss ! j) = {}"
proof (induction xss arbitrary: i j)
  case (Cons xs xss)
  show ?case
  proof (cases i)
    case 0
    then have "set (xss ! (j - 1)) \<subseteq> set (concat xss)"
      using Cons.prems by auto
    with 0 Cons.prems show ?thesis by (auto simp: nth_Cons')
  next
    case (Suc i')
    with Cons show ?thesis by (cases j) auto
  qed
qed simp

lemma distinct_concat_nth:
  "distinct (concat xss) \<Longrightarrow> i \<noteq> j \<Longrightarrow> i < length xss \<Longrightarrow> j < length xss \<Longrightarrow>
     set (xss ! i) \<inter> set (xss ! j) = {}"
  using distinct_concat_disjoint [of xss i j] distinct_concat_disjoint [of xss j i]
  by (auto simp: neq_iff)

lemma take_drop_update:
  "i < length xs \<Longrightarrow> length ys = length xs \<Longrightarrow>
     (take i xs @ drop i ys)[i := xs ! i] = take (Suc i) xs @ drop (Suc i) ys"
  by (simp add: list_update_append take_Suc_conv_app_nth Cons_nth_drop_Suc [symmetric])

lemma map_Some_eqI:
  "length cs = length xs \<Longrightarrow> (\<And>k. k < length xs \<Longrightarrow> cs ! k = Some (xs ! k)) \<Longrightarrow> cs = map Some xs"
  by (rule nth_equalityI) simp_all

section \<open>Evaluation of the combinators\<close>

lemma returnM_apply [prog_simps]: "returnM x s = Inr (x, s)"
  by (simp add: returnM_def)

lemma failM_apply [prog_simps]: "failM e s = Inl e"
  by (simp add: failM_def)

lemma bindM_apply [prog_simps]:
  "bindM m k s = (case m s of Inl e \<Rightarrow> Inl e | Inr r \<Rightarrow> k (fst r) (snd r))"
  by (simp add: bindM_def)

lemma thenM_apply [prog_simps]:
  "thenM m k s = (case m s of Inl e \<Rightarrow> Inl e | Inr r \<Rightarrow> k (snd r))"
  by (simp add: thenM_def bindM_def)

lemma liftM_apply [prog_simps]:
  "liftM r s = (case r of Inl e \<Rightarrow> Inl e | Inr x \<Rightarrow> Inr (x, s))"
  by (simp add: liftM_def)

lemma modifyM_apply [prog_simps]: "modifyM f s = Inr ((), f s)"
  by (simp add: modifyM_def)

section \<open>Total correctness\<close>

text \<open>\<open>m\<close> started in \<open>s\<close> returns without a fault, and its result and final state satisfy
  \<open>Q\<close>.\<close>

definition runs_to :: "('s, 'a) prog \<Rightarrow> 's \<Rightarrow> ('a \<Rightarrow> 's \<Rightarrow> bool) \<Rightarrow> bool" where
  "runs_to m s Q = (case m s of Inl e \<Rightarrow> False | Inr r \<Rightarrow> Q (fst r) (snd r))"

lemma runs_to_iff: "runs_to m s Q \<longleftrightarrow> (\<exists>x s'. m s = Inr (x, s') \<and> Q x s')"
  by (auto simp: runs_to_def split: sum.split)

lemma runs_toE:
  assumes "runs_to m s Q"
  obtains x s' where "m s = Inr (x, s')" and "Q x s'"
  using assms by (auto simp: runs_to_iff)

lemma runs_to_return [wp, simp]: "runs_to (returnM x) s Q \<longleftrightarrow> Q x s"
  by (simp add: runs_to_def prog_simps)

lemma runs_to_fail [wp, simp]: "\<not> runs_to (failM e) s Q"
  by (simp add: runs_to_def prog_simps)

lemma runs_to_bind [wp]:
  "runs_to (bindM m k) s Q \<longleftrightarrow> runs_to m s (\<lambda>x s'. runs_to (k x) s' Q)"
  by (simp add: runs_to_def prog_simps split: sum.split)

lemma runs_to_then [wp]:
  "runs_to (thenM m k) s Q \<longleftrightarrow> runs_to m s (\<lambda>_ s'. runs_to k s' Q)"
  by (simp add: thenM_def runs_to_bind)

lemma runs_to_lift [wp]:
  "runs_to (liftM r) s Q \<longleftrightarrow> (\<exists>x. r = Inr x \<and> Q x s)"
  by (auto simp: runs_to_def prog_simps split: sum.split)

lemma runs_to_modify [wp, simp]: "runs_to (modifyM f) s Q \<longleftrightarrow> Q () (f s)"
  by (simp add: runs_to_def prog_simps)

lemma runs_to_mono:
  "runs_to m s P \<Longrightarrow> (\<And>x s'. P x s' \<Longrightarrow> Q x s') \<Longrightarrow> runs_to m s Q"
  by (auto simp: runs_to_iff)

lemma runs_to_conj:
  "runs_to m s P \<Longrightarrow> runs_to m s Q \<Longrightarrow> runs_to m s (\<lambda>x s'. P x s' \<and> Q x s')"
  by (auto simp: runs_to_iff)

lemma runs_to_bindI:
  "runs_to m s P \<Longrightarrow> (\<And>x s'. P x s' \<Longrightarrow> runs_to (k x) s' Q) \<Longrightarrow> runs_to (bindM m k) s Q"
  by (auto simp: runs_to_bind elim: runs_to_mono)

lemma runs_to_thenI:
  "runs_to m s P \<Longrightarrow> (\<And>s'. P () s' \<Longrightarrow> runs_to k s' Q) \<Longrightarrow> runs_to (thenM m k) s Q"
  by (auto simp: runs_to_then elim: runs_to_mono)

lemma bind_failI:
  "runs_to m s P \<Longrightarrow> (\<And>x s'. P x s' \<Longrightarrow> k x s' = Inl e) \<Longrightarrow> bindM m k s = Inl e"
  by (auto simp: runs_to_iff prog_simps)

lemma then_failI:
  "runs_to m s P \<Longrightarrow> (\<And>s'. P () s' \<Longrightarrow> k s' = Inl e) \<Longrightarrow> thenM m k s = Inl e"
  by (auto simp: runs_to_iff prog_simps)

text \<open>A counted loop with an invariant over the counter.\<close>

lemma runs_to_for_upt:
  assumes base: "I m s" and le: "m \<le> n"
    and step: "\<And>i s. m \<le> i \<Longrightarrow> i < n \<Longrightarrow> I i s \<Longrightarrow> runs_to (body i) s (\<lambda>_ s'. I (Suc i) s')"
  shows "runs_to (for_each [m..<n] body) s (\<lambda>_ s'. I n s')"
  using le base step
proof (induction "n - m" arbitrary: m s)
  case 0
  then show ?case by simp
next
  case (Suc d)
  then have "m < n" by simp
  then have "[m..<n] = m # [Suc m..<n]" by (rule upt_conv_Cons)
  moreover have "runs_to (body m) s (\<lambda>_ s'. I (Suc m) s')"
    using Suc.prems \<open>m < n\<close> by simp
  ultimately show ?case
    using Suc.hyps Suc.prems \<open>m < n\<close> by (auto intro!: runs_to_thenI)
qed

lemma runs_to_for:
  assumes "I 0 s"
    and "\<And>i s. i < n \<Longrightarrow> I i s \<Longrightarrow> runs_to (body i) s (\<lambda>_ s'. I (Suc i) s')"
  shows "runs_to (for_each [0..<n] body) s (\<lambda>_ s'. I n s')"
  using assms by (intro runs_to_for_upt) auto

text \<open>A loop whose body simulates a function on an abstract value.\<close>

lemma runs_to_for_fold:
  assumes "P w s"
    and "\<And>i w s. i < n \<Longrightarrow> P w s \<Longrightarrow> runs_to (body i) s (\<lambda>_ s'. P (f i w) s')"
  shows "runs_to (for_each [0..<n] body) s (\<lambda>_ s'. P (fold f [0..<n] w) s')"
  using assms by (intro runs_to_for [where I = "\<lambda>i. P (fold f [0..<i] w)"]) auto

text \<open>A loop that reaches a faulting iteration faults.\<close>

lemma for_each_append:
  "for_each (xs @ ys) body = thenM (for_each xs body) (for_each ys body)"
proof
  fix s show "for_each (xs @ ys) body s = thenM (for_each xs body) (for_each ys body) s"
    by (induction xs arbitrary: s) (auto simp: prog_simps split: sum.split)
qed

lemma for_each_fails:
  assumes "I 0 s" and k: "k < n"
    and "\<And>i s. i < k \<Longrightarrow> I i s \<Longrightarrow> runs_to (body i) s (\<lambda>_ s'. I (Suc i) s')"
    and f: "\<And>s. I k s \<Longrightarrow> body k s = Inl e"
  shows "for_each [0..<n] body s = Inl e"
proof -
  have "[0..<n] = [0..<k] @ [k..<n]"
    using k by (metis le_add_diff_inverse less_imp_le upt_add_eq_append zero_le)
  also have "[k..<n] = k # [Suc k..<n]" using k by (rule upt_conv_Cons)
  finally have split: "[0..<n] = [0..<k] @ k # [Suc k..<n]" .
  have "runs_to (for_each [0..<k] body) s (\<lambda>_ s'. I k s')"
    using assms by (intro runs_to_for [where I = I]) auto
  then show ?thesis
    unfolding split for_each_append by (rule then_failI) (simp add: prog_simps f)
qed

text \<open>A loop that may return: it returns for the first counter value at which the body does.\<close>

lemma runs_to_for_return:
  assumes "\<And>i. i \<in> set is \<Longrightarrow> body i s = Inr (f i, s)"
  shows "for_return is body s = Inr (Option.bind (List.find (\<lambda>i. f i \<noteq> None) is) f, s)"
  using assms by (induction "is") (auto simp: prog_simps split: option.split)

text \<open>A loop over a local variable, with an invariant over the counter.\<close>

lemma runs_to_for_fold_upt:
  assumes base: "I m b s" and le: "m \<le> n"
    and step: "\<And>i b s. m \<le> i \<Longrightarrow> i < n \<Longrightarrow> I i b s \<Longrightarrow> runs_to (body i b) s (I (Suc i))"
  shows "runs_to (for_fold [m..<n] body b) s (I n)"
  using le base step
proof (induction "n - m" arbitrary: m b s)
  case 0
  then show ?case by simp
next
  case (Suc d)
  then have "m < n" by simp
  then have "[m..<n] = m # [Suc m..<n]" by (rule upt_conv_Cons)
  moreover have "runs_to (bindM (body m b) (for_fold [Suc m..<n] body)) s (I n)"
  proof (rule runs_to_bindI)
    show "runs_to (body m b) s (I (Suc m))" using Suc.prems \<open>m < n\<close> by simp
    show "runs_to (for_fold [Suc m..<n] body x) s' (I n)" if "I (Suc m) x s'" for x s'
      using that Suc.hyps(2) Suc.prems \<open>m < n\<close> by (intro Suc.hyps(1)) auto
  qed
  ultimately show ?case by simp
qed

lemma runs_to_for_local:
  assumes "I 0 b s"
    and "\<And>i b s. i < n \<Longrightarrow> I i b s \<Longrightarrow> runs_to (body i b) s (I (Suc i))"
  shows "runs_to (for_fold [0..<n] body b) s (I n)"
  using assms by (intro runs_to_for_fold_upt) auto

text \<open>The program returns exactly this.\<close>

lemma runs_to_eq: "runs_to m s (\<lambda>x s'. x = y \<and> s' = t) \<longleftrightarrow> m s = Inr (y, t)"
  by (auto simp: runs_to_def split: sum.split)

text \<open>Two nested loops are one loop over the pairs.\<close>

lemma for_fold_append:
  "for_fold (xs @ ys) body b s = bindM (for_fold xs body b) (for_fold ys body) s"
  by (induction xs arbitrary: b s) (auto simp: prog_simps split: sum.split)

lemma for_fold_map: "for_fold (map f xs) body = for_fold xs (\<lambda>i. body (f i))"
  by (induction xs; rule ext; simp)

lemma for_each_map: "for_each (map f xs) body = for_each xs (\<lambda>i. body (f i))"
  by (induction xs) simp_all

lemma for_fold_nested:
  "for_fold xs (\<lambda>i. for_fold ys (body i)) b s =
     for_fold (List.product xs ys) (\<lambda>(i, j). body i j) b s"
proof (induction xs arbitrary: b s)
  case (Cons x xs)
  have "for_fold (List.product (x # xs) ys) (\<lambda>(i, j). body i j) b s =
      bindM (for_fold ys (body x) b) (for_fold (List.product xs ys) (\<lambda>(i, j). body i j)) s"
    by (simp add: for_fold_append for_fold_map)
  with Cons.IH show ?case by (simp add: prog_simps split: sum.split)
qed simp

lemma for_each_nested:
  "for_each xs (\<lambda>i. for_each ys (body i)) = for_each (List.product xs ys) (\<lambda>(i, j). body i j)"
  by (induction xs) (simp_all add: for_each_append for_each_map)

lemma for_fold_fails:
  assumes "I 0 b s" and k: "k < n"
    and "\<And>i b s. i < k \<Longrightarrow> I i b s \<Longrightarrow> runs_to (body i b) s (I (Suc i))"
    and f: "\<And>b s. I k b s \<Longrightarrow> body k b s = Inl e"
  shows "for_fold [0..<n] body b s = Inl e"
proof -
  have "[0..<n] = [0..<k] @ [k..<n]"
    using k by (metis le_add_diff_inverse less_imp_le upt_add_eq_append zero_le)
  also have "[k..<n] = k # [Suc k..<n]" using k by (rule upt_conv_Cons)
  finally have split: "[0..<n] = [0..<k] @ k # [Suc k..<n]" .
  have "runs_to (for_fold [0..<k] body b) s (I k)"
    using assms by (intro runs_to_for_local) auto
  then show ?thesis
    unfolding split for_fold_append by (rule bind_failI) (simp add: prog_simps f)
qed

end
