(* ===== verification/C_Memory.thy ===== *)
theory C_Memory
  imports Prelude
begin

text \<open>
  The memory of a C process as the program uses it: the three structs of
  \<open>src/constants.h\<close>, one typed heap for each, \<open>malloc\<close> and \<open>free\<close>, and the text
  written to standard output. Addresses are natural numbers, \<open>0\<close> is \<open>NULL\<close>, and an address
  is never handed out twice, so that a use of freed memory is always noticed. \<open>quota\<close> is
  the number of calls of \<open>malloc\<close> that succeed from now on; when it is used up, \<open>malloc\<close>
  returns \<open>NULL\<close>.
\<close>

section \<open>The structs of constants.h\<close>

type_synonym addr = nat

definition NULL :: addr where "NULL = 0"

record adjacent_face =
  face :: "int cell"
  edge_squares :: "int cell list"

record face =
  colors :: "int cell list"
  adjacent_faces :: "addr cell list"

record cube =
  faces :: "addr cell list"

record mem =
  adjacent_heap :: "addr \<Rightarrow> adjacent_face option"
  face_heap :: "addr \<Rightarrow> face option"
  cube_heap :: "addr \<Rightarrow> cube option"
  next_addr :: addr
  quota :: nat
  stdout :: string

type_synonym 'o heap_upd = "((addr \<Rightarrow> 'o option) \<Rightarrow> addr \<Rightarrow> 'o option) \<Rightarrow> mem \<Rightarrow> mem"

section \<open>Access to one typed heap\<close>

definition malloc :: "'o heap_upd \<Rightarrow> 'o \<Rightarrow> (mem, addr) prog" where
  "malloc upd blank = (\<lambda>h.
     if quota h = 0 then Inr (NULL, h)
     else Inr (next_addr h,
            (upd (\<lambda>m. m(next_addr h \<mapsto> blank)) h)
              \<lparr>next_addr := Suc (next_addr h), quota := quota h - 1\<rparr>))"

definition free :: "(mem \<Rightarrow> addr \<Rightarrow> 'o option) \<Rightarrow> 'o heap_upd \<Rightarrow> addr \<Rightarrow> (mem, unit) prog" where
  "free get upd p = (\<lambda>h.
     if p = NULL then Inr ((), h)
     else case get h p of
       None \<Rightarrow> Inl Bad_Free
     | Some _ \<Rightarrow> Inr ((), upd (\<lambda>m. m(p := None)) h))"

definition load :: "(mem \<Rightarrow> addr \<Rightarrow> 'o option) \<Rightarrow> addr \<Rightarrow> (mem, 'o) prog" where
  "load get p = (\<lambda>h.
     if p = NULL then Inl Null_Deref
     else case get h p of None \<Rightarrow> Inl Dangling | Some x \<Rightarrow> Inr (x, h))"

definition update_obj ::
    "(mem \<Rightarrow> addr \<Rightarrow> 'o option) \<Rightarrow> 'o heap_upd \<Rightarrow> addr \<Rightarrow> ('o \<Rightarrow> 'o res) \<Rightarrow> (mem, unit) prog" where
  "update_obj get upd p f = bindM (load get p) (\<lambda>x. bindM (liftM (f x))
     (\<lambda>y. modifyM (upd (\<lambda>m. m(p \<mapsto> y)))))"

definition print :: "string \<Rightarrow> (mem, unit) prog" where
  "print s = modifyM (\<lambda>h. h\<lparr>stdout := stdout h @ s\<rparr>)"

section \<open>The laws of one typed heap\<close>

text \<open>
  What the three heaps have in common, stated once: \<open>get\<close> and \<open>upd\<close> read and write the same
  map, \<open>upd\<close> leaves the allocator and the output alone. The lemmas about \<open>malloc\<close>, \<open>free\<close>,
  \<open>load\<close> and \<open>update_obj\<close> are proved here for any such heap.
\<close>

locale typed_heap =
  fixes get :: "mem \<Rightarrow> addr \<Rightarrow> 'o option"
    and upd :: "((addr \<Rightarrow> 'o option) \<Rightarrow> addr \<Rightarrow> 'o option) \<Rightarrow> mem \<Rightarrow> mem"
  assumes get_upd: "get (upd f h) = f (get h)"
    and get_next: "get (h\<lparr>next_addr := n\<rparr>) = get h"
    and get_quota: "get (h\<lparr>quota := q\<rparr>) = get h"
    and next_upd: "next_addr (upd f h) = next_addr h"
    and quota_upd: "quota (upd f h) = quota h"
    and stdout_upd: "stdout (upd f h) = stdout h"
begin

lemmas laws = get_upd get_next get_quota next_upd quota_upd stdout_upd

lemma load_wp:
  "runs_to (load get p) h Q \<longleftrightarrow> p \<noteq> NULL \<and> (\<exists>x. get h p = Some x \<and> Q x h)"
  by (auto simp: runs_to_def load_def split: option.split)

lemma load_null: "load get NULL h = Inl Null_Deref"
  by (simp add: load_def)

lemma load_freed: "p \<noteq> NULL \<Longrightarrow> get h p = None \<Longrightarrow> load get p h = Inl Dangling"
  by (simp add: load_def)

lemma update_wp:
  "runs_to (update_obj get upd p f) h Q \<longleftrightarrow>
     p \<noteq> NULL \<and> (\<exists>x y. get h p = Some x \<and> f x = Inr y \<and> Q () (upd (\<lambda>m. m(p \<mapsto> y)) h))"
  by (auto simp: update_obj_def runs_to_bind runs_to_lift load_wp)

lemma update_null: "update_obj get upd NULL f h = Inl Null_Deref"
  by (simp add: update_obj_def prog_simps load_null)

lemma update_fault:
  "p \<noteq> NULL \<Longrightarrow> get h p = Some x \<Longrightarrow> f x = Inl e \<Longrightarrow> update_obj get upd p f h = Inl e"
  by (simp add: update_obj_def prog_simps load_def)

lemma malloc_wp:
  "0 < quota h \<Longrightarrow> runs_to (malloc upd b) h Q \<longleftrightarrow>
     Q (next_addr h) ((upd (\<lambda>m. m(next_addr h \<mapsto> b)) h)
        \<lparr>next_addr := Suc (next_addr h), quota := quota h - 1\<rparr>)"
  by (simp add: runs_to_def malloc_def)

lemma malloc_fails: "quota h = 0 \<Longrightarrow> malloc upd b h = Inr (NULL, h)"
  by (simp add: malloc_def)

lemma malloc_stored:
  "malloc upd b h = Inr (p, h') \<Longrightarrow> p \<noteq> NULL \<Longrightarrow> get h' p = Some b"
  by (auto simp: malloc_def NULL_def laws split: if_splits)

lemma free_wp:
  "runs_to (free get upd p) h Q \<longleftrightarrow>
     (if p = NULL then Q () h
      else get h p \<noteq> None \<and> Q () (upd (\<lambda>m. m(p := None)) h))"
  by (auto simp: runs_to_def free_def split: option.split)

lemma double_free:
  "free get upd p h = Inr ((), h') \<Longrightarrow> p \<noteq> NULL \<Longrightarrow> free get upd p h' = Inl Bad_Free"
  by (auto simp: free_def laws split: option.splits)

lemma use_after_free:
  "free get upd p h = Inr ((), h') \<Longrightarrow> p \<noteq> NULL \<Longrightarrow> load get p h' = Inl Dangling"
  by (auto simp: free_def load_def laws split: option.splits)

end

interpretation adj: typed_heap adjacent_heap adjacent_heap_update
  by unfold_locales simp_all

interpretation fce: typed_heap face_heap face_heap_update
  by unfold_locales simp_all

interpretation cub: typed_heap cube_heap cube_heap_update
  by unfold_locales simp_all

lemmas heap_wp = adj.load_wp adj.update_wp adj.free_wp fce.load_wp fce.update_wp fce.free_wp
  cub.load_wp cub.update_wp cub.free_wp

lemma runs_to_print [wp, simp]:
  "runs_to (print s) h Q \<longleftrightarrow> Q () (h\<lparr>stdout := stdout h @ s\<rparr>)"
  by (simp add: print_def)

section \<open>Frames and fresh memory\<close>

text \<open>
  \<open>unchanged X h h'\<close>: outside the addresses in \<open>X\<close> the three heaps of \<open>h\<close> and \<open>h'\<close> hold
  the same objects. \<open>mem_ok h\<close>: only addresses below \<open>next_addr h\<close> are in use.
\<close>

definition unchanged :: "addr set \<Rightarrow> mem \<Rightarrow> mem \<Rightarrow> bool" where
  "unchanged X h h' \<longleftrightarrow>
     (\<forall>a. a \<notin> X \<longrightarrow> adjacent_heap h' a = adjacent_heap h a \<and> face_heap h' a = face_heap h a \<and>
        cube_heap h' a = cube_heap h a)"

definition same_alloc :: "mem \<Rightarrow> mem \<Rightarrow> bool" where
  "same_alloc h h' \<longleftrightarrow>
     next_addr h' = next_addr h \<and> quota h' = quota h \<and> stdout h' = stdout h"

definition live :: "mem \<Rightarrow> addr set" where
  "live h = dom (adjacent_heap h) \<union> dom (face_heap h) \<union> dom (cube_heap h)"

definition mem_ok :: "mem \<Rightarrow> bool" where
  "mem_ok h \<longleftrightarrow> next_addr h \<noteq> NULL \<and> live h \<subseteq> {a. a < next_addr h}"

definition init_mem :: "nat \<Rightarrow> mem" where
  "init_mem n = \<lparr>adjacent_heap = Map.empty, face_heap = Map.empty, cube_heap = Map.empty,
     next_addr = 1, quota = n, stdout = []\<rparr>"

lemma unchanged_refl [simp, intro]: "unchanged X h h"
  by (simp add: unchanged_def)

lemma unchanged_trans:
  "unchanged X h h' \<Longrightarrow> unchanged Y h' h'' \<Longrightarrow> unchanged (X \<union> Y) h h''"
  by (simp add: unchanged_def)

lemma unchanged_mono: "unchanged X h h' \<Longrightarrow> X \<subseteq> Y \<Longrightarrow> unchanged Y h h'"
  by (auto simp: unchanged_def)

lemma unchangedD:
  assumes "unchanged X h h'" and "a \<notin> X"
  shows "adjacent_heap h' a = adjacent_heap h a" and "face_heap h' a = face_heap h a"
    and "cube_heap h' a = cube_heap h a"
  using assms by (auto simp: unchanged_def)

lemma same_alloc_refl [simp, intro]: "same_alloc h h"
  by (simp add: same_alloc_def)

lemma same_alloc_trans: "same_alloc h h' \<Longrightarrow> same_alloc h' h'' \<Longrightarrow> same_alloc h h''"
  by (simp add: same_alloc_def)

lemma init_mem_ok: "mem_ok (init_mem n)"
  by (simp add: mem_ok_def init_mem_def live_def NULL_def)

lemma fresh_not_live: "mem_ok h \<Longrightarrow> next_addr h \<le> a \<Longrightarrow>
    adjacent_heap h a = None \<and> face_heap h a = None \<and> cube_heap h a = None"
  by (force simp: mem_ok_def live_def dom_def)

section \<open>Well-formed memories\<close>

text \<open>
  A memory is well formed when every address in use lies below \<open>next_addr\<close> and holds one object
  of one type. \<open>keeps m\<close>: the program \<open>m\<close>, wherever it returns, leaves a well-formed memory
  well formed. The rules below build \<open>keeps\<close> for a program from its parts.
\<close>

definition one_type :: "mem \<Rightarrow> addr \<Rightarrow> bool" where
  "one_type h a \<longleftrightarrow>
     (adjacent_heap h a = None \<or> face_heap h a = None) \<and>
     (adjacent_heap h a = None \<or> cube_heap h a = None) \<and>
     (face_heap h a = None \<or> cube_heap h a = None)"

definition wf_mem :: "mem \<Rightarrow> bool" where
  "wf_mem h \<longleftrightarrow> mem_ok h \<and> (\<forall>a. one_type h a)"

definition keeps :: "(mem, 'a) prog \<Rightarrow> bool" where
  "keeps m \<longleftrightarrow> (\<forall>h x h'. wf_mem h \<longrightarrow> m h = Inr (x, h') \<longrightarrow> wf_mem h')"

named_theorems keeps_intro "rules that build keeps"

lemma init_wf_mem: "wf_mem (init_mem n)"
  using init_mem_ok by (simp add: wf_mem_def one_type_def init_mem_def)

lemma keepsD: "keeps m \<Longrightarrow> wf_mem h \<Longrightarrow> m h = Inr (x, h') \<Longrightarrow> wf_mem h'"
  by (simp add: keeps_def)

lemma keeps_runs_to: "keeps m \<Longrightarrow> wf_mem h \<Longrightarrow> runs_to m h Q \<Longrightarrow> runs_to m h (\<lambda>x h'. Q x h' \<and> wf_mem h')"
  by (auto simp: keeps_def runs_to_iff)

lemma keeps_same_state: "(\<And>h x h'. m h = Inr (x, h') \<Longrightarrow> h' = h) \<Longrightarrow> keeps m"
  by (auto simp: keeps_def)

lemma keeps_return [keeps_intro]: "keeps (returnM x)"
  by (simp add: keeps_def prog_simps)

lemma keeps_lift [keeps_intro]: "keeps (liftM r)"
  by (rule keeps_same_state) (auto simp: prog_simps split: sum.splits)

lemma keeps_bind [keeps_intro]:
  assumes m: "keeps m" and k: "\<And>x. keeps (k x)"
  shows "keeps (bindM m k)"
  unfolding keeps_def
proof (intro allI impI)
  fix h x h' assume h: "wf_mem h" and run: "bindM m k h = Inr (x, h')"
  then obtain y g where "m h = Inr (y, g)" and "k y g = Inr (x, h')"
    by (auto simp: prog_simps split: sum.splits)
  then show "wf_mem h'" using h by (auto dest: keepsD [OF m] keepsD [OF k])
qed

lemma keeps_then [keeps_intro]: "keeps m \<Longrightarrow> keeps k \<Longrightarrow> keeps (thenM m k)"
  unfolding thenM_def by (rule keeps_bind)

lemma keeps_if [keeps_intro]: "keeps m \<Longrightarrow> keeps k \<Longrightarrow> keeps (if b then m else k)"
  by simp

lemma keeps_for_each [keeps_intro]: "(\<And>i. keeps (body i)) \<Longrightarrow> keeps (for_each is body)"
  by (induction "is") (auto intro: keeps_intro)

lemma keeps_for_return [keeps_intro]: "(\<And>i. keeps (body i)) \<Longrightarrow> keeps (for_return is body)"
  by (induction "is") (auto intro!: keeps_intro split: option.split)

lemma keeps_print [keeps_intro]: "keeps (print s)"
  by (auto simp: keeps_def print_def prog_simps wf_mem_def mem_ok_def live_def one_type_def)

lemma keeps_load [keeps_intro]: "keeps (load get p)"
  by (rule keeps_same_state) (auto simp: load_def split: if_splits option.splits)

lemma wf_mem_cell:
  "wf_mem h \<Longrightarrow> adjacent_heap h p = Some x \<Longrightarrow> wf_mem (adjacent_heap_update (\<lambda>m. m(p := y)) h)"
  "wf_mem h \<Longrightarrow> face_heap h p = Some x' \<Longrightarrow> wf_mem (face_heap_update (\<lambda>m. m(p := y')) h)"
  "wf_mem h \<Longrightarrow> cube_heap h p = Some x'' \<Longrightarrow> wf_mem (cube_heap_update (\<lambda>m. m(p := y'')) h)"
  by (auto simp: wf_mem_def mem_ok_def live_def dom_def one_type_def)
    (metis option.distinct(1))+

lemma keeps_update [keeps_intro]:
  "keeps (update_obj adjacent_heap adjacent_heap_update p f)"
  "keeps (update_obj face_heap face_heap_update p f')"
  "keeps (update_obj cube_heap cube_heap_update p f'')"
  by (auto simp: keeps_def update_obj_def load_def prog_simps intro: wf_mem_cell
    split: sum.splits if_splits option.splits)

lemma keeps_free [keeps_intro]:
  "keeps (free adjacent_heap adjacent_heap_update p)"
  "keeps (free face_heap face_heap_update p)"
  "keeps (free cube_heap cube_heap_update p)"
  by (auto simp: keeps_def free_def intro: wf_mem_cell split: if_splits option.splits)

lemma keeps_malloc [keeps_intro]:
  "keeps (malloc adjacent_heap_update b)"
  "keeps (malloc face_heap_update b')"
  "keeps (malloc cube_heap_update b'')"
  by (auto simp: keeps_def malloc_def wf_mem_def mem_ok_def live_def dom_def one_type_def NULL_def
    split: if_splits)

end
