(* ===== verification/Cube.thy ===== *)
theory Cube
  imports C_Memory "HOL-Library.Word"
begin

text \<open>
  \<open>src/constants.h\<close> and \<open>src/rubiks_start.c\<close>: the cube as a graph of heap objects and every
  function of the cube library, written over the memory of \<open>C_Memory\<close>. A pointer argument is
  an address, an \<open>int\<close> is an integer, an array index that is out of bounds, a null or freed
  pointer and an indeterminate value are faults. \<open>rotate\<close> is called \<open>rotate_cube\<close> here,
  because \<open>rotate\<close> is a function on lists of the library. This theory holds definitions only;
  what they compute is proved in \<open>Cube_Refine\<close>.
\<close>

section \<open>Constants\<close>

abbreviation (input) N_FACES :: nat where "N_FACES \<equiv> 6"
abbreviation (input) N_SQUARES_PER_SIDE :: nat where "N_SQUARES_PER_SIDE \<equiv> 3"
abbreviation (input) N_EDGES_PER_SIDE :: nat where "N_EDGES_PER_SIDE \<equiv> 4"
abbreviation (input) N_SQUARES_PER_FACE :: nat where "N_SQUARES_PER_FACE \<equiv> 9"

abbreviation (input) FACE_FRONT :: int where "FACE_FRONT \<equiv> 0"
abbreviation (input) FACE_RIGHT :: int where "FACE_RIGHT \<equiv> 1"
abbreviation (input) FACE_TOP :: int where "FACE_TOP \<equiv> 2"
abbreviation (input) FACE_BOTTOM :: int where "FACE_BOTTOM \<equiv> 3"
abbreviation (input) FACE_LEFT :: int where "FACE_LEFT \<equiv> 4"
abbreviation (input) FACE_BACK :: int where "FACE_BACK \<equiv> 5"

abbreviation (input) SQUARE_UL :: int where "SQUARE_UL \<equiv> 0"
abbreviation (input) SQUARE_UM :: int where "SQUARE_UM \<equiv> 1"
abbreviation (input) SQUARE_UR :: int where "SQUARE_UR \<equiv> 2"
abbreviation (input) SQUARE_ML :: int where "SQUARE_ML \<equiv> 3"
abbreviation (input) SQUARE_MM :: int where "SQUARE_MM \<equiv> 4"
abbreviation (input) SQUARE_MR :: int where "SQUARE_MR \<equiv> 5"
abbreviation (input) SQUARE_LL :: int where "SQUARE_LL \<equiv> 6"
abbreviation (input) SQUARE_LM :: int where "SQUARE_LM \<equiv> 7"
abbreviation (input) SQUARE_LR :: int where "SQUARE_LR \<equiv> 8"
abbreviation (input) SQUARE_UNDEFINED :: int where "SQUARE_UNDEFINED \<equiv> - 1"

abbreviation (input) MIN_DEPTH :: int where "MIN_DEPTH \<equiv> 20"
abbreviation (input) MAX_DEPTH :: int where "MAX_DEPTH \<equiv> 30"

section \<open>Field and element access\<close>

definition mapR :: "('a \<Rightarrow> 'b) \<Rightarrow> 'a res \<Rightarrow> 'b res" where
  "mapR f r = (case r of Inl e \<Rightarrow> Inl e | Inr x \<Rightarrow> Inr (f x))"

definition get_face :: "addr \<Rightarrow> int \<Rightarrow> (mem, addr) prog" where
  "get_face c i = bindM (load cube_heap c) (\<lambda>x. liftM (arr_get (faces x) i))"

definition set_face :: "addr \<Rightarrow> int \<Rightarrow> addr \<Rightarrow> (mem, unit) prog" where
  "set_face c i f = update_obj cube_heap cube_heap_update c
     (\<lambda>x. mapR (\<lambda>a. x\<lparr>faces := a\<rparr>) (arr_set (faces x) i f))"

definition get_color :: "addr \<Rightarrow> int \<Rightarrow> (mem, int) prog" where
  "get_color f i = bindM (load face_heap f) (\<lambda>x. liftM (arr_get (colors x) i))"

definition set_color :: "addr \<Rightarrow> int \<Rightarrow> int \<Rightarrow> (mem, unit) prog" where
  "set_color f i v = update_obj face_heap face_heap_update f
     (\<lambda>x. mapR (\<lambda>a. x\<lparr>colors := a\<rparr>) (arr_set (colors x) i v))"

definition get_adjacent :: "addr \<Rightarrow> int \<Rightarrow> (mem, addr) prog" where
  "get_adjacent f i = bindM (load face_heap f) (\<lambda>x. liftM (arr_get (adjacent_faces x) i))"

definition set_adjacent :: "addr \<Rightarrow> int \<Rightarrow> addr \<Rightarrow> (mem, unit) prog" where
  "set_adjacent f i a = update_obj face_heap face_heap_update f
     (\<lambda>x. mapR (\<lambda>as. x\<lparr>adjacent_faces := as\<rparr>) (arr_set (adjacent_faces x) i a))"

definition get_adj_face :: "addr \<Rightarrow> (mem, int) prog" where
  "get_adj_face a = bindM (load adjacent_heap a) (\<lambda>x. liftM (rd_cell (face x)))"

definition set_adj_face :: "addr \<Rightarrow> int \<Rightarrow> (mem, unit) prog" where
  "set_adj_face a v = update_obj adjacent_heap adjacent_heap_update a
     (\<lambda>x. Inr (x\<lparr>face := Some v\<rparr>))"

definition get_edge_square :: "addr \<Rightarrow> int \<Rightarrow> (mem, int) prog" where
  "get_edge_square a i =
     bindM (load adjacent_heap a) (\<lambda>x. liftM (arr_get (edge_squares x) i))"

definition set_edge_square :: "addr \<Rightarrow> int \<Rightarrow> int \<Rightarrow> (mem, unit) prog" where
  "set_edge_square a i v = update_obj adjacent_heap adjacent_heap_update a
     (\<lambda>x. mapR (\<lambda>es. x\<lparr>edge_squares := es\<rparr>) (arr_set (edge_squares x) i v))"

section \<open>Creation and release\<close>

definition make_adjacent_face :: "int \<Rightarrow> int list \<Rightarrow> (mem, addr) prog" where
  "make_adjacent_face face_num squares =
     bindM (malloc adjacent_heap_update
       \<lparr>face = None, edge_squares = replicate N_SQUARES_PER_SIDE None\<rparr>) (\<lambda>new_adjacent_face.
     thenM (set_adj_face new_adjacent_face face_num)
    (thenM (for_each [0..<N_SQUARES_PER_SIDE] (\<lambda>ind.
       bindM (liftM (idx squares (int ind))) (set_edge_square new_adjacent_face (int ind))))
    (returnM new_adjacent_face)))"

definition free_adjacent_face :: "addr \<Rightarrow> (mem, unit) prog" where
  "free_adjacent_face p = free adjacent_heap adjacent_heap_update p"

definition initialize_adjacent_faces ::
    "addr \<Rightarrow> int list \<Rightarrow> int list list \<Rightarrow> (mem, unit) prog" where
  "initialize_adjacent_faces new_face adj_faces adjacent_face_edge_squares =
     for_each [0..<N_EDGES_PER_SIDE] (\<lambda>ind.
       bindM (liftM (idx adj_faces (int ind))) (\<lambda>fnum.
       bindM (liftM (idx adjacent_face_edge_squares fnum)) (\<lambda>squares.
       bindM (make_adjacent_face fnum squares) (set_adjacent new_face (int ind)))))"

text \<open>The two tables that each case of the \<open>switch\<close> of \<open>make_face\<close> sets up, \<open>None\<close> for the
  \<open>default\<close> case.\<close>

abbreviation (input) no_edge :: "int list" where
  "no_edge \<equiv> [SQUARE_UNDEFINED, SQUARE_UNDEFINED, SQUARE_UNDEFINED]"

definition face_tables :: "int \<Rightarrow> (int list \<times> int list list) option" where
  "face_tables face_num =
    (if face_num = FACE_FRONT then Some
       ([FACE_TOP, FACE_RIGHT, FACE_BOTTOM, FACE_LEFT],
        [no_edge,
         [SQUARE_UL, SQUARE_ML, SQUARE_LL],
         [SQUARE_UL, SQUARE_ML, SQUARE_LL],
         [SQUARE_UL, SQUARE_ML, SQUARE_LL],
         [SQUARE_LR, SQUARE_MR, SQUARE_UR],
         no_edge])
     else if face_num = FACE_RIGHT then Some
       ([FACE_FRONT, FACE_TOP, FACE_BACK, FACE_BOTTOM],
        [[SQUARE_LR, SQUARE_MR, SQUARE_UR],
         no_edge,
         [SQUARE_LL, SQUARE_LM, SQUARE_LR],
         [SQUARE_UR, SQUARE_UM, SQUARE_UL],
         no_edge,
         [SQUARE_UL, SQUARE_ML, SQUARE_LL]])
     else if face_num = FACE_TOP then Some
       ([FACE_FRONT, FACE_LEFT, FACE_BACK, FACE_RIGHT],
        [[SQUARE_UR, SQUARE_UM, SQUARE_UL],
         [SQUARE_UR, SQUARE_UM, SQUARE_UL],
         no_edge,
         no_edge,
         [SQUARE_UR, SQUARE_UM, SQUARE_UL],
         [SQUARE_UR, SQUARE_UM, SQUARE_UL]])
     else if face_num = FACE_BOTTOM then Some
       ([FACE_FRONT, FACE_RIGHT, FACE_BACK, FACE_LEFT],
        [[SQUARE_LL, SQUARE_LM, SQUARE_LR],
         [SQUARE_LL, SQUARE_LM, SQUARE_LR],
         no_edge,
         no_edge,
         [SQUARE_LL, SQUARE_LM, SQUARE_LR],
         [SQUARE_LL, SQUARE_LM, SQUARE_LR]])
     else if face_num = FACE_LEFT then Some
       ([FACE_FRONT, FACE_BOTTOM, FACE_BACK, FACE_TOP],
        [[SQUARE_UL, SQUARE_ML, SQUARE_LL],
         no_edge,
         [SQUARE_UR, SQUARE_UM, SQUARE_UL],
         [SQUARE_LL, SQUARE_LM, SQUARE_LR],
         no_edge,
         [SQUARE_LR, SQUARE_MR, SQUARE_UR]])
     else if face_num = FACE_BACK then Some
       ([FACE_RIGHT, FACE_TOP, FACE_LEFT, FACE_BOTTOM],
        [no_edge,
         [SQUARE_LR, SQUARE_MR, SQUARE_UR],
         [SQUARE_LR, SQUARE_MR, SQUARE_UR],
         [SQUARE_LR, SQUARE_MR, SQUARE_UR],
         [SQUARE_UL, SQUARE_ML, SQUARE_LL],
         no_edge])
     else None)"

definition make_face :: "int \<Rightarrow> (mem, addr) prog" where
  "make_face face_num =
     bindM (malloc face_heap_update
       \<lparr>colors = replicate N_SQUARES_PER_FACE None,
        adjacent_faces = replicate N_EDGES_PER_SIDE None\<rparr>) (\<lambda>new_face.
     thenM (for_each [0..<N_SQUARES_PER_FACE] (\<lambda>ind. set_color new_face (int ind) face_num))
    (thenM (case face_tables face_num of
        Some (adj_faces, edges) \<Rightarrow> initialize_adjacent_faces new_face adj_faces edges
      | None \<Rightarrow> returnM ())
    (returnM new_face)))"

definition free_face :: "addr \<Rightarrow> (mem, unit) prog" where
  "free_face face_ptr =
     thenM (for_each [0..<N_EDGES_PER_SIDE] (\<lambda>ind.
       bindM (get_adjacent face_ptr (int ind)) free_adjacent_face))
     (free face_heap face_heap_update face_ptr)"

definition make_cube :: "(mem, addr) prog" where
  "make_cube =
     bindM (malloc cube_heap_update \<lparr>faces = replicate N_FACES None\<rparr>) (\<lambda>new_cube.
     thenM (for_each [0..<N_FACES] (\<lambda>face_num.
       bindM (make_face (int face_num)) (set_face new_cube (int face_num))))
    (returnM new_cube))"

definition free_cube :: "addr \<Rightarrow> (mem, unit) prog" where
  "free_cube cube_ptr =
     thenM (for_each [0..<N_FACES] (\<lambda>face_num.
       bindM (get_face cube_ptr (int face_num)) free_face))
     (free cube_heap cube_heap_update cube_ptr)"

section \<open>Printing\<close>

fun show_nat :: "nat \<Rightarrow> string" where
  "show_nat n = (if n < 10 then [char_of (48 + n)]
                 else show_nat (n div 10) @ [char_of (48 + n mod 10)])"

definition show_int :: "int \<Rightarrow> string" where
  "show_int i = (if i < 0 then CHR ''-'' # show_nat (nat (- i)) else show_nat (nat i))"

abbreviation (input) newline :: char where "newline \<equiv> CHR 0x0A"

definition print_cube :: "addr \<Rightarrow> (mem, unit) prog" where
  "print_cube cube_ptr =
     thenM (print (''Cube with faces:'' @ [newline]))
     (for_each [0..<N_FACES] (\<lambda>face_id.
       thenM (print (''  Face '' @ show_nat face_id @ '':'' @ [newline]))
       (for_each [0..<N_SQUARES_PER_FACE] (\<lambda>square.
         bindM (get_face cube_ptr (int face_id)) (\<lambda>f.
         bindM (get_color f (int square)) (\<lambda>c. print ('' '' @ show_int c)))))))"

section \<open>Copying\<close>

definition copy_adjacent_face :: "addr \<Rightarrow> addr \<Rightarrow> (mem, unit) prog" where
  "copy_adjacent_face original_face new_face =
     thenM (bindM (get_adj_face original_face) (set_adj_face new_face))
     (for_each [0..<N_SQUARES_PER_SIDE] (\<lambda>ind.
       bindM (get_edge_square original_face (int ind)) (set_edge_square new_face (int ind))))"

definition copy_face :: "addr \<Rightarrow> addr \<Rightarrow> (mem, unit) prog" where
  "copy_face original_face new_face =
     thenM (for_each [0..<N_SQUARES_PER_FACE] (\<lambda>square_num.
       bindM (get_color original_face (int square_num)) (set_color new_face (int square_num))))
     (for_each [0..<N_EDGES_PER_SIDE] (\<lambda>adjacent_face_num.
       bindM (get_adjacent original_face (int adjacent_face_num)) (\<lambda>a.
       bindM (get_adjacent new_face (int adjacent_face_num)) (\<lambda>b. copy_adjacent_face a b))))"

definition copy_cube :: "addr \<Rightarrow> addr \<Rightarrow> (mem, unit) prog" where
  "copy_cube original_cube new_cube =
     for_each [0..<N_FACES] (\<lambda>face_num.
       bindM (get_face original_cube (int face_num)) (\<lambda>f.
       bindM (get_face new_cube (int face_num)) (\<lambda>g. copy_face f g)))"

section \<open>Turning a face\<close>

definition move_color :: "addr \<Rightarrow> addr \<Rightarrow> int \<times> int \<Rightarrow> (mem, unit) prog" where
  "move_color original_face new_face_to_populate m =
     bindM (get_color original_face (snd m)) (set_color new_face_to_populate (fst m))"

text \<open>The nine assignments of each function, in their order, as (target, source) squares.\<close>

definition transpose_face_clockwise :: "addr \<Rightarrow> addr \<Rightarrow> (mem, unit) prog" where
  "transpose_face_clockwise original_face new_face_to_populate =
     for_each [(SQUARE_UL, SQUARE_LL), (SQUARE_UM, SQUARE_ML), (SQUARE_UR, SQUARE_UL),
               (SQUARE_ML, SQUARE_LM), (SQUARE_MM, SQUARE_MM), (SQUARE_MR, SQUARE_UM),
               (SQUARE_LL, SQUARE_LR), (SQUARE_LM, SQUARE_MR), (SQUARE_LR, SQUARE_UR)]
       (move_color original_face new_face_to_populate)"

definition transpose_face_counterclockwise :: "addr \<Rightarrow> addr \<Rightarrow> (mem, unit) prog" where
  "transpose_face_counterclockwise original_face new_face_to_populate =
     for_each [(SQUARE_UL, SQUARE_UR), (SQUARE_UM, SQUARE_MR), (SQUARE_UR, SQUARE_LR),
               (SQUARE_ML, SQUARE_UM), (SQUARE_MM, SQUARE_MM), (SQUARE_MR, SQUARE_LM),
               (SQUARE_LL, SQUARE_UL), (SQUARE_LM, SQUARE_ML), (SQUARE_LR, SQUARE_LL)]
       (move_color original_face new_face_to_populate)"

text \<open>The inner loop over \<open>jind\<close>, the same text in both functions below: the three squares of
  one edge move to the next one.\<close>

definition move_edge :: "addr \<Rightarrow> addr \<Rightarrow> addr \<Rightarrow> addr \<Rightarrow> (mem, unit) prog" where
  "move_edge cube_ptr new_cube_to_populate current_adjacent_face next_adjacent_face =
     for_each [0..<N_SQUARES_PER_SIDE] (\<lambda>jind.
       bindM (bindM (get_adj_face current_adjacent_face) (\<lambda>k.
              bindM (get_face cube_ptr k) (\<lambda>f.
              bindM (get_edge_square current_adjacent_face (int jind)) (get_color f))))
         (\<lambda>old_color.
       bindM (get_adj_face next_adjacent_face) (\<lambda>k.
       bindM (get_face new_cube_to_populate k) (\<lambda>f.
       bindM (get_edge_square next_adjacent_face (int jind)) (\<lambda>s. set_color f s old_color)))))"

definition transpose_other_faces_clockwise :: "addr \<Rightarrow> addr \<Rightarrow> int \<Rightarrow> (mem, unit) prog" where
  "transpose_other_faces_clockwise cube_ptr new_cube_to_populate face_num =
     for_each [0..<N_EDGES_PER_SIDE] (\<lambda>ind.
       bindM (bindM (get_face cube_ptr face_num) (\<lambda>f. get_adjacent f (int ind)))
         (\<lambda>current_adjacent_face.
       bindM (bindM (get_face cube_ptr face_num) (\<lambda>f.
         if ind < N_EDGES_PER_SIDE - 1 then get_adjacent f (int (ind + 1)) else get_adjacent f 0))
         (\<lambda>next_adjacent_face.
       move_edge cube_ptr new_cube_to_populate current_adjacent_face next_adjacent_face)))"

definition transpose_other_faces_counterclockwise ::
    "addr \<Rightarrow> addr \<Rightarrow> int \<Rightarrow> (mem, unit) prog" where
  "transpose_other_faces_counterclockwise cube_ptr new_cube_to_populate face_num =
     for_each [0..<N_EDGES_PER_SIDE] (\<lambda>ind.
       bindM (bindM (get_face cube_ptr face_num) (\<lambda>f. get_adjacent f (int ind)))
         (\<lambda>current_adjacent_face.
       bindM (bindM (get_face cube_ptr face_num) (\<lambda>f.
         if ind < 1 then get_adjacent f (int (N_EDGES_PER_SIDE - 1))
         else get_adjacent f (int (ind - 1))))
         (\<lambda>next_adjacent_face.
       move_edge cube_ptr new_cube_to_populate current_adjacent_face next_adjacent_face)))"

definition rotate_cube :: "addr \<Rightarrow> int \<Rightarrow> int \<Rightarrow> (mem, unit) prog" where
  "rotate_cube cube_ptr face_num direction =
     bindM make_cube (\<lambda>cube_copy.
     thenM (copy_cube cube_ptr cube_copy)
    (thenM
      (if direction = 0 then
         thenM (bindM (get_face cube_ptr face_num) (\<lambda>f.
                bindM (get_face cube_copy face_num) (\<lambda>g. transpose_face_clockwise f g)))
         (transpose_other_faces_clockwise cube_ptr cube_copy face_num)
       else
         thenM (bindM (get_face cube_ptr face_num) (\<lambda>f.
                bindM (get_face cube_copy face_num) (\<lambda>g. transpose_face_counterclockwise f g)))
         (transpose_other_faces_counterclockwise cube_ptr cube_copy face_num))
    (thenM (copy_cube cube_copy cube_ptr) (free_cube cube_copy))))"

section \<open>Shuffling and testing\<close>

text \<open>
  \<open>time\<close> and \<open>rand_r\<close> belong to the C library: the seed is a parameter, and \<open>rng\<close> is
  \<open>rand_r\<close>, from a seed to the number and the next seed. C leaves open which argument of the
  call of \<open>rotate\<close> is evaluated first; \<open>face_first\<close> says which.
\<close>

type_synonym seed = "32 word"
type_synonym rng = "seed \<Rightarrow> int \<times> seed"

definition shuffle_args :: "rng \<Rightarrow> bool \<Rightarrow> seed \<Rightarrow> int \<times> int \<times> seed" where
  "shuffle_args rng face_first seed =
     (let (a, seed1) = rng seed; (b, seed2) = rng seed1
      in if face_first then (a, b, seed2) else (b, a, seed2))"

primrec shuffle_loop :: "rng \<Rightarrow> bool \<Rightarrow> addr \<Rightarrow> nat \<Rightarrow> seed \<Rightarrow> (mem, unit) prog" where
  "shuffle_loop rng face_first cube_ptr 0 seed = returnM ()"
| "shuffle_loop rng face_first cube_ptr (Suc n) seed =
     (let (a, b, seed') = shuffle_args rng face_first seed in
      bindM (liftM (c_rem a (int N_FACES))) (\<lambda>face_num.
      bindM (liftM (c_rem b 2)) (\<lambda>direction.
      thenM (rotate_cube cube_ptr face_num direction)
      (shuffle_loop rng face_first cube_ptr n seed'))))"

definition shuffle_depth :: "int \<Rightarrow> int \<Rightarrow> int \<Rightarrow> int res" where
  "shuffle_depth r min_depth max_depth =
     (case c_int (max_depth - min_depth) of Inl e \<Rightarrow> Inl e | Inr d \<Rightarrow>
     (case c_int (d + 1) of Inl e \<Rightarrow> Inl e | Inr m \<Rightarrow>
     (case c_rem r m of Inl e \<Rightarrow> Inl e | Inr x \<Rightarrow> c_int (x + min_depth))))"

definition shuffle :: "rng \<Rightarrow> bool \<Rightarrow> seed \<Rightarrow> addr \<Rightarrow> int \<Rightarrow> int \<Rightarrow> (mem, unit) prog" where
  "shuffle rng face_first now cube_ptr min_depth max_depth =
     (let (r, seed) = rng now in
      bindM (liftM (shuffle_depth r min_depth max_depth)) (\<lambda>depth.
      shuffle_loop rng face_first cube_ptr (nat depth) seed))"

definition is_solved :: "addr \<Rightarrow> (mem, int) prog" where
  "is_solved cube_ptr =
     bindM (for_return [0..<N_FACES] (\<lambda>ind.
       for_return [0..<N_SQUARES_PER_FACE] (\<lambda>jind.
         bindM (get_face cube_ptr (int ind)) (\<lambda>f.
         bindM (get_color f (int jind)) (\<lambda>c.
         returnM (if c \<noteq> int ind then Some 0 else None))))))
     (\<lambda>r. returnM (case r of None \<Rightarrow> 1 | Some x \<Rightarrow> x))"

end
