(* ===== verification/Cube_Refine.thy ===== *)
theory Cube_Refine
  imports Cube
begin

text \<open>
  What the heap functions of \<open>Cube\<close> compute. \<open>cube_at h p L V\<close> says that in memory \<open>h\<close> a
  complete cube with contents \<open>V\<close> lives at address \<open>p\<close>, in the objects listed by the layout
  \<open>L\<close>; for every function a lemma says when it runs without a fault and which contents it
  leaves, and what it leaves alone.
\<close>

section \<open>Cubes in memory\<close>

type_synonym adj_val = "int \<times> int list"
type_synonym face_val = "int list \<times> adj_val list"
type_synonym layout = "(addr \<times> addr list) list"

definition adj_at :: "mem \<Rightarrow> addr \<Rightarrow> adj_val \<Rightarrow> bool" where
  "adj_at h a v \<longleftrightarrow> a \<noteq> NULL \<and> length (snd v) = N_SQUARES_PER_SIDE \<and>
     adjacent_heap h a = Some \<lparr>face = Some (fst v), edge_squares = map Some (snd v)\<rparr>"

definition adj_raw :: "mem \<Rightarrow> addr \<Rightarrow> bool" where
  "adj_raw h a \<longleftrightarrow> a \<noteq> NULL \<and>
     (\<exists>x. adjacent_heap h a = Some x \<and> length (edge_squares x) = N_SQUARES_PER_SIDE)"

definition face_at :: "mem \<Rightarrow> addr \<Rightarrow> addr list \<Rightarrow> face_val \<Rightarrow> bool" where
  "face_at h q as v \<longleftrightarrow> q \<noteq> NULL \<and>
     length (fst v) = N_SQUARES_PER_FACE \<and> length (snd v) = N_EDGES_PER_SIDE \<and>
     length as = N_EDGES_PER_SIDE \<and> distinct (q # as) \<and>
     face_heap h q = Some \<lparr>colors = map Some (fst v), adjacent_faces = map Some as\<rparr> \<and>
     (\<forall>j<N_EDGES_PER_SIDE. adj_at h (as ! j) (snd v ! j))"

text \<open>A face whose pointers are set up and whose colours may still be indeterminate.\<close>

definition face_raw :: "mem \<Rightarrow> addr \<Rightarrow> addr list \<Rightarrow> bool" where
  "face_raw h q as \<longleftrightarrow> q \<noteq> NULL \<and> length as = N_EDGES_PER_SIDE \<and> distinct (q # as) \<and>
     (\<exists>cs. length cs = N_SQUARES_PER_FACE \<and>
        face_heap h q = Some \<lparr>colors = cs, adjacent_faces = map Some as\<rparr>) \<and>
     (\<forall>j<N_EDGES_PER_SIDE. adj_raw h (as ! j))"

definition face_addrs :: "addr \<times> addr list \<Rightarrow> addr list" where
  "face_addrs qa = fst qa # snd qa"

definition cube_addrs :: "addr \<Rightarrow> layout \<Rightarrow> addr list" where
  "cube_addrs p L = p # concat (map face_addrs L)"

definition cube_at :: "mem \<Rightarrow> addr \<Rightarrow> layout \<Rightarrow> face_val list \<Rightarrow> bool" where
  "cube_at h p L V \<longleftrightarrow> p \<noteq> NULL \<and> length L = N_FACES \<and> length V = N_FACES \<and>
     cube_heap h p = Some \<lparr>faces = map (Some \<circ> fst) L\<rparr> \<and>
     (\<forall>i<N_FACES. face_at h (fst (L ! i)) (snd (L ! i)) (V ! i)) \<and>
     distinct (cube_addrs p L)"

lemma adj_at_raw: "adj_at h a v \<Longrightarrow> adj_raw h a"
  by (auto simp: adj_at_def adj_raw_def)

lemma face_at_raw: "face_at h q as v \<Longrightarrow> face_raw h q as"
  by (auto simp: face_at_def face_raw_def intro: adj_at_raw)

lemma adj_at_frame: "adj_at h a v \<Longrightarrow> unchanged X h h' \<Longrightarrow> a \<notin> X \<Longrightarrow> adj_at h' a v"
  by (simp add: adj_at_def unchanged_def)

lemma adj_raw_frame: "adj_raw h a \<Longrightarrow> unchanged X h h' \<Longrightarrow> a \<notin> X \<Longrightarrow> adj_raw h' a"
  by (simp add: adj_raw_def unchanged_def)

lemma face_at_frame:
  assumes f: "face_at h q as v" and u: "unchanged X h h'" and d: "set (q # as) \<inter> X = {}"
  shows "face_at h' q as v"
proof -
  have "adj_at h' (as ! j) (snd v ! j)" if "j < N_EDGES_PER_SIDE" for j
    using f that d by (intro adj_at_frame [OF _ u] nth_notin) (auto simp: face_at_def)
  moreover have "face_heap h' q = face_heap h q"
    using d by (intro unchangedD [OF u]) auto
  ultimately show ?thesis using f by (simp add: face_at_def)
qed

lemma face_raw_frame:
  assumes f: "face_raw h q as" and u: "unchanged X h h'" and d: "set (q # as) \<inter> X = {}"
  shows "face_raw h' q as"
proof -
  have "adj_raw h' (as ! j)" if "j < N_EDGES_PER_SIDE" for j
    using f that d by (intro adj_raw_frame [OF _ u] nth_notin) (auto simp: face_raw_def)
  moreover have "face_heap h' q = face_heap h q"
    using d by (intro unchangedD [OF u]) auto
  ultimately show ?thesis using f by (simp add: face_raw_def)
qed

lemma face_addrs_subset:
  "i < length L \<Longrightarrow> set (face_addrs (L ! i)) \<subseteq> set (cube_addrs p L)"
  by (auto simp: cube_addrs_def)

lemma cube_at_frame:
  assumes c: "cube_at h p L V" and u: "unchanged X h h'" and d: "set (cube_addrs p L) \<inter> X = {}"
  shows "cube_at h' p L V"
proof -
  have p: "p \<notin> X" using d by (auto simp: cube_addrs_def)
  have "face_at h' (fst (L ! i)) (snd (L ! i)) (V ! i)" if "i < N_FACES" for i
  proof -
    have "set (face_addrs (L ! i)) \<subseteq> set (cube_addrs p L)"
      using c that by (intro face_addrs_subset) (simp add: cube_at_def)
    with d have "set (fst (L ! i) # snd (L ! i)) \<inter> X = {}"
      by (auto simp: face_addrs_def)
    with c that show ?thesis
      by (intro face_at_frame [OF _ u]) (simp_all add: cube_at_def)
  qed
  with c unchangedD(3) [OF u p] show ?thesis by (simp add: cube_at_def)
qed

section \<open>Element access\<close>

lemma mapR_Inr [simp]: "mapR f (Inr x) = Inr (f x)"
  by (simp add: mapR_def)

lemma mapR_eq_Inr: "mapR f r = Inr y \<longleftrightarrow> (\<exists>x. r = Inr x \<and> y = f x)"
  by (cases r) (auto simp: mapR_def)

lemmas access_defs = get_face_def set_face_def get_color_def set_color_def get_adjacent_def
  set_adjacent_def get_adj_face_def set_adj_face_def get_edge_square_def set_edge_square_def

lemma get_adj_face_wp:
  "adj_at h a v \<Longrightarrow> runs_to (get_adj_face a) h Q \<longleftrightarrow> Q (fst v) h"
  by (simp add: access_defs wp heap_wp adj_at_def rd_cell_def)

lemma get_edge_square_wp:
  "adj_at h a v \<Longrightarrow> j < N_SQUARES_PER_SIDE \<Longrightarrow>
     runs_to (get_edge_square a (int j)) h Q \<longleftrightarrow> Q (snd v ! j) h"
  by (simp add: access_defs wp heap_wp adj_at_def)

lemma get_color_wp:
  "face_at h q as v \<Longrightarrow> j < N_SQUARES_PER_FACE \<Longrightarrow>
     runs_to (get_color q (int j)) h Q \<longleftrightarrow> Q (fst v ! j) h"
  by (simp add: access_defs wp heap_wp face_at_def)

lemma get_adjacent_wp:
  "face_raw h q as \<Longrightarrow> j < N_EDGES_PER_SIDE \<Longrightarrow>
     runs_to (get_adjacent q (int j)) h Q \<longleftrightarrow> Q (as ! j) h"
  by (auto simp: access_defs wp heap_wp face_raw_def)

lemma get_face_wp:
  "cube_at h p L V \<Longrightarrow> i < N_FACES \<Longrightarrow>
     runs_to (get_face p (int i)) h Q \<longleftrightarrow> Q (fst (L ! i)) h"
  by (simp add: access_defs wp heap_wp cube_at_def arr_get_def rd_cell_def)

section \<open>Copying\<close>

lemma length3: "length xs = 3 \<Longrightarrow> \<exists>a b c. xs = [a, b, c]"
  by (auto simp: numeral_eq_Suc length_Suc_conv)

lemma upt3: "[0..<3] = [0, 1, 2]" and upt4: "[0..<4] = [0, 1, 2, 3]"
  and upt6: "[0..<6] = [0, 1, 2, 3, 4, 5]" and upt9: "[0..<9] = [0, 1, 2, 3, 4, 5, 6, 7, 8]"
  by (simp_all add: upt_rec)

lemma copy_adjacent_face_wp:
  assumes "adj_at h a v" and "adj_raw h b"
  shows "runs_to (copy_adjacent_face a b) h
    (\<lambda>_ h'. adj_at h' b v \<and> unchanged {b} h h' \<and> same_alloc h h')"
proof -
  obtain f x0 x1 x2 where v: "v = (f, [x0, x1, x2])"
    using assms(1) length3 [of "snd v"] by (cases v) (auto simp: adj_at_def)
  obtain x where x: "adjacent_heap h b = Some x" "length (edge_squares x) = 3"
    using assms(2) by (auto simp: adj_raw_def)
  obtain y0 y1 y2 where y: "edge_squares x = [y0, y1, y2]"
    using length3 [OF x(2)] by auto
  show ?thesis
    using assms x(1) y v
    by (cases "a = b") (auto simp: copy_adjacent_face_def access_defs wp heap_wp upt3 adj_at_def
      adj_raw_def arr_get_def arr_set_def idx_def rd_cell_def unchanged_def same_alloc_def)
qed

lemma copy_colors_wp:
  assumes src: "face_at h q as v" and dst: "face_raw h r bs" and ne: "r \<notin> set (q # as)"
  shows "runs_to (for_each [0..<N_SQUARES_PER_FACE]
      (\<lambda>i. bindM (get_color q (int i)) (set_color r (int i)))) h
    (\<lambda>_ h'. face_heap h' r = Some \<lparr>colors = map Some (fst v), adjacent_faces = map Some bs\<rparr> \<and>
       unchanged {r} h h' \<and> same_alloc h h')"
proof -
  let ?I = "\<lambda>i h'. unchanged {r} h h' \<and> same_alloc h h' \<and>
    (\<exists>cs. length cs = N_SQUARES_PER_FACE \<and> (\<forall>k<i. cs ! k = Some (fst v ! k)) \<and>
      face_heap h' r = Some \<lparr>colors = cs, adjacent_faces = map Some bs\<rparr>)"
  have len: "length (fst v) = N_SQUARES_PER_FACE" using src by (simp add: face_at_def)
  have r: "r \<noteq> NULL" using dst by (simp add: face_raw_def)
  have "runs_to (for_each [0..<N_SQUARES_PER_FACE]
      (\<lambda>i. bindM (get_color q (int i)) (set_color r (int i)))) h (\<lambda>_. ?I N_SQUARES_PER_FACE)"
  proof (rule runs_to_for [where I = ?I])
    show "?I 0 h" using dst by (auto simp: face_raw_def)
  next
    fix i g assume i: "i < N_SQUARES_PER_FACE" and I: "?I i g"
    then obtain cs where cs: "length cs = N_SQUARES_PER_FACE" "\<forall>k<i. cs ! k = Some (fst v ! k)"
      "face_heap g r = Some \<lparr>colors = cs, adjacent_faces = map Some bs\<rparr>" by auto
    have "face_at g q as v"
      using I ne by (intro face_at_frame [OF src, of "{r}"]) auto
    moreover have "\<forall>k<Suc i. cs[i := Some (fst v ! i)] ! k = Some (fst v ! k)"
      using cs i by (simp add: less_Suc_eq nth_list_update)
    ultimately show "runs_to (bindM (get_color q (int i)) (set_color r (int i))) g (\<lambda>_. ?I (Suc i))"
      using I cs i r
      by (auto simp: wp get_color_wp set_color_def heap_wp mapR_eq_Inr unchanged_def same_alloc_def)
  qed
  then show ?thesis
    by (rule runs_to_mono) (auto simp: len intro!: map_Some_eqI)
qed

lemma copy_adjacents_wp:
  assumes src: "face_at h q as v" and dst: "face_raw h r bs"
    and disj: "set (q # as) \<inter> set (r # bs) = {}"
  shows "runs_to (for_each [0..<N_EDGES_PER_SIDE]
      (\<lambda>j. bindM (get_adjacent q (int j)) (\<lambda>a. bindM (get_adjacent r (int j))
        (\<lambda>b. copy_adjacent_face a b)))) h
    (\<lambda>_ h'. (\<forall>j<N_EDGES_PER_SIDE. adj_at h' (bs ! j) (snd v ! j)) \<and>
       unchanged (set bs) h h' \<and> same_alloc h h')"
    (is "runs_to (for_each _ ?body) h _")
proof -
  let ?I = "\<lambda>i h'. unchanged (set bs) h h' \<and> same_alloc h h' \<and>
    (\<forall>j<i. adj_at h' (bs ! j) (snd v ! j)) \<and> (\<forall>j<N_EDGES_PER_SIDE. adj_raw h' (bs ! j))"
  have "runs_to (for_each [0..<N_EDGES_PER_SIDE] ?body) h (\<lambda>_. ?I N_EDGES_PER_SIDE)"
  proof (rule runs_to_for [where I = ?I])
    show "?I 0 h" using dst by (simp add: face_raw_def)
  next
    fix i g assume i: "i < N_EDGES_PER_SIDE" and I: "?I i g"
    have q: "face_at g q as v"
      using I disj by (intro face_at_frame [OF src, of "set bs"]) auto
    have "r \<notin> set bs" using dst by (simp add: face_raw_def)
    with I have "face_heap g r = face_heap h r" by (auto dest: unchangedD(2))
    then have r: "face_raw g r bs" using I dst by (simp add: face_raw_def)
    have "adj_at g (as ! i) (snd v ! i)" using q i by (simp add: face_at_def)
    then have copy: "runs_to (copy_adjacent_face (as ! i) (bs ! i)) g (\<lambda>_ h'.
        adj_at h' (bs ! i) (snd v ! i) \<and> unchanged {bs ! i} g h' \<and> same_alloc g h')"
      using I i by (intro copy_adjacent_face_wp) auto
    have "?I (Suc i) h'"
      if "adj_at h' (bs ! i) (snd v ! i)" and u: "unchanged {bs ! i} g h'" and "same_alloc g h'" for h'
    proof -
      have b: "j = i \<or> bs ! j \<noteq> bs ! i" if "j < N_EDGES_PER_SIDE" for j
        using dst i that by (auto simp: face_raw_def nth_eq_iff_index_eq)
      have "adj_at h' (bs ! j) (snd v ! j)" if "j < Suc i" for j
        using b [of j] that i I \<open>adj_at h' (bs ! i) (snd v ! i)\<close> adj_at_frame [OF _ u, of "bs ! j" "snd v ! j"]
        by (auto simp: less_Suc_eq)
      moreover have "adj_raw h' (bs ! j)" if "j < N_EDGES_PER_SIDE" for j
        using b [OF that] that I \<open>adj_at h' (bs ! i) (snd v ! i)\<close> adj_raw_frame [OF _ u, of "bs ! j"]
        by (auto intro: adj_at_raw)
      moreover have "unchanged (set bs) h h'"
        using I dst i by (intro unchanged_mono [OF unchanged_trans [OF _ u]]) (auto simp: face_raw_def)
      ultimately show ?thesis using I \<open>same_alloc g h'\<close> by (blast intro: same_alloc_trans)
    qed
    then show "runs_to (?body i) g (\<lambda>_. ?I (Suc i))"
      by (auto simp: wp get_adjacent_wp [OF face_at_raw [OF q] i] get_adjacent_wp [OF r i]
        intro: runs_to_mono [OF copy])
  qed
  then show ?thesis by (rule runs_to_mono) simp
qed

lemma copy_face_wp:
  assumes src: "face_at h q as v" and dst: "face_raw h r bs"
    and disj: "set (q # as) \<inter> set (r # bs) = {}"
  shows "runs_to (copy_face q r) h
    (\<lambda>_ h'. face_at h' r bs v \<and> unchanged (set (r # bs)) h h' \<and> same_alloc h h')"
  unfolding copy_face_def
proof (rule runs_to_thenI [OF copy_colors_wp [OF src dst]])
  show "r \<notin> set (q # as)" using disj by auto
next
  fix g
  assume g: "face_heap g r = Some \<lparr>colors = map Some (fst v), adjacent_faces = map Some bs\<rparr> \<and>
    unchanged {r} h g \<and> same_alloc h g"
  have r: "r \<notin> set bs" and len: "length (fst v) = N_SQUARES_PER_FACE"
    using dst src by (simp_all add: face_raw_def face_at_def)
  have u: "unchanged {r} h g" using g by simp
  have src': "face_at g q as v"
    using disj by (intro face_at_frame [OF src u]) auto
  have "adj_raw g (bs ! j)" if "j < N_EDGES_PER_SIDE" for j
  proof (rule adj_raw_frame [OF _ u])
    show "adj_raw h (bs ! j)" and "bs ! j \<notin> {r}"
      using dst that r nth_mem [of j bs] by (auto simp: face_raw_def)
  qed
  then have dst': "face_raw g r bs"
    using g dst len by (auto simp: face_raw_def)
  show "runs_to (for_each [0..<N_EDGES_PER_SIDE]
      (\<lambda>j. bindM (get_adjacent q (int j)) (\<lambda>a. bindM (get_adjacent r (int j))
        (\<lambda>b. copy_adjacent_face a b)))) g
    (\<lambda>_ h'. face_at h' r bs v \<and> unchanged (set (r # bs)) h h' \<and> same_alloc h h')"
  proof (rule runs_to_mono [OF copy_adjacents_wp [OF src' dst' disj]])
    fix h'
    assume h': "(\<forall>j<N_EDGES_PER_SIDE. adj_at h' (bs ! j) (snd v ! j)) \<and>
      unchanged (set bs) g h' \<and> same_alloc g h'"
    have "face_heap h' r = face_heap g r" using h' r by (auto dest: unchangedD(2))
    moreover have "unchanged (set (r # bs)) h h'"
      using g h' by (intro unchanged_mono [OF unchanged_trans, of "{r}" h g "set bs" h']) auto
    ultimately show "face_at h' r bs v \<and> unchanged (set (r # bs)) h h' \<and> same_alloc h h'"
      using g h' src dst by (auto simp: face_at_def face_raw_def intro: same_alloc_trans)
  qed
qed

lemma cube_face_addrs:
  assumes "cube_at h p L V" and "i < N_FACES"
  shows "p \<notin> set (face_addrs (L ! i))"
    and "j < N_FACES \<Longrightarrow> j \<noteq> i \<Longrightarrow> set (face_addrs (L ! j)) \<inter> set (face_addrs (L ! i)) = {}"
    and "set (face_addrs (L ! i)) \<subseteq> set (cube_addrs p L)"
  using assms distinct_concat_nth [of "map face_addrs L" j i] face_addrs_subset [of i L p]
  by (auto simp: cube_at_def cube_addrs_def)

lemma cube_at_update_face:
  assumes c: "cube_at g p L W" and i: "i < N_FACES"
    and f: "face_at h (fst (L ! i)) (snd (L ! i)) v"
    and u: "unchanged (set (face_addrs (L ! i))) g h"
  shows "cube_at h p L (W[i := v])"
proof -
  have "face_at h (fst (L ! j)) (snd (L ! j)) (W[i := v] ! j)" if j: "j < N_FACES" for j
  proof (cases "j = i")
    case True
    with f i c show ?thesis by (simp add: cube_at_def)
  next
    case False
    with c j cube_face_addrs(2) [OF c i j] show ?thesis
      by (simp add: cube_at_def) (intro face_at_frame [OF _ u], auto simp: face_addrs_def)
  qed
  moreover have "cube_heap h p = cube_heap g p"
    using cube_face_addrs(1) [OF c i] by (intro unchangedD(3) [OF u])
  ultimately show ?thesis using c by (simp add: cube_at_def)
qed

lemma cube_at_face: "cube_at h p L V \<Longrightarrow> i < N_FACES \<Longrightarrow> face_at h (fst (L ! i)) (snd (L ! i)) (V ! i)"
  by (simp add: cube_at_def)

lemma copy_cube_wp:
  assumes src: "cube_at h p L V" and dst: "cube_at h r M W"
    and disj: "set (cube_addrs p L) \<inter> set (cube_addrs r M) = {}"
  shows "runs_to (copy_cube p r) h
    (\<lambda>_ h'. cube_at h' r M V \<and> unchanged (set (cube_addrs r M)) h h' \<and> same_alloc h h')"
proof -
  let ?I = "\<lambda>i h'. cube_at h' r M (take i V @ drop i W) \<and>
    unchanged (set (cube_addrs r M)) h h' \<and> same_alloc h h'"
  have len: "length V = N_FACES" "length W = N_FACES"
    using src dst by (simp_all add: cube_at_def)
  have "runs_to (copy_cube p r) h (\<lambda>_. ?I N_FACES)"
    unfolding copy_cube_def
  proof (rule runs_to_for [where I = ?I])
    show "?I 0 h" using dst by simp
  next
    fix i g assume i: "i < N_FACES" and I: "?I i g"
    then have r: "cube_at g r M (take i V @ drop i W)" and u: "unchanged (set (cube_addrs r M)) h g"
      by simp_all
    have p: "cube_at g p L V" by (rule cube_at_frame [OF src u disj])
    have "set (face_addrs (L ! i)) \<inter> set (face_addrs (M ! i)) = {}"
      using disj cube_face_addrs(3) [OF p i] cube_face_addrs(3) [OF r i] by blast
    then have copy: "runs_to (copy_face (fst (L ! i)) (fst (M ! i))) g (\<lambda>_ h'.
        face_at h' (fst (M ! i)) (snd (M ! i)) (V ! i) \<and>
        unchanged (set (face_addrs (M ! i))) g h' \<and> same_alloc g h')"
      unfolding face_addrs_def
      using cube_at_face [OF p i] face_at_raw [OF cube_at_face [OF r i]] by (intro copy_face_wp)
    have "?I (Suc i) h'"
      if "face_at h' (fst (M ! i)) (snd (M ! i)) (V ! i)" "unchanged (set (face_addrs (M ! i))) g h'"
        "same_alloc g h'" for h'
    proof (intro conjI)
      have "cube_at h' r M ((take i V @ drop i W)[i := V ! i])"
        using that by (intro cube_at_update_face [OF r i])
      then show "cube_at h' r M (take (Suc i) V @ drop (Suc i) W)"
        using i len by (simp add: take_drop_update)
      show "unchanged (set (cube_addrs r M)) h h'"
        using cube_face_addrs(3) [OF r i]
        by (intro unchanged_mono [OF unchanged_trans [OF u that(2)]]) auto
      show "same_alloc h h'" using I that(3) by (blast intro: same_alloc_trans)
    qed
    then show "runs_to (bindM (get_face p (int i))
        (\<lambda>f. bindM (get_face r (int i)) (\<lambda>g. copy_face f g))) g (\<lambda>_. ?I (Suc i))"
      by (auto simp: wp get_face_wp [OF p i] get_face_wp [OF r i] intro: runs_to_mono [OF copy])
  qed
  then show ?thesis using len by (auto elim: runs_to_mono)
qed

section \<open>Creation\<close>

text \<open>\<open>allocated k h h'\<close>: \<open>k\<close> calls of \<open>malloc\<close> have succeeded between \<open>h\<close> and \<open>h'\<close>, which
  took the addresses from \<open>next_addr h\<close> on.\<close>

definition allocated :: "nat \<Rightarrow> mem \<Rightarrow> mem \<Rightarrow> bool" where
  "allocated k h h' \<longleftrightarrow> next_addr h' = next_addr h + k \<and> quota h = quota h' + k \<and>
     stdout h' = stdout h \<and> unchanged {next_addr h..<next_addr h + k} h h'"

lemma allocated_0 [simp]: "allocated 0 h h"
  by (simp add: allocated_def)

lemma allocated_trans:
  assumes "allocated j h g" and "allocated k g h'"
  shows "allocated (j + k) h h'"
  using assms by (auto simp: allocated_def unchanged_def)

lemma make_adjacent_face_wp:
  assumes "0 < quota h" and "next_addr h \<noteq> NULL" and "length sq = N_SQUARES_PER_SIDE"
  shows "runs_to (make_adjacent_face f sq) h
    (\<lambda>a h'. a = next_addr h \<and> adj_at h' a (f, sq) \<and> allocated 1 h h')"
proof -
  obtain x y z where sq: "sq = [x, y, z]" using length3 [OF assms(3)] by auto
  show ?thesis
    using assms(1,2) by (auto simp: sq make_adjacent_face_def access_defs wp heap_wp adj.malloc_wp
      upt3 idx_def arr_set_def adj_at_def allocated_def unchanged_def numeral_eq_Suc)
qed

lemma make_adjacent_face_null:
  "quota h = 0 \<Longrightarrow> make_adjacent_face f sq h = Inl Null_Deref"
  by (simp add: make_adjacent_face_def prog_simps adj.malloc_fails set_adj_face_def adj.update_null)

definition new_face_val :: "int \<Rightarrow> int list \<Rightarrow> int list list \<Rightarrow> face_val" where
  "new_face_val face_num fs es =
     (replicate N_SQUARES_PER_FACE face_num, map (\<lambda>f. (f, es ! nat f)) fs)"

definition tables_ok :: "int list \<Rightarrow> int list list \<Rightarrow> bool" where
  "tables_ok fs es \<longleftrightarrow> length fs = N_EDGES_PER_SIDE \<and> length es = N_FACES \<and>
     (\<forall>f\<in>set fs. 0 \<le> f \<and> f < int N_FACES) \<and> (\<forall>r\<in>set es. length r = N_SQUARES_PER_SIDE)"

lemma face_tables_ok: "face_tables n = Some (fs, es) \<Longrightarrow> tables_ok fs es"
  by (auto simp: face_tables_def tables_ok_def split: if_splits)

lemma face_tables_dom: "face_tables n \<noteq> None \<longleftrightarrow> 0 \<le> n \<and> n < int N_FACES"
  by (auto simp: face_tables_def)

text \<open>The invariant of the loop of \<open>initialize_adjacent_faces\<close>: \<open>j\<close> edges are set up.\<close>

definition edges_done ::
    "mem \<Rightarrow> addr \<Rightarrow> int cell list \<Rightarrow> int list \<Rightarrow> int list list \<Rightarrow> nat \<Rightarrow> mem \<Rightarrow> bool" where
  "edges_done h q cs fs es j g \<longleftrightarrow>
     next_addr g = next_addr h + j \<and> quota h = quota g + j \<and> stdout g = stdout h \<and>
     unchanged (insert q {next_addr h..<next_addr h + j}) h g \<and>
     face_heap g q = Some \<lparr>colors = cs, adjacent_faces =
       map Some [next_addr h..<next_addr h + j] @ replicate (N_EDGES_PER_SIDE - j) None\<rparr> \<and>
     (\<forall>k<j. adj_at g (next_addr h + k) (fs ! k, es ! nat (fs ! k)))"

lemma edges_done_step:
  assumes ok: "tables_ok fs es" and q: "q \<noteq> NULL" "q < next_addr h" and j: "j < N_EDGES_PER_SIDE"
    and I: "edges_done h q cs fs es j g" and quota: "0 < quota g"
  shows "runs_to (bindM (liftM (idx fs (int j))) (\<lambda>fnum. bindM (liftM (idx es fnum)) (\<lambda>squares.
      bindM (make_adjacent_face fnum squares) (set_adjacent q (int j))))) g
    (\<lambda>_. edges_done h q cs fs es (Suc j))"
proof -
  let ?a = "next_addr h + j"
  have f: "0 \<le> fs ! j" "fs ! j < int (length es)" and len: "j < length fs"
    using ok j nth_mem [of j fs] by (auto simp: tables_ok_def)
  then have "es ! nat (fs ! j) \<in> set es" by (intro nth_mem) auto
  then have row: "length (es ! nat (fs ! j)) = N_SQUARES_PER_SIDE"
    using ok by (auto simp: tables_ok_def)
  have idx: "idx es (fs ! j) = Inr (es ! nat (fs ! j))"
    using f by (simp add: idx_def)
  have "next_addr g = ?a" using I by (simp add: edges_done_def)
  then have make: "runs_to (make_adjacent_face (fs ! j) (es ! nat (fs ! j))) g
      (\<lambda>a h'. a = ?a \<and> adj_at h' a (fs ! j, es ! nat (fs ! j)) \<and> allocated 1 g h')"
    using q make_adjacent_face_wp [OF quota _ row] by (simp add: NULL_def)
  have "runs_to (set_adjacent q (int j) ?a) g' (\<lambda>_. edges_done h q cs fs es (Suc j))"
    if new: "adj_at g' ?a (fs ! j, es ! nat (fs ! j))" and al: "allocated 1 g g'" for g'
  proof -
    let ?as = "map Some [next_addr h..<?a] @ replicate (N_EDGES_PER_SIDE - j) None"
    have u: "unchanged {?a} g g'" using al I by (simp add: allocated_def edges_done_def)
    have face: "face_heap g' q = Some \<lparr>colors = cs, adjacent_faces = ?as\<rparr>"
      using I q unchangedD(2) [OF u, of q] by (simp add: edges_done_def)
    have old: "adj_at g' (next_addr h + k) (fs ! k, es ! nat (fs ! k))" if "k < j" for k
      using I that by (intro adj_at_frame [OF _ u]) (auto simp: edges_done_def)
    have upd: "?as[j := Some ?a] =
        map Some [next_addr h..<Suc ?a] @ replicate (N_EDGES_PER_SIDE - Suc j) None"
      using j by (simp add: list_update_append Suc_diff_Suc [symmetric])
    have "unchanged (insert q {next_addr h..<Suc ?a}) h (face_heap_update f g')" 
      if "\<And>m a. a \<noteq> q \<Longrightarrow> f m a = m a" for f
      using I u that by (auto simp: unchanged_def edges_done_def)
    then show ?thesis
      using face q j al I new old upd
      by (auto simp: set_adjacent_def heap_wp edges_done_def allocated_def arr_set_def
        adj_at_def less_Suc_eq mapR_eq_Inr)
  qed
  then show ?thesis
    using len by (auto simp: wp idx intro: runs_to_mono [OF make])
qed

lemma initialize_wp:
  assumes ok: "tables_ok fs es" and q: "q \<noteq> NULL" "q < next_addr h" and quota: "N_EDGES_PER_SIDE \<le> quota h"
    and f: "face_heap h q = Some \<lparr>colors = cs, adjacent_faces = replicate N_EDGES_PER_SIDE None\<rparr>"
  shows "runs_to (initialize_adjacent_faces q fs es) h (\<lambda>_. edges_done h q cs fs es N_EDGES_PER_SIDE)"
  unfolding initialize_adjacent_faces_def
proof (rule runs_to_for [where I = "edges_done h q cs fs es"])
  show "edges_done h q cs fs es 0 h" using f by (simp add: edges_done_def)
next
  fix i g assume i: "i < N_EDGES_PER_SIDE" and I: "edges_done h q cs fs es i g"
  then have "0 < quota g" using quota by (simp add: edges_done_def)
  with I i show "runs_to (bindM (liftM (idx fs (int i))) (\<lambda>fnum. bindM (liftM (idx es fnum))
      (\<lambda>squares. bindM (make_adjacent_face fnum squares) (set_adjacent q (int i))))) g
      (\<lambda>_. edges_done h q cs fs es (Suc i))"
    by (intro edges_done_step [OF ok q]) auto
qed

text \<open>The memory after \<open>make_face\<close> has allocated the face and written its nine colours.\<close>

definition colored :: "int \<Rightarrow> mem \<Rightarrow> mem \<Rightarrow> bool" where
  "colored n h g \<longleftrightarrow> allocated 1 h g \<and>
     face_heap g (next_addr h) = Some \<lparr>colors = map Some (replicate N_SQUARES_PER_FACE n),
       adjacent_faces = replicate N_EDGES_PER_SIDE None\<rparr>"

abbreviation make_face_rest :: "int \<Rightarrow> addr \<Rightarrow> (mem, unit) prog" where
  "make_face_rest n q \<equiv> (case face_tables n of
     Some (adj_faces, edges) \<Rightarrow> initialize_adjacent_faces q adj_faces edges
   | None \<Rightarrow> returnM ())"

definition colored_face :: "int \<Rightarrow> (mem, addr) prog" where
  "colored_face n = bindM (malloc face_heap_update
       \<lparr>colors = replicate N_SQUARES_PER_FACE None,
        adjacent_faces = replicate N_EDGES_PER_SIDE None\<rparr>) (\<lambda>q.
     thenM (for_each [0..<N_SQUARES_PER_FACE] (\<lambda>ind. set_color q (int ind) n)) (returnM q))"

lemma make_face_split:
  "make_face n = bindM (colored_face n) (\<lambda>q. thenM (make_face_rest n q) (returnM q))"
  by (rule ext) (simp add: make_face_def colored_face_def prog_simps split: sum.split option.split)

lemma colored_face_wp:
  "0 < quota h \<Longrightarrow> next_addr h \<noteq> NULL \<Longrightarrow>
     runs_to (colored_face n) h (\<lambda>q g. q = next_addr h \<and> colored n h g)"
  by (simp add: colored_face_def wp fce.malloc_wp set_color_def heap_wp upt9
      arr_set_def mapR_def colored_def allocated_def unchanged_def numeral_eq_Suc)

lemma make_face_wp:
  assumes t: "face_tables n = Some (fs, es)" and quota: "5 \<le> quota h" and nn: "next_addr h \<noteq> NULL"
  shows "runs_to (make_face n) h (\<lambda>q h'. q = next_addr h \<and>
    face_at h' q [q + 1..<5 + q] (new_face_val n fs es) \<and> allocated 5 h h')"
proof -
  let ?q = "next_addr h" and ?cs = "map Some (replicate N_SQUARES_PER_FACE n)"
  have ok: "tables_ok fs es" using t by (rule face_tables_ok)
  have rest: "runs_to (initialize_adjacent_faces ?q fs es) g
      (\<lambda>_. edges_done g ?q ?cs fs es N_EDGES_PER_SIDE)" if g: "colored n h g" for g
    using g nn quota by (intro initialize_wp [OF ok]) (auto simp: colored_def allocated_def)
  have "face_at h' ?q [?q + 1..<5 + ?q] (new_face_val n fs es) \<and> allocated 5 h h'"
    if g: "colored n h g" and I: "edges_done g ?q ?cs fs es N_EDGES_PER_SIDE h'" for g h'
  proof
    have nxt: "next_addr g = ?q + 1" using g by (simp add: colored_def allocated_def)
    show "face_at h' ?q [?q + 1..<5 + ?q] (new_face_val n fs es)"
      using I ok nn by (auto simp: face_at_def edges_done_def new_face_val_def nxt tables_ok_def)
    show "allocated 5 h h'"
      using I g by (auto simp: edges_done_def colored_def allocated_def unchanged_def)
  qed
  note fin = this
  have col: "runs_to (colored_face n) h (\<lambda>q g. q = ?q \<and> colored n h g)"
    using quota nn by (intro colored_face_wp) auto
  show ?thesis
    unfolding make_face_split
  proof (rule runs_to_bindI [OF col])
    fix q g assume "q = ?q \<and> colored n h g"
    then show "runs_to (thenM (make_face_rest n q) (returnM q)) g (\<lambda>q h'. q = ?q \<and>
        face_at h' q [q + 1..<5 + q] (new_face_val n fs es) \<and> allocated 5 h h')"
      using runs_to_mono [OF rest, of g] fin [of g] t by (simp add: runs_to_then)
  qed
qed

lemma make_face_null:
  assumes quota: "quota h < 5" and nn: "next_addr h \<noteq> NULL" and t: "face_tables n = Some (fs, es)"
  shows "make_face n h = Inl Null_Deref"
proof (cases "quota h = 0")
  case True
  then show ?thesis
    by (simp add: make_face_split colored_face_def prog_simps fce.malloc_fails upt9 set_color_def
      fce.update_null)
next
  case False
  let ?q = "next_addr h" and ?cs = "map Some (replicate N_SQUARES_PER_FACE n)"
  have ok: "tables_ok fs es" using t by (rule face_tables_ok)
  have "initialize_adjacent_faces ?q fs es g = Inl Null_Deref" if g: "colored n h g" for g
    unfolding initialize_adjacent_faces_def
  proof (rule for_each_fails [where I = "edges_done g ?q ?cs fs es" and k = "quota h - 1"])
    show "edges_done g ?q ?cs fs es 0 g" using g by (simp add: edges_done_def colored_def)
    show "quota h - 1 < N_EDGES_PER_SIDE" using quota False by simp
  next
    fix i g' assume i: "i < quota h - 1" and I: "edges_done g ?q ?cs fs es i g'"
    have "0 < quota g'"
      using g i I by (auto simp: edges_done_def colored_def allocated_def)
    then show "runs_to (bindM (liftM (idx fs (int i))) (\<lambda>fnum. bindM (liftM (idx es fnum))
        (\<lambda>squares. bindM (make_adjacent_face fnum squares) (set_adjacent ?q (int i))))) g'
        (\<lambda>_. edges_done g ?q ?cs fs es (Suc i))"
      using g nn i I quota by (intro edges_done_step [OF ok]) (auto simp: colored_def allocated_def)
  next
    fix g' assume I: "edges_done g ?q ?cs fs es (quota h - 1) g'"
    let ?i = "quota h - 1"
    have "fs ! ?i \<in> set fs" using ok quota by (intro nth_mem) (auto simp: tables_ok_def)
    then have "idx es (fs ! ?i) = Inr (es ! nat (fs ! ?i))"
      using ok by (auto simp: idx_def tables_ok_def)
    moreover have "idx fs (int ?i) = Inr (fs ! ?i)"
      using ok quota by (intro idx_nat) (auto simp: tables_ok_def)
    moreover have "quota g' = 0"
      using g I by (auto simp: edges_done_def colored_def allocated_def)
    ultimately show "bindM (liftM (idx fs (int ?i))) (\<lambda>fnum. bindM (liftM (idx es fnum))
        (\<lambda>squares. bindM (make_adjacent_face fnum squares) (set_adjacent ?q (int ?i)))) g' =
        Inl Null_Deref"
      by (simp add: prog_simps make_adjacent_face_null)
  qed
  then show ?thesis
    unfolding make_face_split using False nn t
    by (intro bind_failI [OF colored_face_wp]) (auto simp: prog_simps)
qed

section \<open>The new cube\<close>

text \<open>The addresses that \<open>make_cube\<close> takes from address \<open>a\<close> on, and the contents of the cube
  it makes.\<close>

definition face_slot :: "addr \<Rightarrow> nat \<Rightarrow> addr \<times> addr list" where
  "face_slot a i = (let q = a + 1 + 5 * i in (q, [q + 1..<5 + q]))"

definition layout_from :: "addr \<Rightarrow> layout" where
  "layout_from a = map (face_slot a) [0..<N_FACES]"

definition face_of :: "nat \<Rightarrow> face_val" where
  "face_of i = (case face_tables (int i) of
     Some (fs, es) \<Rightarrow> new_face_val (int i) fs es | None \<Rightarrow> ([], []))"

definition solved_val :: "face_val list" where
  "solved_val = map face_of [0..<N_FACES]"

lemma make_face_of_wp:
  assumes i: "i < N_FACES" and quota: "5 \<le> quota h" and nn: "next_addr h \<noteq> NULL"
  shows "runs_to (make_face (int i)) h (\<lambda>q h'. q = next_addr h \<and>
    face_at h' q [q + 1..<5 + q] (face_of i) \<and> allocated 5 h h')"
proof -
  obtain fs es where t: "face_tables (int i) = Some (fs, es)"
    using i face_tables_dom [of "int i"] by auto
  have "face_of i = new_face_val (int i) fs es" by (simp add: face_of_def t)
  with make_face_wp [OF t quota nn] show ?thesis by simp
qed

lemma make_face_of_null:
  assumes "i < N_FACES" and "quota h < 5" and "next_addr h \<noteq> NULL"
  shows "make_face (int i) h = Inl Null_Deref"
proof -
  obtain fs es where "face_tables (int i) = Some (fs, es)"
    using assms(1) face_tables_dom [of "int i"] by auto
  with assms show ?thesis by (intro make_face_null)
qed

lemma face_addrs_slot: "face_addrs (face_slot a i) = [a + 1 + 5 * i..<a + 1 + 5 * i + 5]"
  by (simp add: face_addrs_def face_slot_def Let_def upt_conv_Cons add.commute)

lemma concat_blocks: "concat (map (\<lambda>i. [b + k * i..<b + k * i + k]) [0..<n]) = [b..<b + k * n]"
proof (induction n)
  case (Suc n)
  have "[b..<b + k * n] @ [b + k * n..<b + k * n + k] = [b..<b + k * n + k]"
    by (simp add: upt_add_eq_append [symmetric])
  with Suc show ?case by (simp add: algebra_simps)
qed simp

lemma cube_addrs_layout: "cube_addrs a (layout_from a) = [a..<a + 31]"
proof -
  have "concat (map face_addrs (layout_from a)) = [a + 1..<a + 1 + 5 * N_FACES]"
    unfolding concat_blocks [symmetric] layout_from_def by (simp add: face_addrs_slot comp_def)
  then show ?thesis by (simp add: cube_addrs_def upt_conv_Cons)
qed

definition faces_done :: "mem \<Rightarrow> nat \<Rightarrow> mem \<Rightarrow> bool" where
  "faces_done h i g \<longleftrightarrow> allocated (1 + 5 * i) h g \<and>
     cube_heap g (next_addr h) = Some \<lparr>faces =
       map (\<lambda>k. Some (fst (face_slot (next_addr h) k))) [0..<i] @ replicate (N_FACES - i) None\<rparr> \<and>
     (\<forall>k<i. face_at g (fst (face_slot (next_addr h) k)) (snd (face_slot (next_addr h) k)) (face_of k))"

lemma faces_done_step:
  assumes nn: "next_addr h \<noteq> NULL" and i: "i < N_FACES" and I: "faces_done h i g"
    and quota: "5 \<le> quota g"
  shows "runs_to (bindM (make_face (int i)) (set_face (next_addr h) (int i))) g
    (\<lambda>_. faces_done h (Suc i))"
proof (rule runs_to_bindI [OF make_face_of_wp [OF i quota]])
  show "next_addr g \<noteq> NULL" using I nn by (simp add: faces_done_def allocated_def NULL_def)
next
  fix q g'
  let ?n = "next_addr h"
  assume q: "q = next_addr g \<and> face_at g' q [q + 1..<5 + q] (face_of i) \<and> allocated 5 g g'"
  have slot: "face_slot ?n i = (q, [q + 1..<5 + q])"
    using q I by (simp add: face_slot_def faces_done_def allocated_def Let_def)
  have al: "allocated (1 + 5 * Suc i) h g'"
    using I q allocated_trans [of "1 + 5 * i" h g 5 g'] by (simp add: faces_done_def)
  have u: "unchanged {?n + 1 + 5 * i..<?n + 1 + 5 * i + 5} g g'"
    using q I by (simp add: faces_done_def allocated_def)
  have old: "face_at g' (fst (face_slot ?n k)) (snd (face_slot ?n k)) (face_of k)" if "k < i" for k
    using I that by (intro face_at_frame [OF _ u]) (auto simp: faces_done_def face_slot_def Let_def)
  have cube: "cube_heap g' ?n = cube_heap g ?n" by (intro unchangedD(3) [OF u]) simp
  let ?fs = "map (\<lambda>k. Some (fst (face_slot ?n k))) [0..<i] @ replicate (N_FACES - i) None"
  let ?g = "cube_heap_update (\<lambda>m. m(?n \<mapsto> \<lparr>faces = ?fs[i := Some q]\<rparr>)) g'"
  have frame: "unchanged {?n} g' ?g" by (simp add: unchanged_def)
  have "face_at ?g (fst (face_slot ?n k)) (snd (face_slot ?n k)) (face_of k)" if "k < Suc i" for k
    using old [of k] q that slot
    by (intro face_at_frame [OF _ frame]) (auto simp: less_Suc_eq face_slot_def Let_def)
  moreover have "?fs[i := Some q] = map (\<lambda>k. Some (fst (face_slot ?n k))) [0..<Suc i] @
      replicate (N_FACES - Suc i) None"
    using i by (simp add: list_update_append slot Suc_diff_Suc [symmetric])
  moreover have "allocated (1 + 5 * Suc i) h ?g"
    using al by (auto simp: allocated_def unchanged_def)
  ultimately have fin: "faces_done h (Suc i) ?g" by (simp add: faces_done_def)
  have "runs_to (set_face ?n (int i) q) g' P \<longleftrightarrow> P () ?g" for P
    using I nn i by (simp add: set_face_def heap_wp cube faces_done_def)
  with fin show "runs_to (set_face ?n (int i) q) g' (\<lambda>_. faces_done h (Suc i))"
    by (simp only:)
qed

lemma faces_done_0:
  assumes "0 < quota h" and "next_addr h \<noteq> NULL"
  shows "runs_to (malloc cube_heap_update \<lparr>faces = replicate N_FACES None\<rparr>) h
    (\<lambda>p. faces_done h 0)"
  using assms by (simp add: cub.malloc_wp faces_done_def allocated_def unchanged_def)

lemma faces_done_cube_at:
  assumes I: "faces_done h N_FACES g" and nn: "next_addr h \<noteq> NULL"
  shows "cube_at g (next_addr h) (layout_from (next_addr h)) solved_val"
proof -
  have "distinct (cube_addrs (next_addr h) (layout_from (next_addr h)))"
    by (simp add: cube_addrs_layout)
  with I nn show ?thesis
    by (simp add: cube_at_def faces_done_def layout_from_def solved_val_def comp_def)
qed

theorem make_cube_wp:
  assumes quota: "31 \<le> quota h" and nn: "next_addr h \<noteq> NULL"
  shows "runs_to make_cube h (\<lambda>p h'. p = next_addr h \<and> cube_at h' p (layout_from p) solved_val \<and>
    allocated 31 h h')"
  unfolding make_cube_def
proof (rule runs_to_bindI)
  show "runs_to (malloc cube_heap_update \<lparr>faces = replicate N_FACES None\<rparr>) h
      (\<lambda>p g. p = next_addr h \<and> faces_done h 0 g)"
    using quota nn by (simp add: cub.malloc_wp faces_done_def allocated_def unchanged_def)
next
  fix p g assume g: "p = next_addr h \<and> faces_done h 0 g"
  have "runs_to (for_each [0..<N_FACES] (\<lambda>i. bindM (make_face (int i)) (set_face p (int i)))) g
      (\<lambda>_. faces_done h N_FACES)"
  proof (rule runs_to_for [where I = "faces_done h"])
    show "faces_done h 0 g" using g by simp
  next
    fix i g' assume "i < N_FACES" and I: "faces_done h i g'"
    moreover have "5 \<le> quota g'"
      using quota I \<open>i < N_FACES\<close> by (simp add: faces_done_def allocated_def)
    ultimately show "runs_to (bindM (make_face (int i)) (set_face p (int i))) g'
        (\<lambda>_. faces_done h (Suc i))"
      using faces_done_step [OF nn] g by simp
  qed
  then show "runs_to (thenM (for_each [0..<N_FACES]
      (\<lambda>i. bindM (make_face (int i)) (set_face p (int i)))) (returnM p)) g
      (\<lambda>p h'. p = next_addr h \<and> cube_at h' p (layout_from p) solved_val \<and> allocated 31 h h')"
    using g faces_done_cube_at [OF _ nn]
    by (auto simp: runs_to_then faces_done_def elim!: runs_to_mono)
qed

theorem make_cube_null:
  assumes quota: "quota h < 31" and nn: "next_addr h \<noteq> NULL"
  shows "make_cube h = Inl Null_Deref"
proof (cases "quota h = 0")
  case True
  then show ?thesis
    using make_face_of_null [of 0 h] True nn
    by (simp add: make_cube_def prog_simps cub.malloc_fails upt6)
next
  case False
  let ?k = "(quota h - 1) div 5"
  show ?thesis
    unfolding make_cube_def
  proof (rule bind_failI)
    show "runs_to (malloc cube_heap_update \<lparr>faces = replicate N_FACES None\<rparr>) h
        (\<lambda>p g. p = next_addr h \<and> faces_done h 0 g)"
      using False nn by (simp add: cub.malloc_wp faces_done_def allocated_def unchanged_def)
  next
    fix p g assume g: "p = next_addr h \<and> faces_done h 0 g"
    have "for_each [0..<N_FACES] (\<lambda>i. bindM (make_face (int i)) (set_face p (int i))) g = Inl Null_Deref"
    proof (rule for_each_fails [where I = "faces_done h" and k = ?k])
      show "faces_done h 0 g" using g by simp
      show k: "?k < N_FACES" using quota by simp
      fix i g' assume i: "i < ?k" and I: "faces_done h i g'"
      have "5 \<le> quota g'" using I i by (simp add: faces_done_def allocated_def)
      then show "runs_to (bindM (make_face (int i)) (set_face p (int i))) g'
          (\<lambda>_. faces_done h (Suc i))"
        using faces_done_step [OF nn _ I] i k g by simp
    next
      fix g' assume I: "faces_done h ?k g'"
      have "quota g' < 5" "next_addr g' \<noteq> NULL"
        using I nn by (auto simp: faces_done_def allocated_def NULL_def)
      then have "make_face (int ?k) g' = Inl Null_Deref"
        using quota by (intro make_face_of_null) auto
      then show "bindM (make_face (int ?k)) (set_face p (int ?k)) g' = Inl Null_Deref"
        by (simp add: prog_simps)
    qed
    then show "thenM (for_each [0..<N_FACES]
        (\<lambda>i. bindM (make_face (int i)) (set_face p (int i)))) (returnM p) g = Inl Null_Deref"
      by (simp add: prog_simps)
  qed
qed

section \<open>Every operation keeps the memory well formed\<close>

lemma keeps_access [keeps_intro]:
  "keeps (get_face c i)" "keeps (set_face c i f)" "keeps (get_color f i)" "keeps (set_color f i v)"
  "keeps (get_adjacent f i)" "keeps (set_adjacent f i a)" "keeps (get_adj_face a)"
  "keeps (set_adj_face a v)" "keeps (get_edge_square a i)" "keeps (set_edge_square a i v)"
  unfolding access_defs by (intro keeps_intro)+

lemma keeps_make_adjacent_face [keeps_intro]: "keeps (make_adjacent_face n sq)"
  unfolding make_adjacent_face_def by (intro keeps_intro)

lemma keeps_initialize [keeps_intro]: "keeps (initialize_adjacent_faces q fs es)"
  unfolding initialize_adjacent_faces_def by (intro keeps_intro)

lemma keeps_make_face [keeps_intro]: "keeps (make_face n)"
  unfolding make_face_def by (cases "face_tables n") (auto intro!: keeps_intro)

lemma keeps_make_cube [keeps_intro]: "keeps make_cube"
  unfolding make_cube_def by (intro keeps_intro)

lemma keeps_free_face [keeps_intro]: "keeps (free_face q)"
  unfolding free_face_def free_adjacent_face_def by (intro keeps_intro)

lemma keeps_free_cube [keeps_intro]: "keeps (free_cube p)"
  unfolding free_cube_def by (intro keeps_intro)

lemma keeps_copy [keeps_intro]:
  "keeps (copy_adjacent_face a b)" "keeps (copy_face q r)" "keeps (copy_cube p p')"
  unfolding copy_cube_def copy_face_def copy_adjacent_face_def by (intro keeps_intro)+

lemma keeps_transpose [keeps_intro]:
  "keeps (transpose_face_clockwise q r)" "keeps (transpose_face_counterclockwise q r)"
  "keeps (transpose_other_faces_clockwise p p' n)"
  "keeps (transpose_other_faces_counterclockwise p p' n)"
  unfolding transpose_face_clockwise_def transpose_face_counterclockwise_def move_color_def
    transpose_other_faces_clockwise_def transpose_other_faces_counterclockwise_def move_edge_def
  by (intro keeps_intro)+

lemma keeps_rotate [keeps_intro]: "keeps (rotate_cube p n d)"
  unfolding rotate_cube_def by (intro keeps_intro)

lemma keeps_print_cube [keeps_intro]: "keeps (print_cube p)"
  unfolding print_cube_def by (intro keeps_intro)

lemma keeps_shuffle_loop [keeps_intro]: "keeps (shuffle_loop rng ff p n s)"
  by (induction n arbitrary: s) (auto intro!: keeps_intro split: prod.split)

lemma keeps_shuffle [keeps_intro]: "keeps (shuffle rng ff now p a b)"
  unfolding shuffle_def by (auto intro!: keeps_intro split: prod.split)

lemma keeps_is_solved [keeps_intro]: "keeps (is_solved p)"
  unfolding is_solved_def by (intro keeps_intro)

section \<open>Release\<close>

definition gone :: "addr set \<Rightarrow> mem \<Rightarrow> bool" where
  "gone X h \<longleftrightarrow>
     (\<forall>a\<in>X. adjacent_heap h a = None \<and> face_heap h a = None \<and> cube_heap h a = None)"

lemma gone_frame: "gone Y h \<Longrightarrow> unchanged X h h' \<Longrightarrow> gone X h' \<Longrightarrow> gone (X \<union> Y) h'"
  unfolding gone_def unchanged_def by (metis UnE)

definition released :: "addr set \<Rightarrow> mem \<Rightarrow> mem \<Rightarrow> bool" where
  "released X h h' \<longleftrightarrow> gone X h' \<and> unchanged X h h' \<and> same_alloc h h'"

lemma released_0 [simp]: "released {} h h"
  by (simp add: released_def gone_def)

lemma released_step: "released Y h g \<Longrightarrow> released X g h' \<Longrightarrow> released (X \<union> Y) h h'"
  using gone_frame [of Y g X h'] unchanged_trans [of Y h g X h'] same_alloc_trans [of h g h']
  by (simp add: released_def Un_commute)

lemma free_adjacent_wp:
  assumes "adj_raw h a" and "one_type h a"
  shows "runs_to (free_adjacent_face a) h (\<lambda>_ h'. released {a} h h')"
  using assms by (auto simp: free_adjacent_face_def heap_wp adj_raw_def gone_def unchanged_def
    same_alloc_def one_type_def released_def)

lemma one_type_frame: "one_type h a \<Longrightarrow> unchanged X h h' \<Longrightarrow> a \<notin> X \<Longrightarrow> one_type h' a"
  by (simp add: one_type_def unchanged_def)

lemma free_face_wp:
  assumes f: "face_raw h q as" and ty: "\<forall>a\<in>set (q # as). one_type h a"
  shows "runs_to (free_face q) h
    (\<lambda>_ h'. released (set (q # as)) h h')"
  unfolding free_face_def
proof (rule runs_to_thenI)
  let ?X = "\<lambda>i. set (take i as)"
  let ?I = "\<lambda>i g. released (?X i) h g"
  have as: "length as = N_EDGES_PER_SIDE" "distinct (q # as)" using f by (simp_all add: face_raw_def)
  show "runs_to (for_each [0..<N_EDGES_PER_SIDE]
      (\<lambda>i. bindM (get_adjacent q (int i)) free_adjacent_face)) h (\<lambda>_. ?I N_EDGES_PER_SIDE)"
  proof (rule runs_to_for [where I = ?I])
    show "?I 0 h" by simp
  next
    fix i g assume i: "i < N_EDGES_PER_SIDE" and I: "?I i g"
    then have u: "unchanged (?X i) h g" by (simp add: released_def)
    have qi: "as ! i \<notin> ?X i" "q \<notin> ?X i"
      using as i set_take_subset [of i as] by (auto simp: nth_notin_take)
    have X: "?X (Suc i) = {as ! i} \<union> ?X i"
      using as i by (simp add: take_Suc_conv_app_nth)
    have qg: "face_heap g q = face_heap h q" by (rule unchangedD(2) [OF u qi(2)])
    have "adj_raw g (as ! i)"
      using f i by (intro adj_raw_frame [OF _ u qi(1)]) (simp add: face_raw_def)
    moreover have "one_type g (as ! i)"
      using ty i as by (intro one_type_frame [OF _ u qi(1)]) auto
    ultimately have "runs_to (free_adjacent_face (as ! i)) g (\<lambda>_. ?I (Suc i))"
      using I unfolding X
      by (intro runs_to_mono [OF free_adjacent_wp] released_step [of "?X i"]) simp_all
    moreover have "runs_to (get_adjacent q (int i)) g Q \<longleftrightarrow> Q (as ! i) g" for Q
      using f i qg by (auto simp: get_adjacent_def wp heap_wp face_raw_def)
    ultimately show "runs_to (bindM (get_adjacent q (int i)) free_adjacent_face) g (\<lambda>_. ?I (Suc i))"
      by (simp add: runs_to_bind)
  qed
next
  fix g
  assume I: "released (set (take N_EDGES_PER_SIDE as)) h g"
  have all: "take N_EDGES_PER_SIDE as = as" and q: "q \<notin> set as"
    using f by (simp_all add: face_raw_def)
  then have u: "unchanged (set as) h g" using I by (simp add: released_def)
  have "one_type g q" and "face_heap g q = face_heap h q"
    using ty q one_type_frame [OF _ u q] unchangedD(2) [OF u q] by auto
  then show "runs_to (free face_heap face_heap_update q) g
      (\<lambda>_ h'. released (set (q # as)) h h')"
    using f I by (auto simp: heap_wp face_raw_def all gone_def unchanged_def same_alloc_def
      one_type_def released_def)
qed

lemma wf_one_type: "wf_mem h \<Longrightarrow> one_type h a"
  by (simp add: wf_mem_def)

lemma cube_at_blocks:
  assumes c: "cube_at h p L V" and i: "i < N_FACES"
  shows "set (concat (map face_addrs (take (Suc i) L))) =
      set (face_addrs (L ! i)) \<union> set (concat (map face_addrs (take i L)))"
    and "set (face_addrs (L ! i)) \<inter> set (concat (map face_addrs (take i L))) = {}"
    and "p \<notin> set (concat (map face_addrs (take i L)))"
proof -
  have len: "length L = N_FACES" using c by (simp add: cube_at_def)
  show "set (concat (map face_addrs (take (Suc i) L))) =
      set (face_addrs (L ! i)) \<union> set (concat (map face_addrs (take i L)))"
    using i len by (auto simp: take_Suc_conv_app_nth)
  have split: "cube_addrs p L = p # concat (map face_addrs (take i L)) @ face_addrs (L ! i) @
      concat (map face_addrs (drop (Suc i) L))"
    using i len by (subst id_take_nth_drop [of i L]) (simp_all add: cube_addrs_def)
  have "distinct (cube_addrs p L)" using c by (simp add: cube_at_def)
  then show "set (face_addrs (L ! i)) \<inter> set (concat (map face_addrs (take i L))) = {}"
    and "p \<notin> set (concat (map face_addrs (take i L)))"
    unfolding split by auto
qed

lemma free_cube_wp:
  assumes c: "cube_at h p L V" and wf: "wf_mem h"
  shows "runs_to (free_cube p) h (\<lambda>_ h'. released (set (cube_addrs p L)) h h')"
  unfolding free_cube_def
proof (rule runs_to_thenI)
  let ?X = "\<lambda>i. set (concat (map face_addrs (take i L)))"
  let ?I = "\<lambda>i g. released (?X i) h g"
  show "runs_to (for_each [0..<N_FACES] (\<lambda>i. bindM (get_face p (int i)) free_face)) h
      (\<lambda>_. ?I N_FACES)"
  proof (rule runs_to_for [where I = ?I])
    show "?I 0 h" by simp
  next
    fix i g assume i: "i < N_FACES" and I: "?I i g"
    then have u: "unchanged (?X i) h g" by (simp add: released_def)
    note b = cube_at_blocks [OF c i]
    have f: "face_raw g (fst (L ! i)) (snd (L ! i))"
      using b(2) face_at_raw [OF cube_at_face [OF c i]]
      by (intro face_raw_frame [OF _ u]) (simp_all add: face_addrs_def)
    have ty: "\<forall>a\<in>set (fst (L ! i) # snd (L ! i)). one_type g a"
      using b(2) wf_one_type [OF wf] one_type_frame [OF _ u] unfolding face_addrs_def by blast
    have "runs_to (free_face (fst (L ! i))) g (\<lambda>_. ?I (Suc i))"
      using I unfolding b(1)
      by (intro runs_to_mono [OF free_face_wp [OF f ty]] released_step [of "?X i"])
        (simp_all add: face_addrs_def)
    moreover have "runs_to (get_face p (int i)) g Q \<longleftrightarrow> Q (fst (L ! i)) g" for Q
      using i c unchangedD(3) [OF u b(3)]
      by (simp add: get_face_def wp heap_wp cube_at_def arr_get_def rd_cell_def)
    ultimately show "runs_to (bindM (get_face p (int i)) free_face) g (\<lambda>_. ?I (Suc i))"
      by (simp add: runs_to_bind)
  qed
next
  fix g
  let ?X = "set (concat (map face_addrs (take N_FACES L)))"
  assume I: "released ?X h g"
  have len: "length L = N_FACES" and p: "p \<notin> ?X"
    using c by (simp_all add: cube_at_def cube_addrs_def)
  have u: "unchanged ?X h g" using I by (simp add: released_def)
  have "one_type g p" and "cube_heap g p = cube_heap h p"
    using wf_one_type [OF wf] one_type_frame [OF _ u p] unchangedD(3) [OF u p] by auto
  then show "runs_to (free cube_heap cube_heap_update p) g (\<lambda>_ h'. released (set (cube_addrs p L)) h h')"
    using c I len by (auto simp: heap_wp cube_at_def cube_addrs_def gone_def unchanged_def
      same_alloc_def one_type_def released_def)
qed

end
