(* ===== verification/Cube_Rotate.thy ===== *)
theory Cube_Rotate
  imports Cube_Refine
begin

text \<open>
  What \<open>rotate\<close> computes. The two functions that turn the squares of the face itself and the two
  that move the edges of its neighbours are related to functions on the contents of a cube; then
  \<open>rotate\<close> as a whole: the copy it makes, the two transpositions, the copy back and the release
  of the copy.
\<close>

section \<open>The squares of the turned face\<close>

definition cw_face :: "int list \<Rightarrow> int list" where
  "cw_face cs = map (\<lambda>j. cs ! j) [6, 3, 0, 7, 4, 1, 8, 5, 2]"

definition ccw_face :: "int list \<Rightarrow> int list" where
  "ccw_face cs = map (\<lambda>j. cs ! j) [2, 5, 8, 1, 4, 7, 0, 3, 6]"

lemma length9: "length xs = 9 \<Longrightarrow>
    \<exists>x0 x1 x2 x3 x4 x5 x6 x7 x8. xs = [x0, x1, x2, x3, x4, x5, x6, x7, x8]"
  by (auto simp: numeral_eq_Suc length_Suc_conv)

lemma adj_at_face_heap [simp]: "adj_at (face_heap_update f h) a v \<longleftrightarrow> adj_at h a v"
  by (simp add: adj_at_def)

lemma face_colors_update:
  assumes "face_at h r bs w" and "distinct (r # bs)" and "length cs = N_SQUARES_PER_FACE"
  shows "face_at (face_heap_update (\<lambda>m. m(r \<mapsto> \<lparr>colors = map Some cs,
      adjacent_faces = map Some bs\<rparr>)) h) r bs (cs, snd w)"
  using assms by (auto simp: face_at_def adj_at_def)

lemma transpose_cw_wp:
  assumes q: "face_at h q as v" and r: "face_at h r bs w" and ne: "q \<noteq> r"
  shows "runs_to (transpose_face_clockwise q r) h
    (\<lambda>_ h'. face_at h' r bs (cw_face (fst v), snd w) \<and> unchanged {r} h h' \<and> same_alloc h h')"
proof -
  obtain x0 x1 x2 x3 x4 x5 x6 x7 x8 where v: "fst v = [x0, x1, x2, x3, x4, x5, x6, x7, x8]"
    using q length9 [of "fst v"] by (auto simp: face_at_def)
  obtain y0 y1 y2 y3 y4 y5 y6 y7 y8 where w: "fst w = [y0, y1, y2, y3, y4, y5, y6, y7, y8]"
    using r length9 [of "fst w"] by (auto simp: face_at_def)
  have "distinct (r # bs)" using r by (simp add: face_at_def)
  note upd = face_colors_update [OF r this, of "cw_face (fst v)"]
  show ?thesis
    using q r ne upd
    by (simp add: transpose_face_clockwise_def move_color_def access_defs wp heap_wp face_at_def
      v w arr_get_def arr_set_def idx_def rd_cell_def mapR_def cw_face_def unchanged_def
      same_alloc_def)
qed

lemma transpose_ccw_wp:
  assumes q: "face_at h q as v" and r: "face_at h r bs w" and ne: "q \<noteq> r"
  shows "runs_to (transpose_face_counterclockwise q r) h
    (\<lambda>_ h'. face_at h' r bs (ccw_face (fst v), snd w) \<and> unchanged {r} h h' \<and> same_alloc h h')"
proof -
  obtain x0 x1 x2 x3 x4 x5 x6 x7 x8 where v: "fst v = [x0, x1, x2, x3, x4, x5, x6, x7, x8]"
    using q length9 [of "fst v"] by (auto simp: face_at_def)
  obtain y0 y1 y2 y3 y4 y5 y6 y7 y8 where w: "fst w = [y0, y1, y2, y3, y4, y5, y6, y7, y8]"
    using r length9 [of "fst w"] by (auto simp: face_at_def)
  have "distinct (r # bs)" using r by (simp add: face_at_def)
  note upd = face_colors_update [OF r this, of "ccw_face (fst v)"]
  show ?thesis
    using q r ne upd
    by (simp add: transpose_face_counterclockwise_def move_color_def access_defs wp heap_wp
      face_at_def v w arr_get_def arr_set_def idx_def rd_cell_def mapR_def ccw_face_def
      unchanged_def same_alloc_def)
qed

section \<open>The edges of the neighbours\<close>

definition set_sq :: "nat \<Rightarrow> nat \<Rightarrow> int \<Rightarrow> face_val list \<Rightarrow> face_val list" where
  "set_sq i j x W = W[i := ((fst (W ! i))[j := x], snd (W ! i))]"

definition edge_copy ::
    "face_val list \<Rightarrow> adj_val \<Rightarrow> adj_val \<Rightarrow> nat \<Rightarrow> face_val list \<Rightarrow> face_val list" where
  "edge_copy V cur nxt j W = set_sq (nat (fst nxt)) (nat (snd nxt ! j))
     (fst (V ! nat (fst cur)) ! nat (snd cur ! j)) W"

definition edges_copied ::
    "(nat \<Rightarrow> nat) \<Rightarrow> adj_val list \<Rightarrow> face_val list \<Rightarrow> face_val list \<Rightarrow> face_val list" where
  "edges_copied nx A V W =
     fold (\<lambda>i. fold (edge_copy V (A ! i) (A ! nx i)) [0..<N_SQUARES_PER_SIDE]) [0..<N_EDGES_PER_SIDE] W"

definition next_cw :: "nat \<Rightarrow> nat" where
  "next_cw i = (if i < N_EDGES_PER_SIDE - 1 then i + 1 else 0)"

definition next_ccw :: "nat \<Rightarrow> nat" where
  "next_ccw i = (if i < 1 then N_EDGES_PER_SIDE - 1 else i - 1)"

definition adj_ok :: "adj_val \<Rightarrow> bool" where
  "adj_ok a \<longleftrightarrow> 0 \<le> fst a \<and> fst a < int N_FACES \<and> length (snd a) = N_SQUARES_PER_SIDE \<and>
     (\<forall>s\<in>set (snd a). 0 \<le> s \<and> s < int N_SQUARES_PER_FACE)"

lemma adj_ok_sq: "adj_ok a \<Longrightarrow> j < N_SQUARES_PER_SIDE \<Longrightarrow> 0 \<le> snd a ! j \<and> snd a ! j < 9"
  using nth_mem [of j "snd a"] by (auto simp: adj_ok_def)

lemma set_color_cube_wp:
  assumes c: "cube_at g r M W" and i: "i < N_FACES" and j: "j < N_SQUARES_PER_FACE"
  shows "runs_to (set_color (fst (M ! i)) (int j) x) g (\<lambda>_ g'. cube_at g' r M (set_sq i j x W) \<and>
    unchanged (set (cube_addrs r M)) g g' \<and> same_alloc g g')"
proof -
  let ?q = "fst (M ! i)" and ?bs = "snd (M ! i)"
  let ?g = "face_heap_update (\<lambda>m. m(?q \<mapsto> \<lparr>colors = map Some ((fst (W ! i))[j := x]),
      adjacent_faces = map Some ?bs\<rparr>)) g"
  have f: "face_at g ?q ?bs (W ! i)" by (rule cube_at_face [OF c i])
  have len: "length (fst (W ! i)) = N_SQUARES_PER_FACE" using f by (simp add: face_at_def)
  have "face_at ?g ?q ?bs ((fst (W ! i))[j := x], snd (W ! i))"
    using f len by (intro face_colors_update) (simp_all add: face_at_def)
  moreover have "unchanged {?q} g ?g" by (simp add: unchanged_def)
  moreover have "?q \<in> set (face_addrs (M ! i))" by (simp add: face_addrs_def)
  moreover note cube_face_addrs(3) [OF c i]
  ultimately have "cube_at ?g r M (set_sq i j x W) \<and> unchanged (set (cube_addrs r M)) g ?g"
    unfolding set_sq_def
    by (intro conjI cube_at_update_face [OF c i]) (auto elim: unchanged_mono)
  then show ?thesis
    using f j len by (simp add: set_color_def heap_wp face_at_def map_update same_alloc_def)
qed

lemma get_color_int_wp:
  assumes "face_at h q as v" and "0 \<le> i" and "i < int N_SQUARES_PER_FACE"
  shows "runs_to (get_color q i) h Q \<longleftrightarrow> Q (fst v ! nat i) h"
  using assms get_color_wp [OF assms(1), of "nat i" Q] by simp

lemma get_face_int_wp:
  assumes "cube_at h p L V" and "0 \<le> i" and "i < int N_FACES"
  shows "runs_to (get_face p i) h Q \<longleftrightarrow> Q (fst (L ! nat i)) h"
  using assms get_face_wp [OF assms(1), of "nat i" Q] by simp

text \<open>\<open>W\<close> is in the copy; the original, outside the copy, is still as it was.\<close>

definition copy_state :: "mem \<Rightarrow> addr \<Rightarrow> layout \<Rightarrow> face_val list \<Rightarrow> mem \<Rightarrow> bool" where
  "copy_state h r M W g \<longleftrightarrow>
     cube_at g r M W \<and> unchanged (set (cube_addrs r M)) h g \<and> same_alloc h g"

lemma move_edge_wp:
  assumes src: "cube_at h p L V" and disj: "set (cube_addrs p L) \<inter> set (cube_addrs r M) = {}"
    and a: "a \<in> set (cube_addrs p L)" "adj_at h a cur" "adj_ok cur"
    and b: "b \<in> set (cube_addrs p L)" "adj_at h b nxt" "adj_ok nxt"
    and W: "copy_state h r M W g"
  shows "runs_to (move_edge p r a b) g
    (\<lambda>_. copy_state h r M (fold (edge_copy V cur nxt) [0..<N_SQUARES_PER_SIDE] W))"
  unfolding move_edge_def
proof (rule runs_to_for_fold [where P = "copy_state h r M", OF W])
  fix j W g assume j: "j < N_SQUARES_PER_SIDE" and W: "copy_state h r M W g"
  then have u: "unchanged (set (cube_addrs r M)) h g" and r: "cube_at g r M W"
    by (simp_all add: copy_state_def)
  have p: "cube_at g p L V" by (rule cube_at_frame [OF src u disj])
  have a': "adj_at g a cur" and b': "adj_at g b nxt"
    using a b disj by (auto intro!: adj_at_frame [OF _ u])
  note sq = adj_ok_sq [OF a(3) j] adj_ok_sq [OF b(3) j]
  have face: "nat (fst cur) < N_FACES" "nat (fst nxt) < N_FACES"
    using a(3) b(3) by (auto simp: adj_ok_def)
  have wr: "runs_to (set_color (fst (M ! nat (fst nxt))) (snd nxt ! j) x) g (\<lambda>_ g'.
      cube_at g' r M (set_sq (nat (fst nxt)) (nat (snd nxt ! j)) x W) \<and>
      unchanged (set (cube_addrs r M)) g g' \<and> same_alloc g g')" for x
    using set_color_cube_wp [OF r face(2), of "nat (snd nxt ! j)" x] sq by (simp add: nat_less_iff)
  show "runs_to (bindM (bindM (get_adj_face a) (\<lambda>k. bindM (get_face p k)
        (\<lambda>f. bindM (get_edge_square a (int j)) (get_color f)))) (\<lambda>old_color.
      bindM (get_adj_face b) (\<lambda>k. bindM (get_face r k) (\<lambda>f. bindM (get_edge_square b (int j))
        (\<lambda>s. set_color f s old_color))))) g
    (\<lambda>_. copy_state h r M (edge_copy V cur nxt j W))"
    using a(3) b(3) sq j face W unfolding edge_copy_def
    by (simp add: runs_to_bind get_adj_face_wp [OF a'] get_adj_face_wp [OF b']
        get_face_int_wp [OF p] get_face_int_wp [OF r] get_edge_square_wp [OF a' j]
        get_edge_square_wp [OF b' j] get_color_int_wp [OF cube_at_face [OF p face(1)]] adj_ok_def)
      (rule runs_to_mono [OF wr],
        auto simp: copy_state_def intro: same_alloc_trans dest: unchanged_trans)
qed

lemma get_adjacent_face_wp:
  "face_at h q as v \<Longrightarrow> j < N_EDGES_PER_SIDE \<Longrightarrow>
     runs_to (get_adjacent q (int j)) h Q \<longleftrightarrow> Q (as ! j) h"
  by (rule get_adjacent_wp [OF face_at_raw])

lemma other_faces_wp:
  assumes src: "cube_at h p L V" and disj: "set (cube_addrs p L) \<inter> set (cube_addrs r M) = {}"
    and f: "f < N_FACES" and ok: "\<forall>a\<in>set (snd (V ! f)). adj_ok a"
    and nx: "\<And>i. i < N_EDGES_PER_SIDE \<Longrightarrow> nx i < N_EDGES_PER_SIDE"
    and W: "copy_state h r M W g"
  shows "runs_to (for_each [0..<N_EDGES_PER_SIDE] (\<lambda>i.
      bindM (bindM (get_face p (int f)) (\<lambda>q. get_adjacent q (int i))) (\<lambda>a.
      bindM (bindM (get_face p (int f)) (\<lambda>q. get_adjacent q (int (nx i)))) (\<lambda>b.
      move_edge p r a b)))) g
    (\<lambda>_. copy_state h r M (edges_copied nx (snd (V ! f)) V W))"
  unfolding edges_copied_def
proof (rule runs_to_for_fold [where P = "copy_state h r M", OF W])
  fix i W g assume i: "i < N_EDGES_PER_SIDE" and W: "copy_state h r M W g"
  then have u: "unchanged (set (cube_addrs r M)) h g" by (simp add: copy_state_def)
  have p: "cube_at g p L V" by (rule cube_at_frame [OF src u disj])
  have q: "face_at g (fst (L ! f)) (snd (L ! f)) (V ! f)" by (rule cube_at_face [OF p f])
  let ?a = "\<lambda>i. snd (L ! f) ! i" and ?v = "\<lambda>i. snd (V ! f) ! i"
  have adj: "?a i \<in> set (cube_addrs p L)" "adj_at h (?a i) (?v i)" "adj_ok (?v i)"
    if "i < N_EDGES_PER_SIDE" for i
    using that cube_at_face [OF src f] cube_face_addrs(3) [OF src f] ok nth_mem [of i "snd (L ! f)"]
    by (auto simp: face_at_def face_addrs_def)
  show "runs_to (bindM (bindM (get_face p (int f)) (\<lambda>q. get_adjacent q (int i))) (\<lambda>a.
      bindM (bindM (get_face p (int f)) (\<lambda>q. get_adjacent q (int (nx i)))) (\<lambda>b.
      move_edge p r a b))) g
    (\<lambda>_. copy_state h r M (fold (edge_copy V (?v i) (?v (nx i))) [0..<N_SQUARES_PER_SIDE] W))"
    by (simp add: runs_to_bind get_face_wp [OF p f] get_adjacent_face_wp [OF q] i nx)
      (rule move_edge_wp [OF src disj adj [OF i] adj [OF nx [OF i]] W])
qed

section \<open>The whole rotation\<close>

definition turn_squares :: "bool \<Rightarrow> int list \<Rightarrow> int list" where
  "turn_squares cw = (if cw then cw_face else ccw_face)"

definition next_edge :: "bool \<Rightarrow> nat \<Rightarrow> nat" where
  "next_edge cw = (if cw then next_cw else next_ccw)"

definition rotated_val :: "bool \<Rightarrow> nat \<Rightarrow> face_val list \<Rightarrow> face_val list" where
  "rotated_val cw f V = edges_copied (next_edge cw) (snd (V ! f)) V
     (V[f := (turn_squares cw (fst (V ! f)), snd (V ! f))])"

definition transposition :: "bool \<Rightarrow> addr \<Rightarrow> addr \<Rightarrow> int \<Rightarrow> (mem, unit) prog" where
  "transposition cw p r n =
     (if cw then thenM (bindM (get_face p n) (\<lambda>f. bindM (get_face r n) (transpose_face_clockwise f)))
        (transpose_other_faces_clockwise p r n)
      else thenM (bindM (get_face p n) (\<lambda>f. bindM (get_face r n) (transpose_face_counterclockwise f)))
        (transpose_other_faces_counterclockwise p r n))"

lemma rotate_cube_alt:
  "rotate_cube p n d = bindM make_cube (\<lambda>r. thenM (copy_cube p r)
     (thenM (transposition (d = 0) p r n) (thenM (copy_cube r p) (free_cube r))))"
  by (simp add: rotate_cube_def transposition_def)

lemma keeps_transposition [keeps_intro]: "keeps (transposition cw p r n)"
  unfolding transposition_def by (intro keeps_intro)

lemma transpose_other_eq:
  "(if cw then transpose_other_faces_clockwise p r n
    else transpose_other_faces_counterclockwise p r n) =
   for_each [0..<N_EDGES_PER_SIDE] (\<lambda>i.
      bindM (bindM (get_face p n) (\<lambda>q. get_adjacent q (int i))) (\<lambda>a.
      bindM (bindM (get_face p n) (\<lambda>q. get_adjacent q (int (next_edge cw i)))) (\<lambda>b.
      move_edge p r a b)))"
  unfolding transpose_other_faces_clockwise_def transpose_other_faces_counterclockwise_def
  by (simp add: next_edge_def next_cw_def next_ccw_def upt4)

lemma transpose_self_wp:
  assumes q: "face_at h q as v" and r: "face_at h r bs w" and ne: "q \<noteq> r"
  shows "runs_to (if cw then transpose_face_clockwise q r else transpose_face_counterclockwise q r) h
    (\<lambda>_ h'. face_at h' r bs (turn_squares cw (fst v), snd w) \<and> unchanged {r} h h' \<and> same_alloc h h')"
  using transpose_cw_wp [OF assms] transpose_ccw_wp [OF assms] by (simp add: turn_squares_def)

lemma transposition_wp:
  assumes src: "cube_at h p L V" and disj: "set (cube_addrs p L) \<inter> set (cube_addrs r M) = {}"
    and f: "f < N_FACES" and ok: "\<forall>a\<in>set (snd (V ! f)). adj_ok a"
    and W: "copy_state h r M V g"
  shows "runs_to (transposition cw p r (int f)) g (\<lambda>_. copy_state h r M (rotated_val cw f V))"
proof -
  have u: "unchanged (set (cube_addrs r M)) h g" and r: "cube_at g r M V"
    using W by (simp_all add: copy_state_def)
  have p: "cube_at g p L V" by (rule cube_at_frame [OF src u disj])
  let ?q = "fst (L ! f)" and ?r = "fst (M ! f)"
  let ?V = "V[f := (turn_squares cw (fst (V ! f)), snd (V ! f))]"
  have addr: "?q \<in> set (cube_addrs p L)" "?r \<in> set (face_addrs (M ! f))"
      "?r \<in> set (cube_addrs r M)"
    using cube_face_addrs(3) [OF p f] cube_face_addrs(3) [OF r f] by (auto simp: face_addrs_def)
  then have "?q \<noteq> ?r" using disj by auto
  note self = transpose_self_wp [OF cube_at_face [OF p f] cube_at_face [OF r f] this, of cw]
  have "copy_state h r M ?V g'"
    if "face_at g' ?r (snd (M ! f)) (turn_squares cw (fst (V ! f)), snd (V ! f))"
      and ur: "unchanged {?r} g g'" and al: "same_alloc g g'" for g'
  proof -
    have "cube_at g' r M ?V"
      using that addr by (intro cube_at_update_face [OF r f]) (auto elim: unchanged_mono)
    moreover have "unchanged (set (cube_addrs r M)) h g'"
      using addr unchanged_trans [OF u ur] by (simp add: insert_absorb Un_commute)
    ultimately show ?thesis
      using W al by (auto simp: copy_state_def intro: same_alloc_trans)
  qed
  then have "runs_to (if cw then transpose_face_clockwise ?q ?r
      else transpose_face_counterclockwise ?q ?r) g (\<lambda>_. copy_state h r M ?V)"
    by (intro runs_to_mono [OF self]) simp
  then have "runs_to (bindM (get_face p (int f)) (\<lambda>q. bindM (get_face r (int f)) (\<lambda>r.
      if cw then transpose_face_clockwise q r else transpose_face_counterclockwise q r))) g
      (\<lambda>_. copy_state h r M ?V)"
    by (simp only: runs_to_bind get_face_wp [OF p f] get_face_wp [OF r f])
  moreover have "runs_to (if cw then transpose_other_faces_clockwise p r (int f)
      else transpose_other_faces_counterclockwise p r (int f)) g'
      (\<lambda>_. copy_state h r M (rotated_val cw f V))" if "copy_state h r M ?V g'" for g'
    unfolding transpose_other_eq rotated_val_def
    by (rule other_faces_wp [OF src disj f ok _ that])
      (auto simp: next_edge_def next_cw_def next_ccw_def)
  ultimately show ?thesis
    by (cases cw) (auto simp: transposition_def intro: runs_to_thenI)
qed

lemma cube_at_live:
  assumes c: "cube_at h p L V" and ok: "mem_ok h"
  shows "set (cube_addrs p L) \<subseteq> {a. a < next_addr h}"
proof -
  have "set (face_addrs (L ! i)) \<subseteq> live h" if i: "i < N_FACES" for i
    using cube_at_face [OF c i]
    by (auto simp: face_at_def face_addrs_def live_def dom_def in_set_conv_nth adj_at_def)
  moreover have "p \<in> live h" using c by (auto simp: cube_at_def live_def)
  moreover have "\<exists>i<N_FACES. qa = L ! i" if "qa \<in> set L" for qa
    using that c by (auto simp: cube_at_def in_set_conv_nth)
  ultimately have "set (cube_addrs p L) \<subseteq> live h"
    unfolding cube_addrs_def by fastforce
  with ok show ?thesis by (auto simp: mem_ok_def)
qed

theorem rotate_cube_wp:
  assumes wf: "wf_mem h" and quota: "31 \<le> quota h" and c: "cube_at h p L V"
    and f: "f < N_FACES" and ok: "\<forall>a\<in>set (snd (V ! f)). adj_ok a"
  shows "runs_to (rotate_cube p (int f) d) h (\<lambda>_ h'.
    cube_at h' p L (rotated_val (d = 0) f V) \<and> unchanged (set (cube_addrs p L)) h h' \<and>
    wf_mem h' \<and> next_addr h' = next_addr h + 31 \<and> quota h = quota h' + 31 \<and>
    stdout h' = stdout h)"
proof -
  let ?r = "next_addr h" and ?V = "rotated_val (d = 0) f V"
  let ?M = "layout_from ?r" and ?P = "set (cube_addrs p L)"
  let ?R = "set (cube_addrs ?r ?M)"
  have mem: "mem_ok h" and nn: "?r \<noteq> NULL" using wf by (simp_all add: wf_mem_def mem_ok_def)
  have R: "?R = {?r..<?r + 31}" by (simp add: cube_addrs_layout)
  have disj: "?P \<inter> ?R = {}" using cube_at_live [OF c mem] R by auto
  obtain g1 where 1: "make_cube h = Inr (?r, g1)" and r1: "cube_at g1 ?r ?M solved_val"
    and al: "allocated 31 h g1"
    using make_cube_wp [OF quota nn] by (auto elim!: runs_toE)
  have u1: "unchanged ?R h g1" using al by (simp add: allocated_def R)
  have p1: "cube_at g1 p L V" by (rule cube_at_frame [OF c u1 disj])
  obtain g2 where 2: "copy_cube p ?r g1 = Inr ((), g2)" and W: "copy_state g1 ?r ?M V g2"
    using copy_cube_wp [OF p1 r1 disj] by (auto simp: copy_state_def elim!: runs_toE)
  obtain g3 where 3: "transposition (d = 0) p ?r (int f) g2 = Inr ((), g3)"
    and W3: "copy_state g1 ?r ?M ?V g3"
    using transposition_wp [OF p1 disj f ok W, of "d = 0"] by (auto elim!: runs_toE)
  have u3: "unchanged ?R g1 g3" and r3: "cube_at g3 ?r ?M ?V" and a3: "same_alloc g1 g3"
    using W3 by (simp_all add: copy_state_def)
  have p3: "cube_at g3 p L V" by (rule cube_at_frame [OF p1 u3 disj])
  have disj': "?R \<inter> ?P = {}" using disj by auto
  obtain g4 where 4: "copy_cube ?r p g3 = Inr ((), g4)" and p4: "cube_at g4 p L ?V"
    and u4: "unchanged ?P g3 g4" and a4: "same_alloc g3 g4"
    using copy_cube_wp [OF r3 p3 disj'] by (auto elim!: runs_toE)
  have r4: "cube_at g4 ?r ?M ?V" by (rule cube_at_frame [OF r3 u4 disj'])
  have wf1: "wf_mem g1" by (rule keepsD [OF keeps_make_cube wf 1])
  have wf2: "wf_mem g2" by (rule keepsD [OF keeps_copy(3) wf1 2])
  have wf3: "wf_mem g3" by (rule keepsD [OF keeps_transposition wf2 3])
  have wf4: "wf_mem g4" by (rule keepsD [OF keeps_copy(3) wf3 4])
  obtain g5 where 5: "free_cube ?r g4 = Inr ((), g5)" and rel: "released ?R g4 g5"
    using free_cube_wp [OF r4 wf4] by (auto elim!: runs_toE)
  have wf5: "wf_mem g5" by (rule keepsD [OF keeps_free_cube wf4 5])
  have u5: "unchanged ?R g4 g5" and a5: "same_alloc g4 g5" and gone: "gone ?R g5"
    using rel by (simp_all add: released_def)
  have p5: "cube_at g5 p L ?V" by (rule cube_at_frame [OF p4 u5 disj])
  have "unchanged (?R \<union> ?P) h g5"
    using unchanged_trans [OF unchanged_trans [OF unchanged_trans [OF u1 u3] u4] u5]
    by (rule unchanged_mono) auto
  moreover have "a \<in> ?R \<Longrightarrow> adjacent_heap h a = None \<and> face_heap h a = None \<and> cube_heap h a = None" for a
    using fresh_not_live [OF mem] R by auto
  ultimately have "unchanged ?P h g5"
    using gone unfolding unchanged_def gone_def by (metis UnE)
  moreover have "rotate_cube p (int f) d h = Inr ((), g5)"
    by (simp add: rotate_cube_alt prog_simps 1 2 3 4 5)
  ultimately show ?thesis
    using p5 wf5 al a3 a4 a5 by (simp add: runs_to_def allocated_def same_alloc_def)
qed

end
