(* ===== verification/Cube_Geometry.thy ===== *)
theory Cube_Geometry
  imports Cube_Rotate
begin

text \<open>
  The physical cube as the specification. The cube is the block of the 27 points with
  coordinates in \<open>{-1, 0, 1}\<close>; a sticker is a point with an outward normal. Each face has a
  normal and an upward direction, which place its nine squares in space. Turning a face rotates
  by a quarter turn around its normal the stickers of the points in its layer. This theory shows
  that \<open>rotate\<close> of the code, with the tables of \<open>make_face\<close>, is this rotation for all six faces
  and both directions.
\<close>

section \<open>Vectors\<close>

type_synonym vec = "int \<times> int \<times> int"

fun vadd :: "vec \<Rightarrow> vec \<Rightarrow> vec" where
  "vadd (a, b, c) (x, y, z) = (a + x, b + y, c + z)"

fun scale :: "int \<Rightarrow> vec \<Rightarrow> vec" where
  "scale k (x, y, z) = (k * x, k * y, k * z)"

fun dot :: "vec \<Rightarrow> vec \<Rightarrow> int" where
  "dot (a, b, c) (x, y, z) = a * x + b * y + c * z"

fun cross :: "vec \<Rightarrow> vec \<Rightarrow> vec" where
  "cross (a, b, c) (x, y, z) = (b * z - c * y, c * x - a * z, a * y - b * x)"

section \<open>Where the stickers are\<close>

text \<open>
  Front is \<open>+z\<close>, right \<open>+x\<close>, top \<open>+y\<close>. Seen from outside, the upper edge of the top face is on
  the left of the cube and the upper edge of the bottom face on the right; the upper edges of
  the other four faces are at the top.
\<close>

definition normals :: "vec list" where
  "normals = [(0, 0, 1), (1, 0, 0), (0, 1, 0), (0, - 1, 0), (- 1, 0, 0), (0, 0, - 1)]"

definition ups :: "vec list" where
  "ups = [(0, 1, 0), (0, 1, 0), (- 1, 0, 0), (1, 0, 0), (0, 1, 0), (0, 1, 0)]"

type_synonym sticker = "nat \<times> nat"

definition normal :: "nat \<Rightarrow> vec" where "normal f = normals ! f"
definition up :: "nat \<Rightarrow> vec" where "up f = ups ! f"
definition right :: "nat \<Rightarrow> vec" where "right f = cross (up f) (normal f)"

definition place :: "sticker \<Rightarrow> vec \<times> vec" where
  "place s = (let f = fst s; row = int (snd s div 3); col = int (snd s mod 3) in
     (vadd (normal f) (vadd (scale (col - 1) (right f)) (scale (1 - row) (up f))), normal f))"

definition index_of :: "'a list \<Rightarrow> 'a \<Rightarrow> nat" where
  "index_of xs x = length (takeWhile (\<lambda>y. y \<noteq> x) xs)"

definition unplace :: "vec \<times> vec \<Rightarrow> sticker" where
  "unplace pm = (let f = index_of normals (snd pm) in
     (f, nat (3 * (1 - dot (fst pm) (up f)) + (dot (fst pm) (right f) + 1))))"

section \<open>Turning a layer\<close>

definition quarter :: "vec \<Rightarrow> bool \<Rightarrow> vec \<Rightarrow> vec" where
  "quarter n cw v = vadd (scale (dot n v) n) (if cw then cross v n else cross n v)"

definition turn_layer :: "vec \<Rightarrow> bool \<Rightarrow> vec \<times> vec \<Rightarrow> vec \<times> vec" where
  "turn_layer n cw pm =
     (if dot n (fst pm) = 1 then (quarter n cw (fst pm), quarter n cw (snd pm)) else pm)"

definition sticker_turn :: "nat \<Rightarrow> bool \<Rightarrow> sticker \<Rightarrow> sticker" where
  "sticker_turn f cw s = unplace (turn_layer (normal f) cw (place s))"

definition stickers :: "sticker list" where
  "stickers = List.product [0..<N_FACES] [0..<N_SQUARES_PER_FACE]"

lemma in_stickers: "s \<in> set stickers \<longleftrightarrow> fst s < N_FACES \<and> snd s < N_SQUARES_PER_FACE"
  by (cases s) (auto simp: stickers_def)

lemma stickers_upt: "stickers = map (\<lambda>k. (k div 9, k mod 9)) [0..<54]"
  by code_simp

section \<open>Slots\<close>

text \<open>The places a sticker can be in: a point of the block and the normal of a side it lies on.\<close>

fun small :: "vec \<Rightarrow> bool" where
  "small (x, y, z) \<longleftrightarrow> \<bar>x\<bar> \<le> 1 \<and> \<bar>y\<bar> \<le> 1 \<and> \<bar>z\<bar> \<le> 1"

definition slot :: "vec \<times> vec \<Rightarrow> bool" where
  "slot pm \<longleftrightarrow> snd pm \<in> set normals \<and> small (fst pm) \<and> dot (snd pm) (fst pm) = 1"

lemma normal_in: "f < N_FACES \<Longrightarrow> normal f \<in> set normals"
  unfolding normal_def by (rule nth_mem) (simp add: normals_def)

lemma small_cases: "\<bar>x\<bar> \<le> (1::int) \<Longrightarrow> x = - 1 \<or> x = 0 \<or> x = 1"
  by arith

lemma unplace_place_all: "list_all (\<lambda>s. unplace (place s) = s \<and> slot (place s)) stickers"
  by code_simp

lemma unplace_place:
  assumes "s \<in> set stickers"
  shows "unplace (place s) = s" and "slot (place s)"
  using unplace_place_all assms by (auto simp: list_all_iff)

definition slot_list :: "(vec \<times> vec) list" where
  "slot_list = filter slot
     (concat (map (\<lambda>m. map (\<lambda>p. (p, m)) (List.product [- 1, 0, 1] (List.product [- 1, 0, 1] [- 1, 0, 1])))
        normals))"

lemma slot_list: "slot pm \<longleftrightarrow> pm \<in> set slot_list"
proof
  assume s: "slot pm"
  obtain x y z m where pm: "pm = ((x, y, z), m)" by (metis surj_pair)
  have "x \<in> {- 1, 0, 1}" "y \<in> {- 1, 0, 1}" "z \<in> {- 1, 0, 1}" and "m \<in> set normals"
    using s small_cases by (auto simp: slot_def pm)
  with s show "pm \<in> set slot_list" by (force simp: slot_list_def pm)
qed (auto simp: slot_list_def)

lemma place_unplace_all: "list_all (\<lambda>pm. place (unplace pm) = pm \<and>
    fst (unplace pm) < N_FACES \<and> snd (unplace pm) < N_SQUARES_PER_FACE) slot_list"
  by code_simp

lemma place_unplace:
  assumes "slot pm"
  shows "place (unplace pm) = pm" and "unplace pm \<in> set stickers"
  using place_unplace_all assms by (auto simp: list_all_iff slot_list in_stickers)

lemma normal_cases [consumes 1]:
  assumes "n \<in> set normals"
  obtains "n = (0, 0, 1)" | "n = (1, 0, 0)" | "n = (0, 1, 0)" | "n = (0, - 1, 0)" | "n = (- 1, 0, 0)"
    | "n = (0, 0, - 1)"
  using assms by (auto simp: normals_def)

lemma quarter_inverse: "n \<in> set normals \<Longrightarrow> quarter n (\<not> cw) (quarter n cw v) = v"
  by (cases v; cases cw; erule normal_cases) (simp_all add: quarter_def)

lemma dot_quarter: "n \<in> set normals \<Longrightarrow> dot n (quarter n cw v) = dot n v"
  by (cases v; cases cw; erule normal_cases) (simp_all add: quarter_def)

lemma small_quarter: "n \<in> set normals \<Longrightarrow> small v \<Longrightarrow> small (quarter n cw v)"
  by (cases v; cases cw; erule normal_cases) (simp_all add: quarter_def)

lemma dot_quarter_quarter:
  "n \<in> set normals \<Longrightarrow> dot (quarter n cw v) (quarter n cw w) = dot v w"
  by (cases v; cases w; cases cw; erule normal_cases) (simp_all add: quarter_def)

lemma quarter_normal: "n \<in> set normals \<Longrightarrow> m \<in> set normals \<Longrightarrow> quarter n cw m \<in> set normals"
  by (cases cw; erule normal_cases; erule normal_cases) (simp_all add: quarter_def normals_def)

lemmas quarter_facts = quarter_inverse dot_quarter small_quarter dot_quarter_quarter quarter_normal

lemma turn_layer_slot: "n \<in> set normals \<Longrightarrow> slot pm \<Longrightarrow> slot (turn_layer n cw pm)"
  by (auto simp: turn_layer_def slot_def quarter_facts)

lemma turn_layer_inverse:
  "n \<in> set normals \<Longrightarrow> turn_layer n (\<not> cw) (turn_layer n cw pm) = pm"
  by (cases pm) (simp add: turn_layer_def quarter_facts)

section \<open>Turning stickers\<close>

lemma sticker_turn_place:
  assumes "f < N_FACES" and "s \<in> set stickers"
  shows "place (sticker_turn f cw s) = turn_layer (normal f) cw (place s)"
    and "sticker_turn f cw s \<in> set stickers"
  using assms by (simp_all add: sticker_turn_def place_unplace turn_layer_slot normal_in unplace_place)

lemma sticker_turn_inverse:
  assumes "f < N_FACES" and "s \<in> set stickers"
  shows "sticker_turn f (\<not> cw) (sticker_turn f cw s) = s"
  using assms sticker_turn_place [OF assms, of cw]
  by (simp add: sticker_turn_def [of f "\<not> cw"] turn_layer_inverse normal_in unplace_place)

section \<open>Standard cubes\<close>

text \<open>
  A cube with the adjacency tables of \<open>make_face\<close> and nine colours on each face: what
  \<open>make_cube\<close> makes and every function of the library keeps.
\<close>

definition std_adj :: "adj_val list list" where
  "std_adj = map snd solved_val"

definition std :: "face_val list \<Rightarrow> bool" where
  "std V \<longleftrightarrow> map snd V = std_adj \<and> (\<forall>v\<in>set V. length (fst v) = N_SQUARES_PER_FACE)"

definition view :: "face_val list \<Rightarrow> sticker \<Rightarrow> int" where
  "view V s = fst (V ! fst s) ! snd s"

lemma std_adj_eval: "std_adj =
  [[(2, [0, 3, 6]), (1, [0, 3, 6]), (3, [0, 3, 6]), (4, [8, 5, 2])],
   [(0, [8, 5, 2]), (2, [6, 7, 8]), (5, [0, 3, 6]), (3, [2, 1, 0])],
   [(0, [2, 1, 0]), (4, [2, 1, 0]), (5, [2, 1, 0]), (1, [2, 1, 0])],
   [(0, [6, 7, 8]), (1, [6, 7, 8]), (5, [6, 7, 8]), (4, [6, 7, 8])],
   [(0, [0, 3, 6]), (3, [6, 7, 8]), (5, [8, 5, 2]), (2, [2, 1, 0])],
   [(1, [8, 5, 2]), (2, [8, 5, 2]), (4, [0, 3, 6]), (3, [8, 5, 2])]]"
  by code_simp

lemma std_length:
  assumes "std V"
  shows "length V = N_FACES"
proof -
  have "length (map snd V) = length std_adj" using assms by (simp only: std_def)
  then show ?thesis by (simp add: std_adj_eval)
qed

lemma std_adj_ok: "\<forall>as\<in>set std_adj. length as = N_EDGES_PER_SIDE \<and> (\<forall>a\<in>set as. adj_ok a)"
  by (simp add: std_adj_eval adj_ok_def)

lemma std_face:
  assumes "std V" and "i < N_FACES"
  shows "length (fst (V ! i)) = N_SQUARES_PER_FACE" and "snd (V ! i) = std_adj ! i"
    and "\<forall>a\<in>set (snd (V ! i)). adj_ok a" and "length (snd (V ! i)) = N_EDGES_PER_SIDE"
proof -
  have len: "length V = N_FACES" using assms(1) by (rule std_length)
  then show "length (fst (V ! i)) = N_SQUARES_PER_FACE"
    using assms by (simp add: std_def)
  show adj: "snd (V ! i) = std_adj ! i"
    using assms len nth_map [of i V snd] by (simp add: std_def)
  have "std_adj ! i \<in> set std_adj" using assms(2) by (intro nth_mem) (simp add: std_adj_eval)
  then show "\<forall>a\<in>set (snd (V ! i)). adj_ok a" and "length (snd (V ! i)) = N_EDGES_PER_SIDE"
    using std_adj_ok adj by auto
qed

lemma std_solved: "std solved_val"
proof -
  have "list_all (\<lambda>v. length (fst v) = N_SQUARES_PER_FACE) solved_val" by code_simp
  then show ?thesis by (simp add: std_def std_adj_def list_all_iff)
qed

lemma std_eqI:
  assumes V: "std V" and W: "std W" and eq: "\<And>s. s \<in> set stickers \<Longrightarrow> view V s = view W s"
  shows "V = W"
proof (rule nth_equalityI)
  show len: "length V = length W" using V W by (simp add: std_length)
  fix i assume "i < length V"
  then have i: "i < N_FACES" using V by (simp add: std_length)
  have "fst (V ! i) = fst (W ! i)"
    using std_face(1) [OF V i] std_face(1) [OF W i] i eq [of "(i, _)"]
    by (intro nth_equalityI) (simp_all add: in_stickers view_def)
  moreover have "snd (V ! i) = snd (W ! i)" using std_face(2) [OF V i] std_face(2) [OF W i] by simp
  ultimately show "V ! i = W ! i" by (rule prod_eqI)
qed

section \<open>Rotation moves colours and nothing else\<close>

definition recolor :: "(int \<Rightarrow> int) \<Rightarrow> face_val list \<Rightarrow> face_val list" where
  "recolor g V = map (\<lambda>v. (map g (fst v), snd v)) V"

lemma recolor_nth [simp]:
  "i < length V \<Longrightarrow> recolor g V ! i = (map g (fst (V ! i)), snd (V ! i))"
  by (simp add: recolor_def)

lemma recolor_length [simp]: "length (recolor g V) = length V"
  by (simp add: recolor_def)

lemma recolor_set_sq: "i < length W \<Longrightarrow> set_sq i j (g x) (recolor g W) = recolor g (set_sq i j x W)"
  by (simp add: set_sq_def) (simp add: recolor_def map_update)

lemma edge_copy_recolor:
  assumes V: "std V" and W: "length W = N_FACES" and a: "adj_ok a" "adj_ok b"
    and j: "j < N_SQUARES_PER_SIDE"
  shows "edge_copy (recolor g V) a b j (recolor g W) = recolor g (edge_copy V a b j W)"
proof -
  have i: "nat (fst a) < N_FACES" "nat (fst b) < N_FACES" using a by (auto simp: adj_ok_def)
  have s: "nat (snd a ! j) < N_SQUARES_PER_FACE"
    using adj_ok_sq [OF a(1) j] by (simp add: nat_less_iff)
  have "nat (fst a) < length V" "nat (fst b) < length W" using i V W by (simp_all add: std_length)
  then show ?thesis
    using std_face(1) [OF V i(1)] s by (simp add: edge_copy_def recolor_set_sq [symmetric])
qed

lemma length_edge_copy [simp]: "length (edge_copy V a b j W) = length W"
  by (simp add: edge_copy_def set_sq_def)

lemma snd_edge_copy: "map snd (edge_copy V a b j W) = map snd W"
  by (simp add: edge_copy_def set_sq_def map_update) (metis list_update_beyond list_update_id
      length_map linorder_not_le nth_map)

lemma fold_length: "(\<And>x w. x \<in> set xs \<Longrightarrow> length (f x w) = length w) \<Longrightarrow> length (fold f xs w) = length w"
  by (induction xs arbitrary: w) auto

lemma fold_recolor:
  assumes "\<And>x w. x \<in> set xs \<Longrightarrow> length w = n \<Longrightarrow> f x (recolor g w) = recolor g (f' x w)"
    and "\<And>x w. x \<in> set xs \<Longrightarrow> length (f' x w) = length w" and "length w = n"
  shows "fold f xs (recolor g w) = recolor g (fold f' xs w)"
  using assms by (induction xs arbitrary: w) auto

lemma edges_copied_recolor:
  assumes V: "std V" and W: "length W = N_FACES" and A: "\<forall>a\<in>set A. adj_ok a" "length A = N_EDGES_PER_SIDE"
    and nx: "\<And>i. i < N_EDGES_PER_SIDE \<Longrightarrow> nx i < N_EDGES_PER_SIDE"
  shows "edges_copied nx A (recolor g V) (recolor g W) = recolor g (edges_copied nx A V W)"
  unfolding edges_copied_def
proof (rule fold_recolor [OF _ _ W])
  fix i and w :: "face_val list"
  assume "i \<in> set [0..<N_EDGES_PER_SIDE]" and w: "length w = N_FACES"
  then have "A ! i \<in> set A" "A ! nx i \<in> set A" using A(2) nx [of i] by auto
  then show "fold (edge_copy (recolor g V) (A ! i) (A ! nx i)) [0..<N_SQUARES_PER_SIDE] (recolor g w) =
      recolor g (fold (edge_copy V (A ! i) (A ! nx i)) [0..<N_SQUARES_PER_SIDE] w)"
    using A(1) V w by (intro fold_recolor [OF _ _ w] edge_copy_recolor) auto
qed (simp add: fold_length)

lemma turn_squares_map: "length cs = N_SQUARES_PER_FACE \<Longrightarrow> turn_squares cw (map g cs) = map g (turn_squares cw cs)"
  by (simp add: turn_squares_def cw_face_def ccw_face_def)

lemma next_edge_less: "i < N_EDGES_PER_SIDE \<Longrightarrow> next_edge cw i < N_EDGES_PER_SIDE"
  by (auto simp: next_edge_def next_cw_def next_ccw_def)

lemma rotated_recolor:
  assumes V: "std V" and f: "f < N_FACES"
  shows "rotated_val cw f (recolor g V) = recolor g (rotated_val cw f V)"
proof -
  let ?W = "V[f := (turn_squares cw (fst (V ! f)), snd (V ! f))]"
  have len: "f < length V" using f V by (simp add: std_length)
  have "(recolor g V)[f := (turn_squares cw (fst (recolor g V ! f)), snd (recolor g V ! f))] = recolor g ?W"
    using len std_face(1) [OF V f] by (simp add: turn_squares_map) (simp add: recolor_def map_update)
  then show ?thesis
    unfolding rotated_val_def
    using len edges_copied_recolor [OF V _ std_face(3) [OF V f] std_face(4) [OF V f], of ?W "next_edge cw" g]
    by (simp add: next_edge_less std_length [OF V])
qed

lemma edges_copied_shape:
  "length (edges_copied nx A V W) = length W" "map snd (edges_copied nx A V W) = map snd W"
proof -
  have "map snd (fold (edge_copy V a b) js w) = map snd w" for a b js w
    by (induction js arbitrary: w) (simp_all add: snd_edge_copy)
  then have "map snd (fold (\<lambda>i. fold (edge_copy V (A ! i) (A ! nx i)) js) is w) = map snd w" for js "is" w
    by (induction "is" arbitrary: w) simp_all
  then show "map snd (edges_copied nx A V W) = map snd W" by (simp add: edges_copied_def)
  then show "length (edges_copied nx A V W) = length W" by (metis length_map)
qed

section \<open>The rotation of the code is the rotation of the layer\<close>

text \<open>
  Since a rotation only moves colours, it is determined by what it does to the cube whose
  stickers all differ. On that cube the code and the geometry are compared by evaluation.
\<close>

definition sticker_id :: "sticker \<Rightarrow> int" where
  "sticker_id s = int (9 * fst s + snd s)"

definition id_row :: "nat \<Rightarrow> int list" where
  "id_row i = map (sticker_id \<circ> Pair i) [0..<N_SQUARES_PER_FACE]"

definition id_cube :: "face_val list" where
  "id_cube = zip (map id_row [0..<N_FACES]) std_adj"

definition code_ids :: "nat \<Rightarrow> bool \<Rightarrow> int list list" where
  "code_ids f cw = map fst (rotated_val cw f id_cube)"

definition geo_row :: "nat \<Rightarrow> bool \<Rightarrow> nat \<Rightarrow> int list" where
  "geo_row f cw i = map (sticker_id \<circ> sticker_turn f (\<not> cw) \<circ> Pair i) [0..<N_SQUARES_PER_FACE]"

definition geo_ids :: "nat \<Rightarrow> bool \<Rightarrow> int list list" where
  "geo_ids f cw = map (geo_row f cw) [0..<N_FACES]"

lemma ids_front_cw: "code_ids 0 True = geo_ids 0 True" by code_simp
lemma ids_front_ccw: "code_ids 0 False = geo_ids 0 False" by code_simp
lemma ids_right_cw: "code_ids 1 True = geo_ids 1 True" by code_simp
lemma ids_right_ccw: "code_ids 1 False = geo_ids 1 False" by code_simp
lemma ids_top_cw: "code_ids 2 True = geo_ids 2 True" by code_simp
lemma ids_top_ccw: "code_ids 2 False = geo_ids 2 False" by code_simp
lemma ids_bottom_cw: "code_ids 3 True = geo_ids 3 True" by code_simp
lemma ids_bottom_ccw: "code_ids 3 False = geo_ids 3 False" by code_simp
lemma ids_left_cw: "code_ids 4 True = geo_ids 4 True" by code_simp
lemma ids_left_ccw: "code_ids 4 False = geo_ids 4 False" by code_simp
lemma ids_back_cw: "code_ids 5 True = geo_ids 5 True" by code_simp
lemma ids_back_ccw: "code_ids 5 False = geo_ids 5 False" by code_simp

lemma code_ids_geo:
  assumes "f < N_FACES"
  shows "code_ids f cw = geo_ids f cw"
proof -
  have "f = 0 \<or> f = 1 \<or> f = 2 \<or> f = 3 \<or> f = 4 \<or> f = 5" using assms by arith
  then show ?thesis
    by (cases cw) (auto simp del: One_nat_def simp: ids_front_cw ids_front_ccw ids_right_cw ids_right_ccw ids_top_cw
      ids_top_ccw ids_bottom_cw ids_bottom_ccw ids_left_cw ids_left_ccw ids_back_cw ids_back_ccw)
qed

lemma std_id_cube: "std id_cube"
  by (simp add: std_def id_cube_def id_row_def std_adj_eval upt6)

lemma std_recolor: "std V \<Longrightarrow> std (recolor g V)"
  by (auto simp: std_def recolor_def comp_def)

lemma view_id_cube: "s \<in> set stickers \<Longrightarrow> view id_cube s = sticker_id s"
  by (cases s) (simp add: in_stickers view_def id_cube_def id_row_def std_adj_eval)

lemma view_recolor: "std V \<Longrightarrow> s \<in> set stickers \<Longrightarrow> view (recolor g V) s = g (view V s)"
  using std_face(1) [of V "fst s"] by (simp add: view_def in_stickers std_length)

lemma recolor_id_cube:
  assumes "std V"
  shows "V = recolor (\<lambda>k. view V (nat k div 9, nat k mod 9)) id_cube"
proof (rule std_eqI [OF assms])
  show "std (recolor (\<lambda>k. view V (nat k div 9, nat k mod 9)) id_cube)"
    by (intro std_recolor std_id_cube)
  fix s assume s: "s \<in> set stickers"
  have "nat (sticker_id s) = 9 * fst s + snd s" unfolding sticker_id_def by (rule nat_int)
  with s have "nat (sticker_id s) div 9 = fst s" "nat (sticker_id s) mod 9 = snd s"
    by (simp_all add: in_stickers)
  with s show "view V s = view (recolor (\<lambda>k. view V (nat k div 9, nat k mod 9)) id_cube) s"
    by (simp add: view_recolor std_id_cube view_id_cube)
qed

theorem std_rotated:
  assumes V: "std V" and f: "f < N_FACES"
  shows "std (rotated_val cw f V)"
proof -
  obtain g where g: "V = recolor g id_cube" using recolor_id_cube [OF V] by blast
  have ids: "map fst (rotated_val cw f id_cube) = geo_ids f cw"
    using code_ids_geo [OF f, of cw] by (simp add: code_ids_def)
  have "\<forall>cs\<in>set (geo_ids f cw). length cs = N_SQUARES_PER_FACE"
    by (auto simp: geo_ids_def geo_row_def)
  then have "\<forall>v\<in>set (rotated_val cw f id_cube). length (fst v) = N_SQUARES_PER_FACE"
    unfolding ids [symmetric] by simp
  moreover have "map snd (rotated_val cw f id_cube) = map snd id_cube"
    by (simp add: rotated_val_def edges_copied_shape map_update)
      (metis list_update_beyond list_update_id length_map linorder_not_le nth_map)
  ultimately have "std (rotated_val cw f id_cube)"
    using std_id_cube by (simp add: std_def)
  then show ?thesis by (simp add: g rotated_recolor std_id_cube f std_recolor)
qed

theorem rotated_view:
  assumes V: "std V" and f: "f < N_FACES" and s: "s \<in> set stickers"
  shows "view (rotated_val cw f V) s = view V (sticker_turn f (\<not> cw) s)"
proof -
  obtain g where g: "V = recolor g id_cube" using recolor_id_cube [OF V] by blast
  have id: "std (rotated_val cw f id_cube)" using std_id_cube f by (rule std_rotated)
  have "map fst (rotated_val cw f id_cube) = geo_ids f cw"
    using code_ids_geo [OF f, of cw] by (simp add: code_ids_def)
  then have "fst (rotated_val cw f id_cube ! fst s) = geo_row f cw (fst s)"
    using s std_length [OF id] nth_map [of "fst s" "rotated_val cw f id_cube" fst]
    by (simp add: geo_ids_def in_stickers)
  then have "view (rotated_val cw f id_cube) s = sticker_id (sticker_turn f (\<not> cw) s)"
    using s by (simp add: view_def geo_row_def in_stickers)
  moreover have "sticker_turn f (\<not> cw) s \<in> set stickers"
    using f s by (rule sticker_turn_place(2))
  ultimately show ?thesis
    using s f by (simp add: g rotated_recolor std_id_cube view_recolor id view_id_cube)
qed

theorem rotated_sticker:
  assumes "std V" and "f < N_FACES" and "s \<in> set stickers"
  shows "view (rotated_val cw f V) (sticker_turn f cw s) = view V s"
  using assms by (simp add: rotated_view sticker_turn_place sticker_turn_inverse)

end
