(* ===== verification/Cube_Moves.thy ===== *)
theory Cube_Moves
  imports Cube_Geometry
begin

text \<open>
  Sequences of turns. A locale states what an invertible action on states is and proves what
  follows for sequences of moves; the rotation of the code is an instance. On top of it: what no
  turn changes (the multiset of colours, the centre squares, the pieces), and that every sequence
  of turns can be undone by turns.
\<close>

section \<open>Invertible actions\<close>

locale invertible_action =
  fixes ok :: "'c \<Rightarrow> bool"
    and valid :: "'m \<Rightarrow> bool"
    and act :: "'m \<Rightarrow> 'c \<Rightarrow> 'c"
    and opposite :: "'m \<Rightarrow> 'm"
  assumes ok_act: "ok c \<Longrightarrow> valid m \<Longrightarrow> ok (act m c)"
    and valid_opposite: "valid m \<Longrightarrow> valid (opposite m)"
    and act_opposite: "ok c \<Longrightarrow> valid m \<Longrightarrow> act (opposite m) (act m c) = c"
    and opposite_opposite: "opposite (opposite m) = m"
begin

lemma ok_run: "ok c \<Longrightarrow> \<forall>m\<in>set ms. valid m \<Longrightarrow> ok (fold act ms c)"
  by (induction ms arbitrary: c) (auto simp: ok_act)

lemma run_undo:
  "ok c \<Longrightarrow> \<forall>m\<in>set ms. valid m \<Longrightarrow> fold act (rev (map opposite ms)) (fold act ms c) = c"
  by (induction ms arbitrary: c) (auto simp: ok_act act_opposite)

lemma act_injective:
  "ok c \<Longrightarrow> ok d \<Longrightarrow> valid m \<Longrightarrow> act m c = act m d \<Longrightarrow> c = d"
  by (metis act_opposite)

lemma run_injective:
  "ok c \<Longrightarrow> ok d \<Longrightarrow> \<forall>m\<in>set ms. valid m \<Longrightarrow> fold act ms c = fold act ms d \<Longrightarrow> c = d"
  by (metis run_undo)

lemma run_invariant:
  assumes step: "\<And>c m. ok c \<Longrightarrow> valid m \<Longrightarrow> q (act m c) = q c"
  shows "ok c \<Longrightarrow> \<forall>m\<in>set ms. valid m \<Longrightarrow> q (fold act ms c) = q c"
  by (induction ms arbitrary: c) (auto simp: ok_act step)

end

section \<open>Turns\<close>

text \<open>A turn is a face and a direction (\<open>True\<close> is clockwise, \<open>direction == 0\<close> in the code).\<close>

type_synonym turn = "nat \<times> bool"

definition valid_turn :: "turn \<Rightarrow> bool" where
  "valid_turn m \<longleftrightarrow> fst m < N_FACES"

definition apply_turn :: "turn \<Rightarrow> face_val list \<Rightarrow> face_val list" where
  "apply_turn m V = rotated_val (snd m) (fst m) V"

definition opposite_turn :: "turn \<Rightarrow> turn" where
  "opposite_turn m = (fst m, \<not> snd m)"

lemma rotated_inverse:
  assumes "std V" and "f < N_FACES"
  shows "rotated_val (\<not> cw) f (rotated_val cw f V) = V"
proof (rule std_eqI)
  fix s assume s: "s \<in> set stickers"
  then show "view (rotated_val (\<not> cw) f (rotated_val cw f V)) s = view V s"
    using assms sticker_turn_inverse [OF assms(2) s, of cw]
    by (simp add: rotated_view std_rotated sticker_turn_place)
qed (use assms in \<open>simp_all add: std_rotated\<close>)

interpretation turns: invertible_action std valid_turn apply_turn opposite_turn
  by unfold_locales (auto simp: valid_turn_def apply_turn_def opposite_turn_def std_rotated
    rotated_inverse [of _ _ True, simplified] rotated_inverse [of _ _ False, simplified]
    rotated_inverse)

section \<open>Order and commutation of turns\<close>

definition move_sticker :: "turn \<Rightarrow> sticker \<Rightarrow> sticker" where
  "move_sticker m s = sticker_turn (fst m) (snd m) s"

interpretation stick: invertible_action "\<lambda>s. s \<in> set stickers" valid_turn move_sticker opposite_turn
  by unfold_locales (auto simp: valid_turn_def move_sticker_def opposite_turn_def
    sticker_turn_place sticker_turn_inverse [of _ _ True, simplified]
    sticker_turn_inverse [of _ _ False, simplified] sticker_turn_inverse)

definition sticker_path :: "turn list \<Rightarrow> sticker \<Rightarrow> sticker" where
  "sticker_path ms = fold move_sticker ms"

lemma sticker_path_in:
  "s \<in> set stickers \<Longrightarrow> \<forall>m\<in>set ms. valid_turn m \<Longrightarrow> sticker_path ms s \<in> set stickers"
  unfolding sticker_path_def by (rule stick.ok_run)

text \<open>After a sequence of turns each colour is where its sticker has gone.\<close>

lemma run_view:
  "std V \<Longrightarrow> \<forall>m\<in>set ms. valid_turn m \<Longrightarrow> s \<in> set stickers \<Longrightarrow>
     view (fold apply_turn ms V) (sticker_path ms s) = view V s"
proof (induction ms arbitrary: V s)
  case Nil
  then show ?case by (simp add: sticker_path_def)
next
  case (Cons m ms)
  then have "view (apply_turn m V) (sticker_turn (fst m) (snd m) s) = view V s"
    by (simp add: apply_turn_def valid_turn_def rotated_sticker)
  moreover have "sticker_turn (fst m) (snd m) s \<in> set stickers"
    using Cons.prems by (simp add: valid_turn_def sticker_turn_place)
  ultimately show ?case
    using Cons.prems Cons.IH [of "apply_turn m V" "sticker_turn (fst m) (snd m) s"]
    by (simp add: sticker_path_def move_sticker_def turns.ok_act)
qed

definition layer_path :: "turn list \<Rightarrow> vec \<times> vec \<Rightarrow> vec \<times> vec" where
  "layer_path ms = fold (\<lambda>m. turn_layer (normal (fst m)) (snd m)) ms"

lemma place_sticker_path:
  "s \<in> set stickers \<Longrightarrow> \<forall>m\<in>set ms. valid_turn m \<Longrightarrow>
     place (sticker_path ms s) = layer_path ms (place s)"
  unfolding sticker_path_def layer_path_def move_sticker_def
  by (induction ms arbitrary: s) (auto simp: valid_turn_def sticker_turn_place)

text \<open>Two sequences that move every place of the block in the same way do the same to a cube.\<close>

lemma run_eq:
  assumes V: "std V" and ms: "\<forall>m\<in>set ms. valid_turn m" and ns: "\<forall>m\<in>set ns. valid_turn m"
    and eq: "\<And>pm. layer_path ms pm = layer_path ns pm"
  shows "fold apply_turn ms V = fold apply_turn ns V"
proof (rule std_eqI)
  show "std (fold apply_turn ms V)" "std (fold apply_turn ns V)"
    using V ms ns by (simp_all add: turns.ok_run)
  fix t assume t: "t \<in> set stickers"
  define s where "s = sticker_path (rev (map opposite_turn ms)) t"
  have s: "s \<in> set stickers"
    unfolding s_def using t ms by (intro sticker_path_in) (auto simp: turns.valid_opposite)
  have "fold move_sticker (rev (map opposite_turn (rev (map opposite_turn ms))))
      (fold move_sticker (rev (map opposite_turn ms)) t) = t"
    using t ms by (intro stick.run_undo) (auto simp: turns.valid_opposite)
  then have "t = sticker_path ms s"
    by (simp add: s_def sticker_path_def rev_map [symmetric] comp_def turns.opposite_opposite)
  moreover have "sticker_path ms s = sticker_path ns s"
    using place_sticker_path [OF s ms] place_sticker_path [OF s ns] eq
      unplace_place(1) [OF sticker_path_in [OF s ms]] unplace_place(1) [OF sticker_path_in [OF s ns]]
    by metis
  ultimately show "view (fold apply_turn ms V) t = view (fold apply_turn ns V) t"
    using run_view [OF V ms s] run_view [OF V ns s] by simp
qed

lemma quarter_twice_twice:
  "n \<in> set normals \<Longrightarrow> quarter n cw (quarter n cw (quarter n cw (quarter n cw v))) = v"
  by (cases v; cases cw; erule normal_cases) (simp_all add: quarter_def)

lemma four_quarters:
  assumes "n \<in> set normals"
  shows "turn_layer n cw (turn_layer n cw (turn_layer n cw (turn_layer n cw pm))) = pm"
  using assms by (cases pm) (simp add: turn_layer_def quarter_twice_twice dot_quarter)

lemma half_turn_direction:
  assumes "n \<in> set normals"
  shows "turn_layer n True (turn_layer n True pm) = turn_layer n False (turn_layer n False pm)"
proof -
  have "quarter n True (quarter n True v) = quarter n False (quarter n False v)" for v
    by (cases v; rule normal_cases [OF assms]) (simp_all add: quarter_def)
  then show ?thesis using assms by (cases pm) (simp add: turn_layer_def dot_quarter)
qed

lemma opposite_layers_commute:
  assumes "n \<in> set normals"
  shows "turn_layer n cw (turn_layer (scale (- 1) n) cw' pm) =
    turn_layer (scale (- 1) n) cw' (turn_layer n cw pm)"
proof -
  obtain x y z a b c where pm: "pm = ((x, y, z), (a, b, c))" by (metis surj_pair)
  show ?thesis
    unfolding pm
    by (cases cw; cases cw'; rule normal_cases [OF assms]) (simp_all add: turn_layer_def quarter_def)
qed

text \<open>The face on the other side: front and back, right and left, top and bottom.\<close>

definition facing :: "nat \<Rightarrow> nat" where
  "facing f = [5, 4, 3, 2, 1, 0] ! f"

lemma normal_facing: "f < N_FACES \<Longrightarrow> normal (facing f) = scale (- 1) (normal f)"
  by (auto simp: less_Suc_eq numeral_eq_Suc normal_def normals_def facing_def)

lemma facing_less: "f < N_FACES \<Longrightarrow> facing f < N_FACES"
  by (auto simp: less_Suc_eq numeral_eq_Suc facing_def)

section \<open>What no turn changes\<close>

definition color_count :: "face_val list \<Rightarrow> int multiset" where
  "color_count V = image_mset (view V) (mset stickers)"

lemma distinct_stickers: "distinct stickers"
  by (simp add: stickers_def distinct_product)

lemma move_sticker_inj: "valid_turn m \<Longrightarrow> inj_on (move_sticker m) (set stickers)"
  by (rule inj_onI) (rule stick.act_injective)

lemma move_sticker_surj: "valid_turn m \<Longrightarrow> move_sticker m ` set stickers = set stickers"
  by (rule endo_inj_surj) (auto intro: move_sticker_inj stick.ok_act)

lemma turn_view:
  "std V \<Longrightarrow> valid_turn m \<Longrightarrow> s \<in> set stickers \<Longrightarrow> view (apply_turn m V) (move_sticker m s) = view V s"
  by (simp add: apply_turn_def valid_turn_def move_sticker_def rotated_sticker)

text \<open>Over any set of stickers the colours move along with the stickers.\<close>

lemma colors_move:
  assumes V: "std V" and m: "valid_turn m" and X: "X \<subseteq> set stickers"
  shows "image_mset (view (apply_turn m V)) (mset_set (move_sticker m ` X)) =
    image_mset (view V) (mset_set X)"
proof -
  have inj: "inj_on (move_sticker m) X" using move_sticker_inj [OF m] X by (rule inj_on_subset)
  have fin: "finite X" using X by (rule finite_subset) simp
  have "mset_set (move_sticker m ` X) = image_mset (move_sticker m) (mset_set X)"
    by (rule image_mset_mset_set [OF inj, symmetric])
  moreover have "view (apply_turn m V) (move_sticker m s) = view V s" if "s \<in># mset_set X" for s
    using that fin X turn_view [OF V m, of s] by auto
  then have "image_mset (view (apply_turn m V) \<circ> move_sticker m) (mset_set X) =
      image_mset (view V) (mset_set X)"
    by (intro image_mset_cong) simp
  ultimately show ?thesis by (simp add: multiset.map_comp)
qed

lemma color_count_turn: "std V \<Longrightarrow> valid_turn m \<Longrightarrow> color_count (apply_turn m V) = color_count V"
  using colors_move [of V m "set stickers"] distinct_stickers
  by (simp add: color_count_def move_sticker_surj mset_set_set)

text \<open>
  A piece of the cube is a point of the block with the colours of the stickers on it: three at a
  corner, two on an edge, one in the middle of a side.
\<close>

definition stickers_at :: "vec \<Rightarrow> sticker set" where
  "stickers_at p = {s \<in> set stickers. fst (place s) = p}"

definition piece :: "face_val list \<Rightarrow> vec \<Rightarrow> int multiset" where
  "piece V p = image_mset (view V) (mset_set (stickers_at p))"

definition move_point :: "turn \<Rightarrow> vec \<Rightarrow> vec" where
  "move_point m p = (let n = normal (fst m) in if dot n p = 1 then quarter n (snd m) p else p)"

lemma move_sticker_point:
  "valid_turn m \<Longrightarrow> s \<in> set stickers \<Longrightarrow> fst (place (move_sticker m s)) = move_point m (fst (place s))"
  by (simp add: move_sticker_def valid_turn_def sticker_turn_place turn_layer_def move_point_def Let_def)

lemma move_point_opposite: "valid_turn m \<Longrightarrow> move_point (opposite_turn m) (move_point m p) = p"
  by (simp add: move_point_def opposite_turn_def valid_turn_def Let_def quarter_facts normal_in)

lemma stickers_at_move:
  assumes m: "valid_turn m"
  shows "stickers_at (move_point m p) = move_sticker m ` stickers_at p"
proof
  show "move_sticker m ` stickers_at p \<subseteq> stickers_at (move_point m p)"
    using m by (auto simp: stickers_at_def move_sticker_point stick.ok_act)
  show "stickers_at (move_point m p) \<subseteq> move_sticker m ` stickers_at p"
  proof
    fix t assume t: "t \<in> stickers_at (move_point m p)"
    then have "t \<in> move_sticker m ` set stickers"
      by (simp add: move_sticker_surj [OF m] stickers_at_def)
    then obtain s where s: "s \<in> set stickers" and ts: "t = move_sticker m s" by blast
    with t have "move_point m (fst (place s)) = move_point m p"
      using m by (simp add: stickers_at_def move_sticker_point)
    then have "fst (place s) = p" using move_point_opposite [OF m] by metis
    with s ts show "t \<in> move_sticker m ` stickers_at p" by (simp add: stickers_at_def)
  qed
qed

lemma piece_turn:
  assumes "std V" and "valid_turn m"
  shows "piece (apply_turn m V) (move_point m p) = piece V p"
  using colors_move [OF assms, of "stickers_at p"] assms(2)
  by (simp add: piece_def stickers_at_move) (simp add: stickers_at_def)

text \<open>The middle square of each face, the only one that no turn of any face moves.\<close>

lemma center_fixed:
  assumes "valid_turn m" and "i < N_FACES"
  shows "move_sticker m (i, 4) = (i, 4)"
proof -
  have "list_all (\<lambda>i. fst (place (i, 4)) = normal i) [0..<N_FACES]" by code_simp
  then have c: "place (i, 4) = (normal i, normal i)"
    using assms(2) by (intro prod_eqI) (simp_all add: list_all_iff place_def Let_def)
  have n: "normal (fst m) \<in> set normals" "normal i \<in> set normals"
    using assms by (simp_all add: normal_in valid_turn_def)
  have "dot n k = 1 \<Longrightarrow> quarter n cw k = k" if "n \<in> set normals" "k \<in> set normals" for n k cw
    using that by (elim normal_cases) (simp_all add: quarter_def)
  then have "turn_layer (normal (fst m)) (snd m) (place (i, 4)) = place (i, 4)"
    using n by (simp add: turn_layer_def c)
  then show ?thesis
    using assms(2) by (simp add: move_sticker_def sticker_turn_def unplace_place in_stickers)
qed

end
