(* ===== verification/Cube_Api.thy ===== *)
theory Cube_Api
  imports Cube_Moves
begin

text \<open>
  The cube library as its clients see it. \<open>cube_in h p V\<close>: at address \<open>p\<close> of the well-formed
  memory \<open>h\<close> there is a complete standard cube with contents \<open>V\<close>. The contract of the library
  is the locale \<open>cube_library\<close>; \<open>shuffle\<close> is verified inside it, from the contract alone, and
  the contract is proved for the functions of \<open>Cube\<close>.
\<close>

definition cube_in :: "mem \<Rightarrow> addr \<Rightarrow> face_val list \<Rightarrow> bool" where
  "cube_in h p V \<longleftrightarrow> wf_mem h \<and> std V \<and> (\<exists>L. cube_at h p L V)"

definition solved_colors :: "face_val list \<Rightarrow> bool" where
  "solved_colors V \<longleftrightarrow> (\<forall>s\<in>set stickers. view V s = int (fst s))"

section \<open>The test for a solved cube\<close>

text \<open>The first counter value at which the body returns, for a body that returns one fixed value.\<close>

lemma find_first:
  "Option.bind (List.find (\<lambda>i. (if P i then Some x else None) \<noteq> None) is)
     (\<lambda>i. if P i then Some x else None) = (if \<exists>i\<in>set is. P i then Some x else None)"
  by (induction "is") auto

lemma for_return_first:
  assumes "\<And>i. i \<in> set is \<Longrightarrow> body i s = Inr (if P i then Some x else None, s)"
  shows "for_return is body s = Inr (if \<exists>i\<in>set is. P i then Some x else None, s)"
  using runs_to_for_return [of "is" body s "\<lambda>i. if P i then Some x else None", OF assms]
  unfolding find_first .

lemma is_solved_wp:
  assumes c: "cube_at h p L V" and V: "std V"
  shows "is_solved p h = Inr (if solved_colors V then 1 else 0, h)"
proof -
  let ?P = "\<lambda>i j. view V (i, j) \<noteq> int i"
  let ?body = "\<lambda>i j. bindM (get_face p (int i)) (\<lambda>f. bindM (get_color f (int j))
      (\<lambda>c. returnM (if c \<noteq> int i then Some (0::int) else None)))"
  have body: "?body i j h = Inr (if ?P i j then Some 0 else None, h)"
    if i: "i < N_FACES" and j: "j < N_SQUARES_PER_FACE" for i j
  proof -
    have "runs_to (?body i j) h (\<lambda>r h'. r = (if ?P i j then Some 0 else None) \<and> h' = h)"
      using get_color_wp [OF cube_at_face [OF c i] j]
      by (simp add: runs_to_bind get_face_wp [OF c i] view_def)
    then show ?thesis by (auto elim!: runs_toE)
  qed
  have inner: "for_return [0..<N_SQUARES_PER_FACE] (?body i) h =
      Inr (if \<exists>j\<in>set [0..<N_SQUARES_PER_FACE]. ?P i j then Some 0 else None, h)"
    if "i < N_FACES" for i
    using that by (intro for_return_first body) auto
  have outer: "for_return [0..<N_FACES] (\<lambda>i. for_return [0..<N_SQUARES_PER_FACE] (?body i)) h =
      Inr (if \<exists>i\<in>set [0..<N_FACES]. \<exists>j\<in>set [0..<N_SQUARES_PER_FACE]. ?P i j then Some 0 else None, h)"
    by (rule for_return_first, rule inner) simp
  have "(\<exists>i\<in>set [0..<N_FACES]. \<exists>j\<in>set [0..<N_SQUARES_PER_FACE]. ?P i j) \<longleftrightarrow> \<not> solved_colors V"
    by (fastforce simp: solved_colors_def in_stickers)
  then show ?thesis
    by (simp only: is_solved_def bindM_apply outer) (simp add: prog_simps)
qed

section \<open>The contract of the cube library\<close>

text \<open>
  What the clients of the library (the server and the view) rely on. \<open>rep h p V\<close> is the
  representation, \<open>room h\<close> the number of allocations that still succeed. A turn needs room for
  31 objects, the copy that \<open>rotate\<close> makes.
\<close>

locale cube_library =
  fixes ok :: "'h \<Rightarrow> bool"
    and rep :: "'h \<Rightarrow> 'p \<Rightarrow> face_val list \<Rightarrow> bool"
    and room :: "'h \<Rightarrow> nat"
    and make :: "('h, 'p) prog"
    and turn_face :: "'p \<Rightarrow> int \<Rightarrow> int \<Rightarrow> ('h, unit) prog"
    and solved :: "'p \<Rightarrow> ('h, int) prog"
    and release :: "'p \<Rightarrow> ('h, unit) prog"
  assumes make_law: "ok h \<Longrightarrow> 31 \<le> room h \<Longrightarrow>
      runs_to make h (\<lambda>p h'. rep h' p solved_val \<and> room h = room h' + 31)"
    and turn_law: "rep h p V \<Longrightarrow> 31 \<le> room h \<Longrightarrow> f < N_FACES \<Longrightarrow>
      runs_to (turn_face p (int f) d) h
        (\<lambda>_ h'. rep h' p (apply_turn (f, d = 0) V) \<and> room h = room h' + 31)"
    and solved_law: "rep h p V \<Longrightarrow> solved p h = Inr (if solved_colors V then 1 else 0, h)"
    and release_law: "rep h p V \<Longrightarrow> runs_to (release p) h (\<lambda>_ h'. ok h' \<and> room h' = room h)"
    and rep_std: "rep h p V \<Longrightarrow> std V"
begin

text \<open>A sequence of rotations, each given by its face and its direction.\<close>

definition all_turns :: "'p \<Rightarrow> (nat \<times> int) list \<Rightarrow> ('h, unit) prog" where
  "all_turns p ts = for_each ts (\<lambda>(f, d). turn_face p (int f) d)"

lemma all_turns_wp:
  assumes "rep h p V" and "31 * length ts \<le> room h" and "\<forall>t\<in>set ts. fst t < N_FACES"
  shows "runs_to (all_turns p ts) h (\<lambda>_ h'.
    rep h' p (fold apply_turn (map (\<lambda>t. (fst t, snd t = 0)) ts) V) \<and>
    room h = room h' + 31 * length ts)"
  using assms
proof (induction ts arbitrary: h V)
  case Nil
  then show ?case by (simp add: all_turns_def)
next
  case (Cons t ts)
  obtain f d where t: "t = (f, d)" by (cases t)
  have "runs_to (turn_face p (int f) d) h
      (\<lambda>_ h'. rep h' p (apply_turn (f, d = 0) V) \<and> room h = room h' + 31)"
    using Cons.prems by (intro turn_law) (simp_all add: t)
  moreover have "runs_to (all_turns p ts) g (\<lambda>_ h'.
      rep h' p (fold apply_turn (map (\<lambda>t. (fst t, snd t = 0)) (t # ts)) V) \<and>
      room h = room h' + 31 * length (t # ts))"
    if "rep g p (apply_turn (f, d = 0) V) \<and> room h = room g + 31" for g
    using that Cons.prems by (intro runs_to_mono [OF Cons.IH]) (auto simp: t)
  ultimately show ?case
    by (auto simp: all_turns_def t intro: runs_to_thenI)
qed

text \<open>Turning and turning back: the cube is as before.\<close>

lemma undo_wp:
  assumes h: "rep h p V" and room: "31 * (2 * length ts) \<le> room h"
    and ts: "\<forall>t\<in>set ts. fst t < N_FACES \<and> (snd t = 0 \<or> snd t = 1)"
  shows "runs_to (thenM (all_turns p ts) (all_turns p (rev (map (\<lambda>(f, d). (f, 1 - d)) ts)))) h
    (\<lambda>_ h'. rep h' p V)"
proof (rule runs_to_thenI)
  let ?m = "\<lambda>t::nat \<times> int. (fst t, snd t = 0)" and ?o = "\<lambda>(f, d). (f::nat, 1 - d::int)"
  show "runs_to (all_turns p ts) h (\<lambda>_ h'. rep h' p (fold apply_turn (map ?m ts) V) \<and>
      room h = room h' + 31 * length ts)"
    using ts room by (intro all_turns_wp [OF h]) auto
  fix g assume g: "rep g p (fold apply_turn (map ?m ts) V) \<and> room h = room g + 31 * length ts"
  have "map ?m (rev (map ?o ts)) = rev (map opposite_turn (map ?m ts))"
    using ts by (auto simp: rev_map opposite_turn_def)
  moreover have "fold apply_turn (rev (map opposite_turn (map ?m ts))) (fold apply_turn (map ?m ts) V) = V"
    using ts by (intro turns.run_undo rep_std [OF h]) (auto simp: valid_turn_def)
  moreover have "runs_to (all_turns p (rev (map ?o ts))) g (\<lambda>_ h'.
      rep h' p (fold apply_turn (map ?m (rev (map ?o ts))) (fold apply_turn (map ?m ts) V)) \<and>
      room g = room h' + 31 * length (rev (map ?o ts)))"
    using g ts room by (intro all_turns_wp) auto
  ultimately show "runs_to (all_turns p (rev (map ?o ts))) g (\<lambda>_ h'. rep h' p V)"
    by (auto elim: runs_to_mono)
qed

end

section \<open>Shuffling\<close>

text \<open>\<open>rand_r\<close> returns a number between 0 and \<open>RAND_MAX\<close>, which is at most \<open>INT_MAX\<close>.\<close>

definition rng_ok :: "rng \<Rightarrow> bool" where
  "rng_ok rng \<longleftrightarrow> (\<forall>s. 0 \<le> fst (rng s) \<and> fst (rng s) \<le> INT_MAX)"

primrec draws :: "rng \<Rightarrow> bool \<Rightarrow> nat \<Rightarrow> seed \<Rightarrow> (nat \<times> int) list" where
  "draws rng face_first 0 s = []"
| "draws rng face_first (Suc n) s = (let (a, b, s') = shuffle_args rng face_first s in
     (nat (a mod 6), b mod 2) # draws rng face_first n s')"

lemma shuffle_args_nonneg:
  "rng_ok rng \<Longrightarrow> shuffle_args rng ff s = (a, b, s') \<Longrightarrow> 0 \<le> a \<and> 0 \<le> b"
  unfolding rng_ok_def shuffle_args_def
  by (auto simp: Let_def split: prod.splits if_splits) (metis fst_conv)+

lemma length_draws [simp]: "length (draws rng ff n s) = n"
  by (induction n arbitrary: s) (auto split: prod.split)

lemma draws_faces: "t \<in> set (draws rng ff n s) \<Longrightarrow> fst t < N_FACES"
proof (induction n arbitrary: s)
  case (Suc n)
  then show ?case by (auto simp: Let_def nat_less_iff split: prod.splits)
qed simp

lemma shuffle_depth_range:
  assumes "0 \<le> r" and "0 \<le> lo" and "lo \<le> hi" and "hi < INT_MAX"
  shows "shuffle_depth r lo hi = Inr (r mod (hi - lo + 1) + lo)"
    and "lo \<le> r mod (hi - lo + 1) + lo" and "r mod (hi - lo + 1) + lo \<le> hi"
proof -
  let ?m = "hi - lo + 1"
  have "0 < ?m" using assms by simp
  then have m: "0 \<le> r mod ?m" "r mod ?m < ?m"
    by (rule pos_mod_sign, rule pos_mod_bound)
  then show "lo \<le> r mod ?m + lo" and hi: "r mod ?m + lo \<le> hi" by linarith+
  have "c_int (hi - lo) = Inr (hi - lo)" "c_int ?m = Inr ?m" "c_rem r ?m = Inr (r mod ?m)"
    using assms by (simp_all add: c_int_def c_rem_nonneg INT_MAX_def INT_MIN_def)
  moreover have "c_int (r mod ?m + lo) = Inr (r mod ?m + lo)"
    using assms m hi by (simp add: c_int_def INT_MAX_def INT_MIN_def)
  ultimately show "shuffle_depth r lo hi = Inr (r mod ?m + lo)"
    by (simp add: shuffle_depth_def)
qed

lemma shuffle_empty_range:
  "INT_MIN \<le> lo - 1 \<Longrightarrow> lo \<le> INT_MAX \<Longrightarrow> shuffle rng ff now p lo (lo - 1) h = Inl Div_By_Zero"
  by (simp add: shuffle_def shuffle_depth_def c_int_def c_rem_def INT_MIN_def INT_MAX_def prog_simps
    split: prod.split)

text \<open>The contract with the operations of the code, whatever the representation. The rotations of
  a shuffle follow from the law of \<open>turn_face\<close> alone.\<close>

locale code_cube = cube_library ok rep quota make_cube rotate_cube is_solved free_cube
  for ok :: "mem \<Rightarrow> bool" and rep :: "mem \<Rightarrow> addr \<Rightarrow> face_val list \<Rightarrow> bool"
begin

lemma shuffle_loop_eq:
  "rng_ok rng \<Longrightarrow> shuffle_loop rng ff p n s = all_turns p (draws rng ff n s)"
proof (induction n arbitrary: s)
  case 0
  then show ?case by (simp add: all_turns_def)
next
  case (Suc n)
  obtain a b s' where ab: "shuffle_args rng ff s = (a, b, s')" by (metis surj_pair)
  have "0 \<le> a" "0 \<le> b" using shuffle_args_nonneg [OF Suc.prems ab] by auto
  then show ?case
    using Suc by (simp add: ab all_turns_def c_rem_nonneg)
      (simp add: fun_eq_iff prog_simps)
qed

lemma shuffle_wp:
  assumes rng: "rng_ok rng" and h: "rep h p V"
    and lo: "0 \<le> lo" and hi: "lo \<le> hi" "hi < INT_MAX" and quota: "31 * nat hi \<le> quota h"
  shows "\<exists>ms. lo \<le> int (length ms) \<and> int (length ms) \<le> hi \<and> (\<forall>m\<in>set ms. valid_turn m) \<and>
    runs_to (shuffle rng ff now p lo hi) h (\<lambda>_ h'. rep h' p (fold apply_turn ms V) \<and>
      quota h = quota h' + 31 * length ms)"
proof -
  obtain r s where rs: "rng now = (r, s)" by (cases "rng now")
  then have "0 \<le> r" using rng by (metis fst_conv rng_ok_def)
  note d = shuffle_depth_range [OF this lo hi]
  let ?d = "r mod (hi - lo + 1) + lo"
  let ?ts = "draws rng ff (nat ?d) s"
  let ?ms = "map (\<lambda>t. (fst t, snd t = 0)) ?ts"
  have "31 * length ?ts \<le> quota h" using d(3) quota lo by simp
  then have "runs_to (all_turns p ?ts) h (\<lambda>_ h'. rep h' p (fold apply_turn ?ms V) \<and>
      quota h = quota h' + 31 * length ?ts)"
    using draws_faces by (intro all_turns_wp [OF h]) auto
  moreover have "shuffle rng ff now p lo hi h = all_turns p ?ts h"
    by (simp add: shuffle_def rs d(1) prog_simps shuffle_loop_eq [OF rng])
  ultimately have "runs_to (shuffle rng ff now p lo hi) h (\<lambda>_ h'.
      rep h' p (fold apply_turn ?ms V) \<and> quota h = quota h' + 31 * length ?ms)"
    by (simp add: runs_to_def)
  moreover have "\<forall>m\<in>set ?ms. valid_turn m" using draws_faces by (auto simp: valid_turn_def)
  moreover have "lo \<le> int (length ?ms)" "int (length ?ms) \<le> hi" using d(2,3) lo by simp_all
  ultimately show ?thesis by blast
qed

end

section \<open>The contract holds\<close>

lemma rotate_cube_in:
  assumes c: "cube_in h p V" and quota: "31 \<le> quota h" and f: "f < N_FACES"
  shows "runs_to (rotate_cube p (int f) d) h
    (\<lambda>_ h'. cube_in h' p (apply_turn (f, d = 0) V) \<and> quota h = quota h' + 31)"
proof -
  obtain L where wf: "wf_mem h" and V: "std V" and c: "cube_at h p L V"
    using c by (auto simp: cube_in_def)
  show ?thesis
    using std_rotated [OF V f] unfolding apply_turn_def cube_in_def
    by (intro runs_to_mono [OF rotate_cube_wp [OF wf quota c f std_face(3) [OF V f]]]) auto
qed

interpretation lib: code_cube wf_mem cube_in
proof unfold_locales
  fix h assume wf: "wf_mem h" and quota: "31 \<le> quota h"
  have "next_addr h \<noteq> NULL" using wf by (simp add: wf_mem_def mem_ok_def)
  with keeps_runs_to [OF keeps_make_cube wf make_cube_wp [OF quota this]]
  show "runs_to make_cube h (\<lambda>p h'. cube_in h' p solved_val \<and> quota h = quota h' + 31)"
    by (auto simp: cube_in_def allocated_def std_solved elim: runs_to_mono)
next
  fix h p V assume h: "cube_in h p V"
  then obtain L where wf: "wf_mem h" and V: "std V" and c: "cube_at h p L V"
    by (auto simp: cube_in_def)
  show "is_solved p h = Inr (if solved_colors V then 1 else 0, h)"
    by (rule is_solved_wp [OF c V])
  show "runs_to (free_cube p) h (\<lambda>_ h'. wf_mem h' \<and> quota h' = quota h)"
    using keeps_runs_to [OF keeps_free_cube wf free_cube_wp [OF c wf]]
    by (auto simp: released_def same_alloc_def elim: runs_to_mono)
  show "std V" by (fact V)
next
  fix h p V f and d :: int
  assume "cube_in h p V" "31 \<le> quota h" "f < N_FACES"
  then show "runs_to (rotate_cube p (int f) d) h
      (\<lambda>_ h'. cube_in h' p (apply_turn (f, d = 0) V) \<and> quota h = quota h' + 31)"
    by (rule rotate_cube_in)
qed

text \<open>The cube and nothing else.\<close>

definition empty_mem :: "mem \<Rightarrow> bool" where
  "empty_mem h \<longleftrightarrow> wf_mem h \<and> live h = {}"

definition sole :: "mem \<Rightarrow> addr \<Rightarrow> face_val list \<Rightarrow> bool" where
  "sole h p V \<longleftrightarrow> wf_mem h \<and> std V \<and> (\<exists>L. cube_at h p L V \<and> live h \<subseteq> set (cube_addrs p L))"

lemma sole_cube_in: "sole h p V \<Longrightarrow> cube_in h p V"
  by (auto simp: sole_def cube_in_def)

lemma init_empty: "empty_mem (init_mem n)"
  using init_wf_mem by (simp add: empty_mem_def init_mem_def live_def)

lemma live_iff:
  "a \<in> live h \<longleftrightarrow> \<not> (adjacent_heap h a = None \<and> face_heap h a = None \<and> cube_heap h a = None)"
  by (simp add: live_def domIff)

lemma live_unchanged:
  assumes u: "unchanged X h h'"
  shows "live h' \<subseteq> live h \<union> X"
proof
  fix a assume a: "a \<in> live h'"
  show "a \<in> live h \<union> X"
  proof (cases "a \<in> X")
    case False
    then show ?thesis using a by (simp add: live_iff unchangedD [OF u False])
  qed simp
qed

lemma live_released:
  assumes "released X h h'"
  shows "live h' \<subseteq> live h - X"
proof
  fix a assume a: "a \<in> live h'"
  have "a \<notin> X" using assms a live_iff [of a h'] by (auto simp: released_def gone_def)
  moreover have "unchanged X h h'" using assms by (simp add: released_def)
  ultimately show "a \<in> live h - X" using a live_unchanged [of X h h'] by auto
qed

interpretation alone: code_cube empty_mem sole
proof unfold_locales
  fix h assume ok: "empty_mem h" and quota: "31 \<le> quota h"
  then have wf: "wf_mem h" and nn: "next_addr h \<noteq> NULL"
    by (simp_all add: empty_mem_def wf_mem_def mem_ok_def)
  have "live h' \<subseteq> set (cube_addrs (next_addr h) (layout_from (next_addr h)))" if "allocated 31 h h'" for h'
    using that ok live_unchanged [of _ h h'] by (auto simp: allocated_def empty_mem_def cube_addrs_layout)
  with keeps_runs_to [OF keeps_make_cube wf make_cube_wp [OF quota nn]]
  show "runs_to make_cube h (\<lambda>p h'. sole h' p solved_val \<and> quota h = quota h' + 31)"
    by (auto simp: sole_def allocated_def std_solved elim!: runs_to_mono)
next
  fix h p V assume h: "sole h p V"
  then obtain L where wf: "wf_mem h" and V: "std V" and c: "cube_at h p L V"
    and l: "live h \<subseteq> set (cube_addrs p L)"
    by (auto simp: sole_def)
  show "is_solved p h = Inr (if solved_colors V then 1 else 0, h)"
    by (rule is_solved_wp [OF c V])
  have "live h' = {}" if "released (set (cube_addrs p L)) h h'" for h'
    using live_released [OF that] l by blast
  then show "runs_to (free_cube p) h (\<lambda>_ h'. empty_mem h' \<and> quota h' = quota h)"
    using keeps_runs_to [OF keeps_free_cube wf free_cube_wp [OF c wf]]
    by (auto simp: released_def same_alloc_def empty_mem_def elim!: runs_to_mono)
  show "std V" by (fact V)
next
  fix h p V f and d :: int
  assume h: "sole h p V" and quota: "31 \<le> quota h" and f: "f < N_FACES"
  then obtain L where wf: "wf_mem h" and V: "std V" and c: "cube_at h p L V"
    and l: "live h \<subseteq> set (cube_addrs p L)"
    by (auto simp: sole_def)
  have "live h' \<subseteq> set (cube_addrs p L)" if "unchanged (set (cube_addrs p L)) h h'" for h'
    using live_unchanged [OF that] l by blast
  then show "runs_to (rotate_cube p (int f) d) h
      (\<lambda>_ h'. sole h' p (apply_turn (f, d = 0) V) \<and> quota h = quota h' + 31)"
    using std_rotated [OF V f] unfolding apply_turn_def sole_def
    by (intro runs_to_mono [OF rotate_cube_wp [OF wf quota c f std_face(3) [OF V f]]]) auto
qed

section \<open>Faults of a rotation\<close>

lemma rotate_no_room:
  assumes "wf_mem h" and "quota h < 31"
  shows "rotate_cube p n d h = Inl Null_Deref"
  using make_cube_null [of h] assms by (simp add: rotate_cube_def prog_simps wf_mem_def mem_ok_def)

lemma get_face_out:
  assumes "cube_at h p L V" and "n < 0 \<or> int N_FACES \<le> n"
  shows "get_face p n h = Inl Out_Of_Bounds"
  using assms by (simp add: get_face_def prog_simps load_def cube_at_def arr_get_out)

lemma rotate_bad_face:
  assumes h: "cube_in h p V" and quota: "31 \<le> quota h" and n: "n < 0 \<or> int N_FACES \<le> n"
  shows "rotate_cube p n d h = Inl Out_Of_Bounds"
proof -
  obtain L where wf: "wf_mem h" and c: "cube_at h p L V" using h by (auto simp: cube_in_def)
  let ?r = "next_addr h" and ?P = "set (cube_addrs p L)"
  let ?M = "layout_from ?r"
  let ?R = "set (cube_addrs ?r ?M)"
  have mem: "mem_ok h" and nn: "?r \<noteq> NULL" using wf by (simp_all add: wf_mem_def mem_ok_def)
  have disj: "?P \<inter> ?R = {}"
    using cube_at_live [OF c mem] by (auto simp: cube_addrs_layout)
  obtain g where 1: "make_cube h = Inr (?r, g)" and r: "cube_at g ?r ?M solved_val"
    and u: "unchanged ?R h g"
    using make_cube_wp [OF quota nn] by (auto simp: allocated_def cube_addrs_layout elim!: runs_toE)
  have p: "cube_at g p L V" by (rule cube_at_frame [OF c u disj])
  obtain g' where 2: "copy_cube p ?r g = Inr ((), g')" and u': "unchanged ?R g g'"
    using copy_cube_wp [OF p r disj] by (auto elim!: runs_toE)
  have "get_face p n g' = Inl Out_Of_Bounds"
    by (rule get_face_out [OF cube_at_frame [OF p u' disj] n])
  with 1 2 show ?thesis
    by (simp add: rotate_cube_alt transposition_def prog_simps)
qed

section \<open>When an operation returns\<close>

text \<open>Without any assumption on the memory or on the arguments: an operation that returns at all
  has been called with a face of the cube and with enough memory, and has kept the contract.\<close>

lemma rotate_returns:
  assumes h: "cube_in h p V" and run: "rotate_cube p n d h = Inr (x, h')"
  obtains f where "f < N_FACES" and "n = int f" and "cube_in h' p (apply_turn (f, d = 0) V)"
proof -
  have wf: "wf_mem h" using h by (simp add: cube_in_def)
  have quota: "31 \<le> quota h"
    using rotate_no_room [OF wf, of p n d] run by (cases "quota h < 31") auto
  have "0 \<le> n \<and> n < int N_FACES"
    using rotate_bad_face [OF h quota, of n d] run by (cases "n < 0 \<or> int N_FACES \<le> n") auto
  then obtain f where f: "f < N_FACES" "n = int f" using zero_le_imp_eq_int [of n] by auto
  have "cube_in h' p (apply_turn (f, d = 0) V)"
    using rotate_cube_in [OF h quota f(1), of d] run f(2) by (simp add: runs_to_def)
  with f show ?thesis by (rule that)
qed

lemma all_turns_returns:
  assumes "cube_in h p V" and "lib.all_turns p ts h = Inr (x, h')"
  shows "cube_in h' p (fold apply_turn (map (\<lambda>t. (fst t, snd t = 0)) ts) V)"
  using assms
proof (induction ts arbitrary: h V)
  case Nil
  then show ?case by (simp add: lib.all_turns_def prog_simps)
next
  case (Cons t ts)
  obtain f d where t: "t = (f, d)" by (cases t)
  from Cons.prems(2) obtain g where 1: "rotate_cube p (int f) d h = Inr ((), g)"
    and 2: "lib.all_turns p ts g = Inr (x, h')"
    by (auto simp: lib.all_turns_def t prog_simps split: sum.splits)
  from rotate_returns [OF Cons.prems(1) 1] have "cube_in g p (apply_turn (f, d = 0) V)"
    by (auto simp: of_nat_eq_iff)
  from Cons.IH [OF this 2] show ?case by (simp add: t)
qed

lemma shuffle_returns:
  assumes rng: "rng_ok rng" and h: "cube_in h p V"
    and lo: "0 \<le> lo" and hi: "lo \<le> hi" "hi < INT_MAX"
    and run: "shuffle rng ff now p lo hi h = Inr (x, h')"
  shows "\<exists>ms. lo \<le> int (length ms) \<and> int (length ms) \<le> hi \<and> (\<forall>m\<in>set ms. valid_turn m) \<and>
    cube_in h' p (fold apply_turn ms V)"
proof -
  obtain r s where rs: "rng now = (r, s)" by (cases "rng now")
  then have "0 \<le> r" using rng by (metis fst_conv rng_ok_def)
  note d = shuffle_depth_range [OF this lo hi]
  let ?ts = "draws rng ff (nat (r mod (hi - lo + 1) + lo)) s"
  let ?ms = "map (\<lambda>t. (fst t, snd t = 0)) ?ts"
  have "lib.all_turns p ?ts h = Inr (x, h')"
    using run by (simp add: shuffle_def rs d(1) prog_simps lib.shuffle_loop_eq [OF rng])
  then have "cube_in h' p (fold apply_turn ?ms V)" by (rule all_turns_returns [OF h])
  moreover have "\<forall>m\<in>set ?ms. valid_turn m" using draws_faces by (auto simp: valid_turn_def)
  moreover have "lo \<le> int (length ?ms)" "int (length ?ms) \<le> hi" using d(2,3) lo by simp_all
  ultimately show ?thesis by blast
qed

end
