(* ===== verification/C_Strings.thy ===== *)
theory C_Strings
  imports Cube_Api
begin

text \<open>
  C strings and the line-oriented streams the program sends them through. A \<open>char\<close> is a byte;
  whether plain \<open>char\<close> is signed is up to the platform and a parameter (\<open>signed_char\<close>). A
  character array is a list of cells. \<open>fputs\<close> writes the characters before the first NUL to a
  stream, \<open>getline\<close> takes characters up to and with the next newline from it; a stream (a pipe
  or a socket) is the text that has been written and not yet read.
\<close>

section \<open>Characters and character arrays\<close>

abbreviation (input) nul :: char where "nul \<equiv> CHR 0x00"

definition char_cast :: "int \<Rightarrow> char" where
  "char_cast x = char_of (x mod 256)"

definition char_value :: "bool \<Rightarrow> char \<Rightarrow> int" where
  "char_value signed_char c =
     (let n = of_char c :: int in if signed_char \<and> 128 \<le> n then n - 256 else n)"

definition c_string :: "char cell list \<Rightarrow> string res" where
  "c_string buf =
     (let s = takeWhile (\<lambda>c. c \<noteq> None \<and> c \<noteq> Some nul) buf in
      if length s = length buf then Inl Out_Of_Bounds
      else if buf ! length s = None then Inl Indeterminate
      else Inr (map the s))"

text \<open>What a buffer holds after a line was read into it: the line, a NUL, and whatever was there.\<close>

definition line_buffer :: "string \<Rightarrow> char cell list \<Rightarrow> char cell list" where
  "line_buffer line rest = map Some line @ Some nul # rest"

lemma char_value_cast:
  assumes "if sg then - 128 \<le> x \<and> x < 128 else 0 \<le> x \<and> x < 256"
  shows "char_value sg (char_cast x) = x"
proof -
  have "of_char (char_cast x) = x mod 256 mod 256" by (simp add: char_cast_def)
  then have v: "of_char (char_cast x) = x mod 256" by simp
  show ?thesis
  proof (cases "sg \<and> x < 0")
    case True
    then have "x mod 256 = (x + 256) mod 256" and "0 \<le> x + 256" "x + 256 < 256"
      using assms by auto
    then have "x mod 256 = x + 256" by (simp only: mod_pos_pos_trivial)
    with True assms v show ?thesis by (simp add: char_value_def)
  next
    case False
    with assms have "x mod 256 = x" by (intro mod_pos_pos_trivial) (auto split: if_splits)
    with False assms v show ?thesis by (auto simp: char_value_def split: if_splits)
  qed
qed

lemma takeWhile_nul: "nul \<notin> set s \<Longrightarrow>
    takeWhile (\<lambda>c. c \<noteq> None \<and> c \<noteq> Some nul) (map Some s @ Some nul # r) = map Some s"
  by (induction s) auto

lemma c_string_nul:
  assumes "nul \<notin> set s"
  shows "c_string (map Some s @ Some nul # r) = Inr s"
  using takeWhile_nul [OF assms, of r]
  by (simp add: c_string_def Let_def comp_def nth_append)

lemma arr_get_line_buffer:
  "i < length line \<Longrightarrow> arr_get (line_buffer line rest) (int i) = Inr (line ! i)"
  by (simp add: arr_get_def line_buffer_def idx_def nth_append rd_cell_def)

section \<open>Streams of lines\<close>

definition fputs :: "string \<Rightarrow> string \<Rightarrow> string" where
  "fputs msg stream = stream @ msg"

text \<open>\<open>None\<close> is the end of the file, the result \<open>-1\<close> of \<open>getline\<close>.\<close>

definition getline :: "string \<Rightarrow> (string \<times> string) option" where
  "getline stream =
     (if stream = [] then None
      else let l = takeWhile (\<lambda>c. c \<noteq> newline) stream; r = dropWhile (\<lambda>c. c \<noteq> newline) stream
           in Some (l @ take 1 r, drop 1 r))"

text \<open>The loop \<open>while (getline(...) != -1)\<close> over a stream that has been closed by the writer.\<close>

function lines_of :: "string \<Rightarrow> string list" where
  "lines_of stream = (case getline stream of None \<Rightarrow> [] | Some (l, r) \<Rightarrow> l # lines_of r)"
  by auto
termination
proof (relation "measure length")
  fix stream l r p :: string and x assume "getline stream = Some x" "(l, r) = x"
  then have g: "getline stream = Some (l, r)" by simp
  have "length (dropWhile (\<lambda>c. c \<noteq> newline) stream) \<le> length stream"
    by (rule length_dropWhile_le)
  moreover have "stream \<noteq> []" and "r = drop 1 (dropWhile (\<lambda>c. c \<noteq> newline) stream)"
    using g by (auto simp: getline_def Let_def split: if_splits)
  ultimately show "(r, stream) \<in> measure length"
    by (cases "dropWhile (\<lambda>c. c \<noteq> newline) stream") auto
qed simp

declare lines_of.simps [simp del]

text \<open>A line is a text that ends with its only newline.\<close>

definition is_line :: "string \<Rightarrow> bool" where
  "is_line l \<longleftrightarrow> (\<exists>s. l = s @ [newline] \<and> newline \<notin> set s \<and> nul \<notin> set s)"

lemma while_line:
  "newline \<notin> set s \<Longrightarrow> takeWhile (\<lambda>c. c \<noteq> newline) (s @ newline # rest) = s"
  "newline \<notin> set s \<Longrightarrow> dropWhile (\<lambda>c. c \<noteq> newline) (s @ newline # rest) = newline # rest"
  by (induction s) auto

lemma getline_line:
  assumes "is_line l"
  shows "getline (l @ rest) = Some (l, rest)"
proof -
  obtain s where s: "l = s @ [newline]" "newline \<notin> set s" using assms by (auto simp: is_line_def)
  with while_line [of s rest] show ?thesis by (simp add: getline_def)
qed

lemma lines_of_lines: "\<forall>l\<in>set ls. is_line l \<Longrightarrow> lines_of (concat ls) = ls"
proof (induction ls)
  case Nil
  then show ?case by (simp add: lines_of.simps getline_def)
next
  case (Cons l ls)
  then show ?case by (simp add: lines_of.simps [of "l @ concat ls"] getline_line)
qed

section \<open>Messages as lines\<close>

text \<open>
  The contract of a message format: every message is one line, and decoding gives it back. Then
  a sequence of messages written to a stream one after the other is read back message by message.
\<close>

locale line_codec =
  fixes ok :: "'a \<Rightarrow> bool"
    and enc :: "'a \<Rightarrow> string"
    and dec :: "string \<Rightarrow> 'a"
  assumes enc_line: "ok x \<Longrightarrow> is_line (enc x)"
    and dec_enc: "ok x \<Longrightarrow> dec (enc x) = x"
begin

lemma stream_roundtrip:
  assumes "\<forall>x\<in>set xs. ok x"
  shows "map dec (lines_of (fold (\<lambda>x. fputs (enc x)) xs [])) = xs"
proof -
  have "fold (\<lambda>x. fputs (enc x)) xs s = s @ concat (map enc xs)" for s
    by (induction xs arbitrary: s) (simp_all add: fputs_def)
  then have "fold (\<lambda>x. fputs (enc x)) xs [] = concat (map enc xs)" by simp
  moreover have "lines_of (concat (map enc xs)) = map enc xs"
    using assms enc_line by (intro lines_of_lines) auto
  ultimately show ?thesis
    using assms dec_enc by (simp add: map_idI)
qed

lemma enc_injective: "ok x \<Longrightarrow> ok y \<Longrightarrow> enc x = enc y \<Longrightarrow> x = y"
  by (metis dec_enc)

lemma first_message: "ok x \<Longrightarrow> getline (enc x @ rest) = Some (enc x, rest)"
  by (intro getline_line enc_line)

end

end
