(* ===== verification/Encoding.thy ===== *)
theory Encoding
  imports C_Strings
begin

text \<open>
  \<open>src/server/encoding.c\<close>: the text form in which the server sends a cube to its clients.
  \<open>encode\<close> writes 54 colour characters, a newline
  and a NUL into the buffer of its caller and prints it; \<open>decode\<close> reads 54 characters.
\<close>

abbreviation (input) N_CHARACTERS_TO_ENCODE_CUBE :: nat where "N_CHARACTERS_TO_ENCODE_CUBE \<equiv> 56"

section \<open>The two functions\<close>

definition encode_square :: "addr \<Rightarrow> nat \<Rightarrow> nat \<Rightarrow> char cell list \<Rightarrow> (mem, char cell list) prog" where
  "encode_square to_encode i j result =
     bindM (get_face to_encode (int i)) (\<lambda>f.
     bindM (get_color f (int j)) (\<lambda>c.
     bindM (liftM (c_int (48 + c))) (\<lambda>x.
     liftM (arr_set result (int (i * N_SQUARES_PER_FACE + j)) (char_cast x)))))"

definition encode :: "addr \<Rightarrow> char cell list \<Rightarrow> (mem, int \<times> char cell list) prog" where
  "encode to_encode result =
     bindM (for_fold [0..<N_FACES] (\<lambda>i.
       for_fold [0..<N_SQUARES_PER_FACE] (\<lambda>j. encode_square to_encode i j)) result) (\<lambda>result.
     bindM (liftM (arr_set result (int (N_CHARACTERS_TO_ENCODE_CUBE - 2)) newline)) (\<lambda>result.
     bindM (liftM (arr_set result (int (N_CHARACTERS_TO_ENCODE_CUBE - 1)) nul)) (\<lambda>result.
     thenM (print ''Inside of encode, the result is '')
    (bindM (liftM (c_string result)) (\<lambda>s.
     thenM (print (s @ [newline]))
    (returnM (0, result)))))))"

definition decode_square :: "bool \<Rightarrow> addr \<Rightarrow> char cell list \<Rightarrow> nat \<Rightarrow> nat \<Rightarrow> (mem, unit) prog" where
  "decode_square signed_char result to_decode i j =
     bindM (get_face result (int i)) (\<lambda>f.
     bindM (liftM (arr_get to_decode (int (i * N_SQUARES_PER_FACE + j)))) (\<lambda>c.
     set_color f (int j) (char_value signed_char c - 48)))"

definition decode :: "bool \<Rightarrow> addr \<Rightarrow> char cell list \<Rightarrow> (mem, unit) prog" where
  "decode signed_char result to_decode =
     for_each [0..<N_FACES] (\<lambda>i. for_each [0..<N_SQUARES_PER_FACE] (\<lambda>j.
       decode_square signed_char result to_decode i j))"

section \<open>What encode writes\<close>

definition color_char :: "int \<Rightarrow> char" where
  "color_char c = char_cast (48 + c)"

definition cube_text :: "face_val list \<Rightarrow> string" where
  "cube_text V = map (\<lambda>s. color_char (view V s)) stickers"

definition colors_fit :: "face_val list \<Rightarrow> bool" where
  "colors_fit V \<longleftrightarrow> (\<forall>s\<in>set stickers. INT_MIN - 48 \<le> view V s \<and> view V s \<le> INT_MAX - 48)"

lemma length_stickers [simp]: "length stickers = 54"
  by (simp add: stickers_def)

lemma nth_stickers: "k < 54 \<Longrightarrow> stickers ! k = (k div 9, k mod 9)"
  by (simp add: stickers_upt)

lemma sticker_index: "k < 54 \<Longrightarrow> k div 9 < N_FACES \<and> k mod 9 < N_SQUARES_PER_FACE"
  by auto

lemma length_cube_text [simp]: "length (cube_text V) = 54"
  by (simp add: cube_text_def)

lemma nth_cube_text: "k < 54 \<Longrightarrow> cube_text V ! k = color_char (view V (k div 9, k mod 9))"
  by (simp add: cube_text_def nth_stickers)

text \<open>Both loops of the two functions, as one loop over the 54 characters.\<close>

abbreviation encode_loop :: "addr \<Rightarrow> char cell list \<Rightarrow> (mem, char cell list) prog" where
  "encode_loop p \<equiv> for_fold [0..<N_FACES] (\<lambda>i. for_fold [0..<N_SQUARES_PER_FACE]
     (\<lambda>j. encode_square p i j))"

lemma encode_loop_flat:
  "encode_loop p buf h = for_fold [0..<54] (\<lambda>k. encode_square p (k div 9) (k mod 9)) buf h"
  unfolding for_fold_nested stickers_def [symmetric] stickers_upt for_fold_map by simp

lemma decode_flat:
  "decode sg q buf = for_each [0..<54] (\<lambda>k. decode_square sg q buf (k div 9) (k mod 9))"
  unfolding decode_def for_each_nested stickers_def [symmetric] stickers_upt for_each_map by simp

lemma encode_square_eq:
  assumes c: "cube_at h p L V" and k: "k < 54" and x: "colors_fit V"
  shows "encode_square p (k div 9) (k mod 9) buf h =
    (case arr_set buf (int k) (cube_text V ! k) of
       Inl e \<Rightarrow> Inl e | Inr buf' \<Rightarrow> Inr (buf', h))"
proof -
  let ?i = "k div 9" and ?j = "k mod 9"
  have i: "?i < N_FACES" and j: "?j < N_SQUARES_PER_FACE" using k by auto
  have f: "get_face p (int ?i) h = Inr (fst (L ! ?i), h)"
    using get_face_wp [OF c i, of "\<lambda>q h'. q = fst (L ! ?i) \<and> h' = h"] by (simp only: runs_to_eq)
  have col: "get_color (fst (L ! ?i)) (int ?j) h = Inr (view V (?i, ?j), h)"
    using get_color_wp [OF cube_at_face [OF c i] j, of "\<lambda>q h'. q = view V (?i, ?j) \<and> h' = h"]
    by (simp only: runs_to_eq) (simp add: view_def)
  have "(?i, ?j) \<in> set stickers" using i j by (simp only: in_stickers fst_conv snd_conv)
  then have fits: "c_int (48 + view V (?i, ?j)) = Inr (48 + view V (?i, ?j))"
    using x by (auto simp: colors_fit_def c_int_def)
  have "?i * N_SQUARES_PER_FACE + ?j = k" by simp
  then show ?thesis
    by (simp only: encode_square_def bindM_apply liftM_apply f col fits sum.case fst_conv snd_conv
      nth_cube_text [OF k] color_char_def)
qed

text \<open>\<open>k\<close> characters are written.\<close>

definition filled :: "face_val list \<Rightarrow> char cell list \<Rightarrow> nat \<Rightarrow> char cell list" where
  "filled V buf k = map Some (take k (cube_text V)) @ drop k buf"

lemma filled_step:
  assumes "k < 54" and "k < length buf"
  shows "(filled V buf k)[k := Some (cube_text V ! k)] = filled V buf (Suc k)"
  using assms by (simp add: filled_def list_update_append take_Suc_conv_app_nth
    Cons_nth_drop_Suc [symmetric])

lemma length_filled [simp]: "k \<le> 54 \<Longrightarrow> k \<le> length buf \<Longrightarrow> length (filled V buf k) = length buf"
  by (simp add: filled_def)

lemma encode_step:
  assumes c: "cube_at h p L V" and k: "k < 54" and x: "colors_fit V" and n: "k < length buf"
    and b: "b = filled V buf k \<and> g = h"
  shows "runs_to (encode_square p (k div 9) (k mod 9) b) g (\<lambda>b g. b = filled V buf (Suc k) \<and> g = h)"
  using b n k filled_step [OF k n, of V]
  by (simp add: runs_to_def encode_square_eq [OF c k x])

lemma encode_loop_eq:
  assumes c: "cube_at h p L V" and x: "colors_fit V" and n: "54 \<le> length buf"
  shows "encode_loop p buf h = Inr (filled V buf 54, h)"
proof -
  have "runs_to (for_fold [0..<54] (\<lambda>k. encode_square p (k div 9) (k mod 9)) buf) h
      (\<lambda>b g. b = filled V buf 54 \<and> g = h)"
    using n by (intro runs_to_for_local [where I = "\<lambda>k b g. b = filled V buf k \<and> g = h"]
      encode_step [OF c _ x]) (auto simp: filled_def)
  then show ?thesis by (simp only: runs_to_eq encode_loop_flat)
qed

lemma encode_loop_short:
  assumes c: "cube_at h p L V" and x: "colors_fit V" and n: "length buf < 54"
  shows "encode_loop p buf h = Inl Out_Of_Bounds"
  unfolding encode_loop_flat
proof (rule for_fold_fails [where I = "\<lambda>k b g. b = filled V buf k \<and> g = h", OF _ n])
  show "buf = filled V buf 0 \<and> h = h" by (simp add: filled_def)
next
  fix k b g assume k: "k < length buf" and b: "b = filled V buf k \<and> g = h"
  show "runs_to (encode_square p (k div 9) (k mod 9) b) g (\<lambda>b g. b = filled V buf (Suc k) \<and> g = h)"
    using k n by (intro encode_step [OF c _ x k b]) simp
next
  fix b g assume "b = filled V buf (length buf) \<and> g = h"
  then show "encode_square p (length buf div 9) (length buf mod 9) b g = Inl Out_Of_Bounds"
    using n by (simp add: encode_square_eq [OF c n x] arr_set_out)
qed

text \<open>The message as the receiver sees it: the 54 characters and the newline.\<close>

definition cube_line :: "face_val list \<Rightarrow> string" where
  "cube_line V = cube_text V @ [newline]"

definition printed :: "string \<Rightarrow> mem \<Rightarrow> mem" where
  "printed s h = h\<lparr>stdout := stdout h @ s\<rparr>"

lemma cube_in_printed [simp]: "cube_in (printed t h) p V \<longleftrightarrow> cube_in h p V"
  by (simp add: cube_in_def wf_mem_def mem_ok_def live_def one_type_def cube_at_def face_at_def
    adj_at_def printed_def)

lemma encode_wp:
  assumes c: "cube_at h p L V" and x: "colors_fit V" and n: "56 \<le> length buf"
    and z: "nul \<notin> set (cube_text V)"
  shows "encode p buf h = Inr ((0, line_buffer (cube_line V) (drop 56 buf)),
    printed (''Inside of encode, the result is '' @ cube_line V @ [newline]) h)"
proof -
  have loop: "encode_loop p buf h = Inr (filled V buf 54, h)"
    using n by (intro encode_loop_eq [OF c x]) simp
  have w: "filled V buf 54 = map Some (cube_text V) @ buf ! 54 # buf ! 55 # drop 56 buf"
    using n by (simp add: filled_def Cons_nth_drop_Suc [symmetric])
  let ?b = "line_buffer (cube_line V) (drop 56 buf)"
  have 1: "arr_set (filled V buf 54) 54 newline =
      Inr (map Some (cube_text V) @ Some newline # buf ! 55 # drop 56 buf)"
    by (simp add: arr_set_def w list_update_append)
  have 2: "arr_set (map Some (cube_text V) @ Some newline # buf ! 55 # drop 56 buf) 55 nul = Inr ?b"
    by (simp add: arr_set_def cube_line_def line_buffer_def list_update_append)
  have 3: "c_string ?b = Inr (cube_line V)"
    using z unfolding line_buffer_def by (intro c_string_nul) (simp add: cube_line_def)
  show ?thesis
    by (simp add: encode_def prog_simps loop 1 2 3 print_def printed_def)
qed

lemma encode_short_buffer:
  assumes c: "cube_at h p L V" and x: "colors_fit V" and n: "length buf < 56"
  shows "encode p buf h = Inl Out_Of_Bounds"
proof (cases "54 \<le> length buf")
  case True
  show ?thesis
    using n True by (simp add: encode_def prog_simps encode_loop_eq [OF c x True] arr_set_def)
next
  case False
  then have "length buf < 54" by simp
  then show ?thesis
    by (simp add: encode_def prog_simps encode_loop_short [OF c x])
qed

section \<open>What decode reads\<close>

definition painted :: "(nat \<Rightarrow> int) \<Rightarrow> nat \<Rightarrow> face_val list \<Rightarrow> face_val list" where
  "painted g k W = fold (\<lambda>k. set_sq (k div 9) (k mod 9) (g k)) [0..<k] W"

definition text_colors :: "bool \<Rightarrow> string \<Rightarrow> nat \<Rightarrow> int" where
  "text_colors signed_char line k = char_value signed_char (line ! k) - 48"

definition decoded :: "bool \<Rightarrow> string \<Rightarrow> face_val list \<Rightarrow> face_val list" where
  "decoded signed_char line W = painted (text_colors signed_char line) 54 W"

lemma painted_Suc: "painted g (Suc k) W = set_sq (k div 9) (k mod 9) (g k) (painted g k W)"
  by (simp add: painted_def)

lemma std_set_sq: "std W \<Longrightarrow> std (set_sq i j x W)"
proof (cases "i < length W")
  case True
  assume W: "std W"
  then have "length (fst (W ! i)) = N_SQUARES_PER_FACE" using True by (simp add: std_def)
  moreover have "map snd (set_sq i j x W) = map snd W"
    using True by (simp add: set_sq_def map_update list_update_same_conv)
  ultimately show ?thesis
    using W set_update_subset_insert [of W i "((fst (W ! i))[j := x], snd (W ! i))"]
    by (auto simp: std_def set_sq_def)
qed (simp add: set_sq_def list_update_beyond)

lemma std_painted: "std W \<Longrightarrow> std (painted g k W)"
  by (induction k) (simp_all add: painted_Suc std_set_sq, simp add: painted_def)

lemma view_set_sq:
  assumes "std W" and "s \<in> set stickers"
  shows "view (set_sq i j x W) s = (if s = (i, j) then x else view W s)"
  using assms std_length [OF assms(1)] std_face(1) [OF assms(1), of "fst s"]
  by (cases s; cases "i = fst s") (auto simp: view_def set_sq_def nth_list_update in_stickers)

lemma sticker_number:
  assumes "s \<in> set stickers"
  shows "fst s * 9 + snd s < 54" and "(fst s * 9 + snd s) div 9 = fst s"
    and "(fst s * 9 + snd s) mod 9 = snd s"
proof -
  have s: "fst s < N_FACES" "snd s < N_SQUARES_PER_FACE" using assms by (simp_all add: in_stickers)
  then show "fst s * 9 + snd s < 54" by linarith
  show "(fst s * 9 + snd s) div 9 = fst s" "(fst s * 9 + snd s) mod 9 = snd s"
    using s(2) by simp_all
qed

lemma view_painted:
  assumes W: "std W" and s: "s \<in> set stickers"
  shows "view (painted g k W) s = (if fst s * 9 + snd s < k then g (fst s * 9 + snd s) else view W s)"
proof (induction k)
  case (Suc k)
  have "s = (k div 9, k mod 9) \<longleftrightarrow> fst s * 9 + snd s = k"
    using sticker_number(2,3) [OF s] by (metis div_mult_mod_eq fst_conv prod.collapse snd_conv)
  with Suc show ?case
    using view_set_sq [OF std_painted [OF W] s] by (auto simp: painted_Suc)
qed (simp add: painted_def)

lemma decode_square_wp:
  assumes g: "cube_at g q L W" and k: "k < 54" and n: "k < length line"
  shows "runs_to (decode_square sg q (line_buffer line rest) (k div 9) (k mod 9)) g (\<lambda>_ g'.
    cube_at g' q L (set_sq (k div 9) (k mod 9) (text_colors sg line k) W) \<and>
    unchanged (set (cube_addrs q L)) g g' \<and> same_alloc g g')"
proof -
  have i: "k div 9 < N_FACES" and j: "k mod 9 < N_SQUARES_PER_FACE" using k by auto
  have "int (k div 9 * N_SQUARES_PER_FACE + k mod 9) = int k" by simp
  then have rd: "arr_get (line_buffer line rest)
      (int (k div 9 * N_SQUARES_PER_FACE + k mod 9)) = Inr (line ! k)"
    using n by (simp only: arr_get_line_buffer)
  show ?thesis
    using set_color_cube_wp [OF g i j]
    by (simp only: decode_square_def runs_to_bind get_face_wp [OF g i] runs_to_lift rd
      text_colors_def sum.inject ex_simps simp_thms)
qed

lemma decode_wp:
  assumes c: "cube_at h q L W" and n: "54 \<le> length line"
  shows "runs_to (decode sg q (line_buffer line rest)) h (\<lambda>_ g.
    cube_at g q L (decoded sg line W) \<and> unchanged (set (cube_addrs q L)) h g \<and> same_alloc h g)"
proof -
  let ?I = "\<lambda>k g. cube_at g q L (painted (text_colors sg line) k W) \<and>
    unchanged (set (cube_addrs q L)) h g \<and> same_alloc h g"
  have "runs_to (decode sg q (line_buffer line rest)) h (\<lambda>_. ?I 54)"
    unfolding decode_flat
  proof (rule runs_to_for [where I = ?I])
    show "?I 0 h" using c by (simp add: painted_def)
  next
    fix k g assume k: "k < (54::nat)" and I: "?I k g"
    then have g: "cube_at g q L (painted (text_colors sg line) k W)" by simp
    have l: "k < length line" using k n by simp
    show "runs_to (decode_square sg q (line_buffer line rest) (k div 9) (k mod 9)) g (\<lambda>_. ?I (Suc k))"
      unfolding painted_Suc
      by (rule runs_to_mono [OF decode_square_wp [OF g k l]])
        (use I in \<open>auto intro: same_alloc_trans dest: unchanged_trans\<close>)
  qed
  then show ?thesis by (simp add: decoded_def)
qed

lemma keeps_decode_square [keeps_intro]: "keeps (decode_square sg q buf i j)"
  unfolding decode_square_def by (intro keeps_intro)

lemma keeps_decode [keeps_intro]: "keeps (decode sg q buf)"
  unfolding decode_def decode_square_def by (intro keeps_intro)

section \<open>The round trip\<close>

text \<open>The colours for which the character is not cut: all of \<open>'0' + c\<close> must be a \<open>char\<close>.\<close>

definition codable :: "bool \<Rightarrow> int \<Rightarrow> bool" where
  "codable signed_char c \<longleftrightarrow>
     (if signed_char then - 176 \<le> c \<and> c < 80 else - 48 \<le> c \<and> c < 208)"

lemma text_colors_cube_line:
  assumes "k < 54" and "codable sg (view V (k div 9, k mod 9))"
  shows "text_colors sg (cube_line V) k = view V (k div 9, k mod 9)"
  using assms char_value_cast [of sg "48 + view V (k div 9, k mod 9)"]
  by (auto simp: text_colors_def cube_line_def nth_append nth_cube_text color_char_def codable_def
    split: if_splits)

lemma decoded_cube_line:
  assumes V: "std V" and W: "std W" and c: "\<forall>s\<in>set stickers. codable sg (view V s)"
  shows "decoded sg (cube_line V) W = V"
proof (rule std_eqI [OF _ V])
  show "std (decoded sg (cube_line V) W)" unfolding decoded_def by (rule std_painted [OF W])
  fix s assume s: "s \<in> set stickers"
  let ?k = "fst s * 9 + snd s"
  note k = sticker_number [OF s]
  have "text_colors sg (cube_line V) ?k = view V s"
    using text_colors_cube_line [OF k(1), of sg V] c s unfolding k by simp
  then show "view (decoded sg (cube_line V) W) s = view V s"
    using k by (simp add: decoded_def view_painted [OF W s])
qed

text \<open>Codable colours fit into the \<open>int\<close> and the \<open>char\<close>, and the text has no NUL in it.\<close>

lemma codable_text:
  assumes "\<forall>s\<in>set stickers. codable sg (view V s) \<and> view V s \<noteq> - 48"
  shows "colors_fit V" and "nul \<notin> set (cube_text V)"
proof -
  show "colors_fit V"
    using assms by (fastforce simp: colors_fit_def codable_def INT_MIN_def INT_MAX_def split: if_splits)
  have "color_char (view V s) \<noteq> nul" if s: "s \<in> set stickers" for s
  proof
    assume n: "color_char (view V s) = nul"
    have "char_value sg (color_char (view V s)) = 48 + view V s"
      using assms s unfolding color_char_def
      by (intro char_value_cast) (auto simp: codable_def split: if_splits)
    then have "view V s = - 48" by (simp add: n char_value_def)
    then show False using assms s by blast
  qed
  then show "nul \<notin> set (cube_text V)" unfolding cube_text_def set_map by (metis imageE)
qed

end
