(* ===== verification/Server_Commands.thy ===== *)
theory Server_Commands
  imports Encoding
begin

text \<open>
  \<open>interpret_command\<close> and \<open>decode_user_input\<close> of \<open>src/server/rubiks_server.c\<close>: what a line from
  a client does to the global cube. The two characters of the line are not checked; the lemmas
  say what every line does, the invalid ones included.
\<close>

section \<open>The code\<close>

text \<open>The loop that replaces every face by a new one.\<close>

definition reset_faces :: "addr \<Rightarrow> (mem, unit) prog" where
  "reset_faces global_cube_state =
     for_each [0..<N_FACES] (\<lambda>i.
       thenM (bindM (get_face global_cube_state (int i)) free_face)
       (bindM (make_face (int i)) (set_face global_cube_state (int i))))"

text \<open>What the platform and the C library decide: the signedness of \<open>char\<close>, the numbers of
  \<open>rand_r\<close>, the order in which the arguments of a call are evaluated.\<close>

record platform =
  signed_char :: bool
  rand_r :: rng
  face_first :: bool

definition decode_user_input :: "platform \<Rightarrow> seed \<Rightarrow> char cell list \<Rightarrow> addr \<Rightarrow> (mem, unit) prog" where
  "decode_user_input pf now command global_cube_state =
     bindM (liftM (arr_get command 0)) (\<lambda>c0.
     bindM (liftM (arr_get command 1)) (\<lambda>c1.
     let face_num = char_value (signed_char pf) c0 - 48;
         direction = char_value (signed_char pf) c1 - 48
     in if direction = 2 then
          bindM (is_solved global_cube_state) (\<lambda>s.
            if s \<noteq> 0 then shuffle (rand_r pf) (face_first pf) now global_cube_state MIN_DEPTH MAX_DEPTH
            else reset_faces global_cube_state)
        else rotate_cube global_cube_state face_num direction))"

section \<open>Replacing the faces\<close>

lemma face_at_cube_heap [simp]: "face_at (cube_heap_update f h) q as v \<longleftrightarrow> face_at h q as v"
  by (simp add: face_at_def adj_at_def)

lemma distinct_replace:
  assumes d: "distinct (p # concat L)" and i: "i < length L"
    and x: "distinct xs" "set xs \<inter> set (p # concat L) = {}"
  shows "distinct (p # concat (L[i := xs]))"
proof -
  have L: "L = take i L @ L ! i # drop (Suc i) L" using i by (rule id_take_nth_drop)
  have "concat L = concat (take i L) @ L ! i @ concat (drop (Suc i) L)"
    by (subst L) simp
  moreover have "concat (L[i := xs]) = concat (take i L) @ xs @ concat (drop (Suc i) L)"
    using i by (simp add: upd_conv_take_nth_drop)
  ultimately show ?thesis using d x by auto
qed

lemma set_new_face_wp:
  assumes c: "cube_at g p L W" and i: "i < N_FACES"
    and u: "unchanged X g h" and X: "X \<inter> set (cube_addrs p L) \<subseteq> set (face_addrs (L ! i))"
    and f: "face_at h q as v" and new: "set (q # as) \<inter> set (cube_addrs p L) = {}"
  shows "runs_to (set_face p (int i) q) h (\<lambda>_ h'.
    cube_at h' p (L[i := (q, as)]) (W[i := v]) \<and> same_alloc h h')"
proof -
  have len: "length L = N_FACES" "length W = N_FACES" and d: "distinct (cube_addrs p L)"
    using c by (simp_all add: cube_at_def)
  note ad = cube_face_addrs [OF c i]
  have "p \<in> set (cube_addrs p L)" by (simp add: cube_addrs_def)
  then have pX: "p \<notin> X" using X ad(1) by blast
  have old: "face_at h (fst (L ! k)) (snd (L ! k)) (W ! k)" if k: "k < N_FACES" "k \<noteq> i" for k
  proof (rule face_at_frame [OF cube_at_face [OF c k(1)] u])
    have "set (face_addrs (L ! k)) \<subseteq> set (cube_addrs p L)"
      using k len by (intro face_addrs_subset) simp
    then show "set (fst (L ! k) # snd (L ! k)) \<inter> X = {}"
      using X ad(2) [OF k] unfolding face_addrs_def list.set by blast
  qed
  have heap: "cube_heap h p = Some \<lparr>faces = map (Some \<circ> fst) L\<rparr>"
    using c unchangedD(3) [OF u pX] by (simp add: cube_at_def)
  let ?h = "cube_heap_update (\<lambda>m. m(p \<mapsto> \<lparr>faces = map (Some \<circ> fst) (L[i := (q, as)])\<rparr>)) h"
  have "distinct (q # as)" using f by (simp add: face_at_def)
  then have "distinct (p # concat ((map face_addrs L)[i := q # as]))"
    using d i len new unfolding cube_addrs_def by (intro distinct_replace) simp_all
  moreover have "(map face_addrs L)[i := q # as] = map face_addrs (L[i := (q, as)])"
    by (simp add: map_update face_addrs_def)
  ultimately have "distinct (cube_addrs p (L[i := (q, as)]))"
    by (simp only: cube_addrs_def)
  moreover have "face_at ?h (fst (L[i := (q, as)] ! k)) (snd (L[i := (q, as)] ! k)) (W[i := v] ! k)"
    if "k < N_FACES" for k
    using old [OF that] f len i that by (cases "k = i")
      (simp_all only: face_at_cube_heap nth_list_update_eq nth_list_update_neq fst_conv snd_conv simp_thms)
  ultimately have "cube_at ?h p (L[i := (q, as)]) (W[i := v])"
    using c len by (simp add: cube_at_def)
  moreover have "runs_to (set_face p (int i) q) h Q \<longleftrightarrow> Q () ?h" for Q
    using c heap i len by (simp add: set_face_def heap_wp cube_at_def map_update)
  ultimately show ?thesis by (simp add: same_alloc_def)
qed

text \<open>\<open>i\<close> faces are new.\<close>

definition resetting :: "mem \<Rightarrow> addr \<Rightarrow> face_val list \<Rightarrow> nat \<Rightarrow> mem \<Rightarrow> bool" where
  "resetting h p V i g \<longleftrightarrow> wf_mem g \<and> (\<exists>L. cube_at g p L (take i solved_val @ drop i V)) \<and>
     quota h = quota g + 5 * i \<and> stdout g = stdout h"

lemma length_solved_val [simp]: "length solved_val = N_FACES"
  by (simp add: solved_val_def)

lemma reset_step:
  assumes i: "i < N_FACES" and V: "length V = N_FACES" and quota: "5 \<le> quota g"
    and I: "resetting h p V i g"
  shows "runs_to (thenM (bindM (get_face p (int i)) free_face)
    (bindM (make_face (int i)) (set_face p (int i)))) g (\<lambda>_. resetting h p V (Suc i))"
proof -
  let ?W = "take i solved_val @ drop i V"
  obtain L where wf: "wf_mem g" and c: "cube_at g p L ?W" using I by (auto simp: resetting_def)
  let ?q = "fst (L ! i)" and ?as = "snd (L ! i)"
  have f: "face_raw g ?q ?as" by (rule face_at_raw [OF cube_at_face [OF c i]])
  obtain g1 where 1: "free_face ?q g = Inr ((), g1)" and rel: "released (set (?q # ?as)) g g1"
    using free_face_wp [OF f] wf_one_type [OF wf] by (auto elim!: runs_toE)
  have wf1: "wf_mem g1" by (rule keepsD [OF keeps_free_face wf 1])
  have u1: "unchanged (set (?q # ?as)) g g1" and a1: "same_alloc g g1"
    using rel by (simp_all add: released_def)
  have nn: "next_addr g1 \<noteq> NULL" using wf1 by (simp add: wf_mem_def mem_ok_def)
  have q5: "5 \<le> quota g1" using quota a1 by (simp add: same_alloc_def)
  let ?n = "next_addr g1"
  obtain g2 where 2: "make_face (int i) g1 = Inr (?n, g2)"
    and fn: "face_at g2 ?n [?n + 1..<5 + ?n] (face_of i)" and al: "allocated 5 g1 g2"
    using make_face_of_wp [OF i q5 nn] by (auto elim!: runs_toE)
  have wf2: "wf_mem g2" by (rule keepsD [OF keeps_make_face wf1 2])
  have u2: "unchanged {?n..<?n + 5} g1 g2" using al by (simp add: allocated_def)
  have below: "a < ?n" if "a \<in> set (cube_addrs p L)" for a
    using cube_at_live [OF c] wf a1 that by (auto simp: wf_mem_def same_alloc_def)
  have "set (?q # ?as) = set (face_addrs (L ! i))" by (simp add: face_addrs_def)
  then have X: "(set (?q # ?as) \<union> {?n..<?n + 5}) \<inter> set (cube_addrs p L) \<subseteq> set (face_addrs (L ! i))"
    using below by force
  have "set (?n # [?n + 1..<5 + ?n]) \<inter> set (cube_addrs p L) = {}" using below by force
  from set_new_face_wp [OF c i unchanged_trans [OF u1 u2] X fn this]
  obtain g3 where 3: "set_face p (int i) ?n g2 = Inr ((), g3)"
    and c3: "cube_at g3 p (L[i := (?n, [?n + 1..<5 + ?n])]) (?W[i := face_of i])"
    and a3: "same_alloc g2 g3"
    by (auto elim!: runs_toE)
  have wf3: "wf_mem g3" by (rule keepsD [OF keeps_access(2) wf2 3])
  have "?W[i := solved_val ! i] = take (Suc i) solved_val @ drop (Suc i) V"
    using i V by (intro take_drop_update) simp_all
  then have "?W[i := face_of i] = take (Suc i) solved_val @ drop (Suc i) V"
    using i by (simp add: solved_val_def)
  with c3 have "\<exists>L. cube_at g3 p L (take (Suc i) solved_val @ drop (Suc i) V)" by auto
  moreover have "quota h = quota g3 + 5 * Suc i" "stdout g3 = stdout h"
    using I a1 a3 al by (auto simp: resetting_def same_alloc_def allocated_def)
  moreover have "get_face p (int i) g = Inr (?q, g)"
    using get_face_wp [OF c i, of "\<lambda>x s. x = ?q \<and> s = g"] by (simp add: runs_to_eq)
  ultimately show ?thesis
    using wf3 by (simp add: runs_to_def prog_simps 1 2 3 resetting_def)
qed

lemma resetting_0: "cube_in h p V \<Longrightarrow> resetting h p V 0 h"
  by (simp add: resetting_def cube_in_def)

lemma reset_faces_wp:
  assumes h: "cube_in h p V" and quota: "30 \<le> quota h"
  shows "runs_to (reset_faces p) h (\<lambda>_ h'. cube_in h' p solved_val \<and> quota h = quota h' + 30)"
proof -
  have V: "length V = N_FACES" using h by (simp add: cube_in_def std_length)
  have "runs_to (reset_faces p) h (\<lambda>_. resetting h p V N_FACES)"
    unfolding reset_faces_def
  proof (rule runs_to_for [where I = "resetting h p V", OF resetting_0 [OF h]])
    fix i g assume i: "i < N_FACES" and I: "resetting h p V i g"
    moreover have "5 \<le> quota g" using I i quota by (simp add: resetting_def)
    ultimately show "runs_to (thenM (bindM (get_face p (int i)) free_face)
        (bindM (make_face (int i)) (set_face p (int i)))) g (\<lambda>_. resetting h p V (Suc i))"
      by (rule_tac reset_step [OF _ V]) simp_all
  qed
  then show ?thesis
    by (rule runs_to_mono) (use V in \<open>auto simp: resetting_def cube_in_def std_solved\<close>)
qed

text \<open>Without room for thirty objects the loop reaches a face that \<open>make_face\<close> cannot make.\<close>

lemma reset_no_room:
  assumes h: "cube_in h p V" and quota: "quota h < 30"
  shows "reset_faces p h = Inl Null_Deref"
proof -
  let ?k = "quota h div 5"
  let ?body = "\<lambda>i. thenM (bindM (get_face p (int i)) free_face)
    (bindM (make_face (int i)) (set_face p (int i)))"
  have V: "length V = N_FACES" using h by (simp add: cube_in_def std_length)
  have k: "?k < N_FACES" using quota by auto
  show ?thesis
    unfolding reset_faces_def
  proof (rule for_each_fails [where I = "resetting h p V", OF resetting_0 [OF h] k])
    fix i g assume "i < ?k" and I: "resetting h p V i g"
    then have "i < N_FACES" and "5 \<le> quota g" using k by (auto simp: resetting_def)
    then show "runs_to (?body i) g (\<lambda>_. resetting h p V (Suc i))" by (rule reset_step [OF _ V _ I])
  next
    fix g assume I: "resetting h p V ?k g"
    then obtain L W where wf: "wf_mem g" and c: "cube_at g p L W" by (auto simp: resetting_def)
    let ?q = "fst (L ! ?k)"
    obtain g1 where 1: "free_face ?q g = Inr ((), g1)"
      and rel: "released (set (?q # snd (L ! ?k))) g g1"
      using free_face_wp [OF face_at_raw [OF cube_at_face [OF c k]]] wf_one_type [OF wf]
      by (auto elim!: runs_toE)
    have "wf_mem g1" by (rule keepsD [OF keeps_free_face wf 1])
    moreover have "quota g1 < 5" using I rel by (auto simp: resetting_def released_def same_alloc_def)
    ultimately have "make_face (int ?k) g1 = Inl Null_Deref"
      using k by (intro make_face_of_null) (simp_all add: wf_mem_def mem_ok_def)
    moreover have "get_face p (int ?k) g = Inr (?q, g)"
      using get_face_wp [OF c k, of "\<lambda>x s. x = ?q \<and> s = g"] by (simp only: runs_to_eq)
    ultimately show "?body ?k g = Inl Null_Deref" by (simp add: prog_simps 1)
  qed
qed

section \<open>What a line means\<close>

datatype command = Turn nat bool | Toggle | Bad

text \<open>A line of one character (the last one of a stream may have no newline) is followed by the
  NUL that ends the string.\<close>

definition command_of :: "bool \<Rightarrow> string \<Rightarrow> command" where
  "command_of sg line =
     (let f = char_value sg (line ! 0) - 48; d = char_value sg ((line @ [nul]) ! 1) - 48
      in if d = 2 then Toggle else if 0 \<le> f \<and> f < int N_FACES then Turn (nat f) (d = 0) else Bad)"

text \<open>The specification: how the contents of the global cube may change on a command.\<close>

definition obeys :: "command \<Rightarrow> face_val list \<Rightarrow> face_val list \<Rightarrow> bool" where
  "obeys c V V' = (case c of
     Turn f cw \<Rightarrow> V' = apply_turn (f, cw) V
   | Toggle \<Rightarrow> if solved_colors V
       then \<exists>ms. 20 \<le> length ms \<and> length ms \<le> 30 \<and> (\<forall>m\<in>set ms. valid_turn m) \<and> V' = fold apply_turn ms V
       else V' = solved_val
   | Bad \<Rightarrow> False)"

lemma arr_get_line01:
  assumes "line \<noteq> []"
  shows "arr_get (line_buffer line rest) 0 = Inr (line ! 0)"
    and "arr_get (line_buffer line rest) 1 = Inr ((line @ [nul]) ! 1)"
  using assms by (cases line; cases "tl line"; simp add: arr_get_def line_buffer_def idx_def rd_cell_def)+

lemma decode_user_input_eq:
  assumes "line \<noteq> []" and "cube_in h p V"
  shows "decode_user_input pf now (line_buffer line rest) p h =
    (case command_of (signed_char pf) line of
       Toggle \<Rightarrow> if solved_colors V then shuffle (rand_r pf) (face_first pf) now p MIN_DEPTH MAX_DEPTH h
         else reset_faces p h
     | Turn f cw \<Rightarrow> rotate_cube p (int f) (char_value (signed_char pf) ((line @ [nul]) ! 1) - 48) h
     | Bad \<Rightarrow> rotate_cube p (char_value (signed_char pf) (line ! 0) - 48)
         (char_value (signed_char pf) ((line @ [nul]) ! 1) - 48) h)"
  by (simp add: decode_user_input_def command_of_def Let_def prog_simps arr_get_line01 [OF assms(1)]
    lib.solved_law [OF assms(2)])

section \<open>Every line, right or wrong\<close>

text \<open>
  A proper command, with memory for the longest shuffle (thirty rotations of 31 objects), does
  what the specification says; an improper one reads outside the array of faces.
\<close>

lemma decode_user_input_wp:
  assumes rng: "rng_ok (rand_r pf)" and line: "line \<noteq> []" and h: "cube_in h p V"
    and quota: "930 \<le> quota h" and c: "command_of (signed_char pf) line \<noteq> Bad"
  shows "runs_to (decode_user_input pf now (line_buffer line rest) p) h
    (\<lambda>_ h'. (\<exists>V'. obeys (command_of (signed_char pf) line) V V' \<and> cube_in h' p V') \<and> quota h \<le> quota h' + 930)"
proof (cases "command_of (signed_char pf) line")
  case (Turn f cw)
  have f: "f < N_FACES" and cw: "cw \<longleftrightarrow> char_value (signed_char pf) ((line @ [nul]) ! 1) - 48 = 0"
    using Turn by (auto simp: command_of_def Let_def nat_less_iff split: if_splits)
  have "31 \<le> quota h" using quota by simp
  from rotate_cube_in [OF h this f, of "char_value (signed_char pf) ((line @ [nul]) ! 1) - 48"]
  show ?thesis
    by (auto simp: runs_to_def decode_user_input_eq [OF line h] Turn obeys_def cw split: sum.splits)
next
  case Toggle
  show ?thesis
  proof (cases "solved_colors V")
    case True
    have "31 * nat MAX_DEPTH \<le> quota h" using quota by simp
    then obtain ms where ms: "20 \<le> length ms" "length ms \<le> 30" "\<forall>m\<in>set ms. valid_turn m"
      and run: "runs_to (shuffle (rand_r pf) (face_first pf) now p MIN_DEPTH MAX_DEPTH) h
        (\<lambda>_ h'. cube_in h' p (fold apply_turn ms V) \<and> quota h = quota h' + 31 * length ms)"
      using lib.shuffle_wp [OF rng h, of MIN_DEPTH MAX_DEPTH "face_first pf" now]
      by (auto simp: INT_MAX_def)
    have "obeys Toggle V (fold apply_turn ms V)" using ms True by (auto simp: obeys_def)
    with run True ms(2) show ?thesis
      by (auto simp: runs_to_def decode_user_input_eq [OF line h] Toggle split: sum.splits)
  next
    case False
    have "30 \<le> quota h" using quota by simp
    from reset_faces_wp [OF h this] False show ?thesis
      by (auto simp: runs_to_def decode_user_input_eq [OF line h] Toggle obeys_def split: sum.splits)
  qed
next
  case Bad
  with c show ?thesis by simp
qed

lemma decode_user_input_bad:
  assumes line: "line \<noteq> []" and h: "cube_in h p V" and quota: "31 \<le> quota h"
    and c: "command_of (signed_char pf) line = Bad"
  shows "decode_user_input pf now (line_buffer line rest) p h = Inl Out_Of_Bounds"
proof -
  let ?f = "char_value (signed_char pf) (line ! 0) - 48"
  have "?f < 0 \<or> int N_FACES \<le> ?f"
    using c by (auto simp: command_of_def Let_def split: if_splits)
  from rotate_bad_face [OF h quota this] show ?thesis
    by (simp add: decode_user_input_eq [OF line h] c)
qed

lemma decode_user_input_returns:
  assumes rng: "rng_ok (rand_r pf)" and line: "line \<noteq> []" and h: "cube_in h p V"
    and run: "decode_user_input pf now (line_buffer line rest) p h = Inr (x, h')"
  shows "\<exists>V'. obeys (command_of (signed_char pf) line) V V' \<and> cube_in h' p V'"
proof (cases "command_of (signed_char pf) line")
  case (Turn f cw)
  have cw: "cw \<longleftrightarrow> char_value (signed_char pf) ((line @ [nul]) ! 1) - 48 = 0"
    using Turn by (auto simp: command_of_def Let_def split: if_splits)
  have "rotate_cube p (int f) (char_value (signed_char pf) ((line @ [nul]) ! 1) - 48) h = Inr (x, h')"
    using run by (simp add: decode_user_input_eq [OF line h] Turn)
  then show ?thesis
    by (rule rotate_returns [OF h]) (auto simp: Turn obeys_def cw)
next
  case Toggle
  show ?thesis
  proof (cases "solved_colors V")
    case True
    then have sh: "shuffle (rand_r pf) (face_first pf) now p MIN_DEPTH MAX_DEPTH h = Inr (x, h')"
      using run by (simp add: decode_user_input_eq [OF line h] Toggle)
    obtain ms where "20 \<le> length ms" "length ms \<le> 30" "\<forall>m\<in>set ms. valid_turn m"
      and c: "cube_in h' p (fold apply_turn ms V)"
      using shuffle_returns [OF rng h _ _ _ sh] by (auto simp: INT_MAX_def)
    then have "obeys Toggle V (fold apply_turn ms V)" using True by (auto simp: obeys_def)
    with c show ?thesis by (auto simp: Toggle)
  next
    case False
    then have run: "reset_faces p h = Inr (x, h')"
      using run by (simp add: decode_user_input_eq [OF line h] Toggle)
    have "30 \<le> quota h" using reset_no_room [OF h] run by (cases "quota h < 30") auto
    from reset_faces_wp [OF h this] run False show ?thesis
      by (simp add: runs_to_def Toggle obeys_def)
  qed
next
  case Bad
  let ?f = "char_value (signed_char pf) (line ! 0) - 48"
  have "?f < 0 \<or> int N_FACES \<le> ?f"
    using Bad by (auto simp: command_of_def Let_def split: if_splits)
  then have "?f \<noteq> int f" if "f < N_FACES" for f using that by auto
  moreover have "rotate_cube p ?f (char_value (signed_char pf) ((line @ [nul]) ! 1) - 48) h = Inr (x, h')"
    using run by (simp add: decode_user_input_eq [OF line h] Bad)
  ultimately show ?thesis by (metis rotate_returns [OF h])
qed

section \<open>Cubes that can be solved\<close>

definition solvable :: "face_val list \<Rightarrow> bool" where
  "solvable V \<longleftrightarrow> (\<exists>ms. (\<forall>m\<in>set ms. valid_turn m) \<and> V = fold apply_turn ms solved_val)"

lemma solvable_solved [simp]: "solvable solved_val"
  unfolding solvable_def by (rule exI [of _ "[]"]) simp

lemma solvable_turns:
  assumes "solvable V" and "\<forall>m\<in>set ms. valid_turn m"
  shows "solvable (fold apply_turn ms V)"
proof -
  obtain ns where "\<forall>m\<in>set ns. valid_turn m" "V = fold apply_turn ns solved_val"
    using assms(1) by (auto simp: solvable_def)
  then show ?thesis
    unfolding solvable_def using assms(2) by (intro exI [of _ "ns @ ms"]) auto
qed

lemma obeys_solvable:
  assumes "obeys c V V'" and "solvable V" and "\<And>f cw. c = Turn f cw \<Longrightarrow> f < N_FACES"
  shows "solvable V'"
proof (cases c)
  case (Turn f cw)
  with assms solvable_turns [OF assms(2), of "[(f, cw)]"] show ?thesis
    by (simp add: obeys_def valid_turn_def)
next
  case Toggle
  with assms solvable_turns [OF assms(2)] show ?thesis
    by (auto simp: obeys_def split: if_splits)
qed (use assms in \<open>simp add: obeys_def\<close>)

lemma command_face: "command_of sg line = Turn f cw \<Longrightarrow> f < N_FACES"
  by (auto simp: command_of_def Let_def nat_less_iff split: if_splits)

text \<open>A solvable cube can be solved, and it shows each of the six colours nine times.\<close>

lemma solvable_std: "solvable V \<Longrightarrow> std V"
  by (auto simp: solvable_def intro: turns.ok_run std_solved)

lemma solvable_undo:
  "solvable V \<Longrightarrow> \<exists>ms. (\<forall>m\<in>set ms. valid_turn m) \<and> fold apply_turn ms V = solved_val"
proof -
  assume "solvable V"
  then obtain ns where ns: "\<forall>m\<in>set ns. valid_turn m" "V = fold apply_turn ns solved_val"
    by (auto simp: solvable_def)
  have "fold apply_turn (rev (map opposite_turn ns)) V = solved_val"
    unfolding ns(2) by (rule turns.run_undo [OF std_solved ns(1)])
  moreover have "\<forall>m\<in>set (rev (map opposite_turn ns)). valid_turn m"
    using ns(1) by (auto simp: turns.valid_opposite)
  ultimately show ?thesis by blast
qed

lemma solvable_color_count: "solvable V \<Longrightarrow> color_count V = color_count solved_val"
proof -
  assume "solvable V"
  then obtain ns where ns: "\<forall>m\<in>set ns. valid_turn m" "V = fold apply_turn ns solved_val"
    by (auto simp: solvable_def)
  show ?thesis
    unfolding ns(2) by (rule turns.run_invariant [OF color_count_turn std_solved ns(1)])
qed

end
