(* ===== verification/Screen.thy ===== *)
theory Screen
  imports Server_Commands
begin

text \<open>
  The drawing loops, the same in \<open>main\<close> of \<open>src/rubiks_view.c\<close> and in
  \<open>update_curses_with_cube_state\<close> of \<open>src/server/rubiks_client.c\<close> (which also refreshes the
  screen after every line). The curses library is not modelled: what the program asks of it is
  the sequence of its calls.
\<close>

datatype curses_call =
    Initscr | Noecho | Cbreak | Start_Color | Clear | Refresh | Endwin
  | Init_Color int int int int
  | Init_Pair int int int
  | Attron_Pair int
  | Move int int
  | Printw string

abbreviation (input) COLOR_BLACK :: int where "COLOR_BLACK \<equiv> 0"
abbreviation (input) COLOR_RED :: int where "COLOR_RED \<equiv> 1"
abbreviation (input) COLOR_GREEN :: int where "COLOR_GREEN \<equiv> 2"
abbreviation (input) COLOR_YELLOW :: int where "COLOR_YELLOW \<equiv> 3"
abbreviation (input) COLOR_BLUE :: int where "COLOR_BLUE \<equiv> 4"
abbreviation (input) COLOR_WHITE :: int where "COLOR_WHITE \<equiv> 7"
abbreviation (input) COLOR_ORANGE :: int where "COLOR_ORANGE \<equiv> 8"
abbreviation (input) RGB_MAX :: int where "RGB_MAX \<equiv> 1000"
abbreviation (input) CURSOR_SPACES :: nat where "CURSOR_SPACES \<equiv> 30"
abbreviation (input) CURSOR_NEW_LINES :: nat where "CURSOR_NEW_LINES \<equiv> CURSOR_SPACES div 2"

section \<open>The code\<close>

definition init_colors :: "curses_call list" where
  "init_colors =
     [Init_Color COLOR_ORANGE RGB_MAX (RGB_MAX div 2) 0,
      Init_Pair (FACE_FRONT + 1) COLOR_BLACK COLOR_WHITE,
      Init_Pair (FACE_RIGHT + 1) COLOR_BLACK COLOR_RED,
      Init_Pair (FACE_TOP + 1) COLOR_BLACK COLOR_BLUE,
      Init_Pair (FACE_BOTTOM + 1) COLOR_BLACK COLOR_GREEN,
      Init_Pair (FACE_LEFT + 1) COLOR_BLACK COLOR_ORANGE,
      Init_Pair (FACE_BACK + 1) COLOR_BLACK COLOR_YELLOW]"

text \<open>The two inner loops, over the lines of a square and the characters of a line.\<close>

definition fill_square :: "bool \<Rightarrow> nat \<Rightarrow> nat \<Rightarrow> curses_call list" where
  "fill_square refreshing row col =
     concat (map (\<lambda>current_line.
       Move (int (row * CURSOR_NEW_LINES + current_line)) (int (col * CURSOR_SPACES)) #
       map (\<lambda>current_char. Printw '' '') [0..<CURSOR_SPACES - 1] @
       Printw [newline] # (if refreshing then [Refresh] else []))
     [0..<CURSOR_NEW_LINES - 1])"

definition draw_square ::
    "bool \<Rightarrow> addr \<Rightarrow> int \<Rightarrow> nat \<Rightarrow> nat \<Rightarrow> curses_call list \<Rightarrow> (mem, curses_call list) prog" where
  "draw_square refreshing cube_ptr face_id row col calls =
     bindM (get_face cube_ptr face_id) (\<lambda>f.
     bindM (get_color f (int (row * N_SQUARES_PER_SIDE + col))) (\<lambda>c.
     bindM (liftM (c_int (c + 1))) (\<lambda>pair.
     returnM (calls @ Attron_Pair pair # fill_square refreshing row col))))"

definition draw_face :: "bool \<Rightarrow> addr \<Rightarrow> int \<Rightarrow> curses_call list \<Rightarrow> (mem, curses_call list) prog" where
  "draw_face refreshing cube_ptr face_id =
     for_fold [0..<N_SQUARES_PER_SIDE] (\<lambda>row. for_fold [0..<N_SQUARES_PER_SIDE] (\<lambda>col.
       draw_square refreshing cube_ptr face_id row col))"

section \<open>Ordinary colours\<close>

text \<open>The colours that the cube library produces are the numbers of the six faces.\<close>

definition plain :: "face_val list \<Rightarrow> bool" where
  "plain V \<longleftrightarrow> (\<forall>s\<in>set stickers. 0 \<le> view V s \<and> view V s < int N_FACES)"

lemma plain_fit: "plain V \<Longrightarrow> colors_fit V"
  by (fastforce simp: plain_def colors_fit_def INT_MIN_def INT_MAX_def)

lemma plain_codable: "plain V \<Longrightarrow> \<forall>s\<in>set stickers. codable sg (view V s)"
  by (fastforce simp: plain_def codable_def)

lemma plain_iff: "plain V \<longleftrightarrow> set_mset (color_count V) \<subseteq> {0..<int N_FACES}"
  by (auto simp: plain_def color_count_def)

lemma plain_solved: "plain solved_val"
proof -
  have "list_all (\<lambda>s. 0 \<le> view solved_val s \<and> view solved_val s < int N_FACES) stickers"
    by code_simp
  then show ?thesis by (simp add: plain_def list_all_iff)
qed

lemma solvable_plain: "solvable V \<Longrightarrow> plain V"
  using plain_solved unfolding plain_iff by (simp only: solvable_color_count)

lemma color_char_plain:
  assumes "0 \<le> c" and "c < 6"
  shows "color_char c \<noteq> nul" and "color_char c \<noteq> newline"
proof -
  have "list_all (\<lambda>c. color_char c \<noteq> nul \<and> color_char c \<noteq> newline) [0, 1, 2, 3, 4, 5]"
    by code_simp
  moreover have "c \<in> set [0, 1, 2, 3, 4, 5]" using assms by auto
  ultimately show "color_char c \<noteq> nul" and "color_char c \<noteq> newline"
    unfolding list_all_iff by blast+
qed

lemma cube_text_plain: "plain V \<Longrightarrow> nul \<notin> set (cube_text V) \<and> newline \<notin> set (cube_text V)"
  using color_char_plain by (fastforce simp: cube_text_def plain_def)

interpretation cube_msg: line_codec "\<lambda>V. std V \<and> plain V" cube_line "\<lambda>l. decoded sg l solved_val"
  for sg
proof unfold_locales
  fix V assume V: "std V \<and> plain V"
  then show "is_line (cube_line V)"
    using cube_text_plain by (auto simp: is_line_def cube_line_def)
  show "decoded sg (cube_line V) solved_val = V"
    using V plain_codable by (intro decoded_cube_line std_solved) auto
qed

section \<open>What is drawn\<close>

text \<open>The nine squares in the order of the array \<open>colors\<close>, each in the pair of its colour.\<close>

definition drawing :: "bool \<Rightarrow> (nat \<Rightarrow> int) \<Rightarrow> nat \<Rightarrow> curses_call list" where
  "drawing refreshing colour n = concat (map (\<lambda>k. Attron_Pair (colour k + 1) #
     fill_square refreshing (k div 3) (k mod 3)) [0..<n])"

lemma squares_upt: "List.product [0..<3] [0..<3] = map (\<lambda>k. (k div 3, k mod 3)) [0..<(9::nat)]"
  by code_simp

lemma draw_face_flat: "draw_face r p f calls h =
    for_fold [0..<9] (\<lambda>k. draw_square r p f (k div 3) (k mod 3)) calls h"
  unfolding draw_face_def for_fold_nested squares_upt for_fold_map by simp

lemma draw_square_eq:
  assumes c: "cube_at h p L V" and f: "f < N_FACES" and k: "k < N_SQUARES_PER_FACE" and x: "plain V"
  shows "draw_square r p (int f) (k div 3) (k mod 3) calls h =
    Inr (calls @ Attron_Pair (view V (f, k) + 1) # fill_square r (k div 3) (k mod 3), h)"
proof -
  have "(f, k) \<in> set stickers" using f k by (simp add: in_stickers)
  then have "c_int (view V (f, k) + 1) = Inr (view V (f, k) + 1)"
    using x by (auto simp: plain_def c_int_def INT_MIN_def INT_MAX_def)
  moreover have "int (k div 3 * N_SQUARES_PER_SIDE + k mod 3) = int k" by simp
  moreover have "get_face p (int f) h = Inr (fst (L ! f), h)"
    using get_face_wp [OF c f, of "\<lambda>x s. x = fst (L ! f) \<and> s = h"] by (simp only: runs_to_eq)
  moreover have "get_color (fst (L ! f)) (int k) h = Inr (view V (f, k), h)"
    using get_color_wp [OF cube_at_face [OF c f] k, of "\<lambda>x s. x = view V (f, k) \<and> s = h"]
    by (simp only: runs_to_eq) (simp add: view_def)
  ultimately show ?thesis
    by (simp only: draw_square_def bindM_apply liftM_apply returnM_apply sum.case fst_conv snd_conv)
qed

lemma drawing_Suc:
  "drawing r colour (Suc k) = drawing r colour k @ Attron_Pair (colour k + 1) # fill_square r (k div 3) (k mod 3)"
  by (simp add: drawing_def)

lemma draw_face_eq:
  assumes c: "cube_at h p L V" and f: "f < N_FACES" and x: "plain V"
  shows "draw_face r p (int f) calls h = Inr (calls @ drawing r (\<lambda>k. view V (f, k)) 9, h)"
proof -
  let ?I = "\<lambda>k calls' h'. calls' = calls @ drawing r (\<lambda>k. view V (f, k)) k \<and> h' = h"
  have "runs_to (for_fold [0..<9] (\<lambda>k. draw_square r p (int f) (k div 3) (k mod 3)) calls) h (?I 9)"
  proof (rule runs_to_for_local [where I = ?I])
    show "?I 0 calls h" by (simp add: drawing_def)
    fix k cs g assume k: "k < (9::nat)" and I: "?I k cs g"
    then show "runs_to (draw_square r p (int f) (k div 3) (k mod 3) cs) g (?I (Suc k))"
      by (simp add: runs_to_def draw_square_eq [OF c f k x] drawing_Suc)
  qed
  then show ?thesis unfolding draw_face_flat by (simp add: runs_to_eq)
qed

lemma draw_face_out:
  assumes c: "cube_at h p L V" and f: "f < 0 \<or> int N_FACES \<le> f"
  shows "draw_face r p f calls h = Inl Out_Of_Bounds"
  unfolding draw_face_flat
  by (simp add: upt_conv_Cons draw_square_def prog_simps get_face_out [OF c f])

end
