(* ===== verification/View.thy ===== *)
theory View
  imports Screen
begin

text \<open>
  \<open>main\<close> of \<open>src/rubiks_view.c\<close>, the program for a single device: the state of its variables, one
  round of the loop for each key, and the whole run over a list of keys. The abstract program,
  over the contents of the cube and the number of the face on the screen, is refined by it.
\<close>

section \<open>The code\<close>

record view_state =
  view_mem :: mem
  rubiks_cube :: addr
  current_face :: int
  screen :: "curses_call list"

definition on_mem :: "(mem, 'a) prog \<Rightarrow> (view_state, 'a) prog" where
  "on_mem m = (\<lambda>v. case m (view_mem v) of
     Inl e \<Rightarrow> Inl e | Inr r \<Rightarrow> Inr (fst r, v\<lparr>view_mem := snd r\<rparr>))"

definition with_view :: "(view_state \<Rightarrow> (view_state, 'a) prog) \<Rightarrow> (view_state, 'a) prog" where
  "with_view k = (\<lambda>v. k v v)"

definition curses :: "curses_call list \<Rightarrow> (view_state, unit) prog" where
  "curses calls = modifyM (\<lambda>v. v\<lparr>screen := screen v @ calls\<rparr>)"

text \<open>A key as \<open>getch\<close> returns it, and the time at which it is handled (the seed of a shuffle).\<close>

type_synonym key = "int \<times> seed"

abbreviation (input) KEY_a :: int where "KEY_a \<equiv> 97"
abbreviation (input) KEY_d :: int where "KEY_d \<equiv> 100"
abbreviation (input) KEY_space :: int where "KEY_space \<equiv> 32"
abbreviation (input) KEY_q :: int where "KEY_q \<equiv> 113"
abbreviation (input) KEY_Q :: int where "KEY_Q \<equiv> 81"
abbreviation (input) KEY_0 :: int where "KEY_0 \<equiv> 48"
abbreviation (input) KEY_5 :: int where "KEY_5 \<equiv> 53"

definition display_face :: "(view_state, unit) prog" where
  "display_face = with_view (\<lambda>v.
     bindM (on_mem (draw_face False (rubiks_cube v) (current_face v) [])) curses)"

definition view_switch :: "platform \<Rightarrow> key \<Rightarrow> (view_state, unit) prog" where
  "view_switch pf key = with_view (\<lambda>v.
     let input = fst key in
     if input = KEY_a then on_mem (rotate_cube (rubiks_cube v) (current_face v) 1)
     else if input = KEY_d then on_mem (rotate_cube (rubiks_cube v) (current_face v) 0)
     else if KEY_0 \<le> input \<and> input \<le> KEY_5 then modifyM (\<lambda>v. v\<lparr>current_face := input - KEY_0\<rparr>)
     else if input = KEY_space then
       bindM (on_mem (is_solved (rubiks_cube v))) (\<lambda>s.
       if s \<noteq> 0 then
         on_mem (shuffle (rand_r pf) (face_first pf) (snd key) (rubiks_cube v) MIN_DEPTH MAX_DEPTH)
       else thenM (on_mem (free_cube (rubiks_cube v)))
         (bindM (on_mem make_cube) (\<lambda>c. modifyM (\<lambda>v. v\<lparr>rubiks_cube := c\<rparr>))))
     else returnM ())"

text \<open>The result says whether the loop has been left; if not, the program waits in \<open>getch\<close>.\<close>

primrec view_loop :: "platform \<Rightarrow> key list \<Rightarrow> (view_state, bool) prog" where
  "view_loop pf [] = thenM display_face (returnM False)"
| "view_loop pf (key # keys) =
     thenM display_face
    (thenM (view_switch pf key)
    (if fst key = KEY_q \<or> fst key = KEY_Q then returnM True else view_loop pf keys))"

definition view_main :: "platform \<Rightarrow> seed \<Rightarrow> key list \<Rightarrow> (view_state, bool) prog" where
  "view_main pf now keys =
     bindM (on_mem make_cube) (\<lambda>c.
     thenM (modifyM (\<lambda>v. v\<lparr>rubiks_cube := c\<rparr>))
    (thenM (on_mem (shuffle (rand_r pf) (face_first pf) now c MIN_DEPTH MAX_DEPTH))
    (thenM (modifyM (\<lambda>v. v\<lparr>current_face := 0\<rparr>))
    (thenM (curses ([Initscr, Noecho, Start_Color, Clear, Refresh] @ init_colors))
    (bindM (view_loop pf keys) (\<lambda>left.
     if left then
       thenM (curses [Endwin])
      (thenM (with_view (\<lambda>v. on_mem (free_cube (rubiks_cube v))))
      (returnM True))
     else returnM False))))))"

definition view_start :: "nat \<Rightarrow> view_state" where
  "view_start n = \<lparr>view_mem = init_mem n, rubiks_cube = NULL, current_face = 0, screen = []\<rparr>"

section \<open>The abstract program\<close>

text \<open>The contents of the cube, the face on the screen, and what one key may make of them.\<close>

definition key_spec :: "int \<Rightarrow> face_val list \<times> nat \<Rightarrow> face_val list \<times> nat \<Rightarrow> bool" where
  "key_spec input s s' =
    (if input = KEY_a then s' = (apply_turn (snd s, False) (fst s), snd s)
     else if input = KEY_d then s' = (apply_turn (snd s, True) (fst s), snd s)
     else if KEY_0 \<le> input \<and> input \<le> KEY_5 then s' = (fst s, nat (input - KEY_0))
     else if input = KEY_space then obeys Toggle (fst s) (fst s') \<and> snd s' = snd s
     else s' = s)"

definition view_ok :: "view_state \<Rightarrow> face_val list \<times> nat \<Rightarrow> bool" where
  "view_ok v s \<longleftrightarrow> sole (view_mem v) (rubiks_cube v) (fst s) \<and> current_face v = int (snd s) \<and>
     snd s < N_FACES \<and> solvable (fst s)"

lemma runs_to_on_mem [wp]:
  "runs_to (on_mem m) v Q \<longleftrightarrow> runs_to m (view_mem v) (\<lambda>x h. Q x (v\<lparr>view_mem := h\<rparr>))"
  by (simp add: runs_to_def on_mem_def split: sum.split)

lemma runs_to_with_view [wp]: "runs_to (with_view k) v Q \<longleftrightarrow> runs_to (k v) v Q"
  by (simp add: runs_to_def with_view_def)

lemma runs_to_curses [wp, simp]: "runs_to (curses calls) v Q \<longleftrightarrow> Q () (v\<lparr>screen := screen v @ calls\<rparr>)"
  by (simp add: curses_def)

section \<open>Refinement\<close>

lemma display_face_wp:
  assumes "view_ok v s"
  shows "runs_to display_face v (\<lambda>_ v'. v' = v\<lparr>screen := screen v @
    drawing False (\<lambda>k. view (fst s) (snd s, k)) 9\<rparr>)"
proof -
  obtain L where c: "cube_at (view_mem v) (rubiks_cube v) L (fst s)" and f: "snd s < N_FACES"
    and cf: "current_face v = int (snd s)" and p: "plain (fst s)"
    using assms by (auto simp: view_ok_def sole_def intro: solvable_plain)
  show ?thesis
    by (simp add: display_face_def wp cf) (simp add: runs_to_def draw_face_eq [OF c f p])
qed

lemma view_rotate_wp:
  assumes v: "view_ok v (V, f)" and quota: "31 \<le> quota (view_mem v)"
  shows "runs_to (on_mem (rotate_cube (rubiks_cube v) (current_face v) d)) v (\<lambda>_ v'.
    view_ok v' (apply_turn (f, d = 0) V, f) \<and> quota (view_mem v) = quota (view_mem v') + 31 \<and>
    screen v' = screen v)"
proof -
  have h: "sole (view_mem v) (rubiks_cube v) V" and cf: "current_face v = int f" and f: "f < N_FACES"
    and s: "solvable V"
    using v by (simp_all add: view_ok_def)
  have "solvable (apply_turn (f, d = 0) V)"
    using solvable_turns [OF s, of "[(f, d = 0)]"] f by (simp add: valid_turn_def)
  then show ?thesis
    using cf f unfolding runs_to_on_mem cf
    by (intro runs_to_mono [OF alone.turn_law [OF h quota f, of d]]) (simp add: view_ok_def cf)
qed

lemma view_shuffle_wp:
  assumes rng: "rng_ok rng" and h: "sole h p V" and s: "solvable V" and quota: "930 \<le> quota h"
  shows "runs_to (shuffle rng ff now p MIN_DEPTH MAX_DEPTH) h (\<lambda>_ h'. \<exists>ms. 20 \<le> length ms \<and>
    length ms \<le> 30 \<and> (\<forall>m\<in>set ms. valid_turn m) \<and> sole h' p (fold apply_turn ms V) \<and>
    solvable (fold apply_turn ms V) \<and> quota h \<le> quota h' + 930)"
proof -
  have "31 * nat MAX_DEPTH \<le> quota h" using quota by simp
  then obtain ms where ms: "20 \<le> length ms" "length ms \<le> 30" "\<forall>m\<in>set ms. valid_turn m"
    and run: "runs_to (shuffle rng ff now p MIN_DEPTH MAX_DEPTH) h (\<lambda>_ h'.
      sole h' p (fold apply_turn ms V) \<and> quota h = quota h' + 31 * length ms)"
    using alone.shuffle_wp [OF rng h, of MIN_DEPTH MAX_DEPTH ff now] by (auto simp: INT_MAX_def)
  have "solvable (fold apply_turn ms V)" by (rule solvable_turns [OF s ms(3)])
  with ms show ?thesis by (intro runs_to_mono [OF run]) auto
qed

lemma view_switch_wp:
  assumes rng: "rng_ok (rand_r pf)" and v: "view_ok v s" and quota: "930 \<le> quota (view_mem v)"
  shows "runs_to (view_switch pf key) v (\<lambda>_ v'. \<exists>s'. key_spec (fst key) s s' \<and> view_ok v' s' \<and>
    quota (view_mem v) \<le> quota (view_mem v') + 930 \<and> screen v' = screen v)"
proof -
  obtain V f where s: "s = (V, f)" by (cases s)
  have h: "sole (view_mem v) (rubiks_cube v) V" and cf: "current_face v = int f" and f: "f < N_FACES"
    and sv: "solvable V"
    using v by (simp_all add: view_ok_def s)
  have "31 \<le> quota (view_mem v)" using quota by simp
  note rot = view_rotate_wp [OF v [unfolded s] this]
  consider "fst key = KEY_a" | "fst key = KEY_d" | "KEY_0 \<le> fst key" "fst key \<le> KEY_5"
    | "fst key = KEY_space" | "fst key \<noteq> KEY_a" "fst key \<noteq> KEY_d" "\<not> (KEY_0 \<le> fst key \<and> fst key \<le> KEY_5)"
      "fst key \<noteq> KEY_space"
    by blast
  then show ?thesis
  proof cases
    case 1
    then show ?thesis
      by (simp add: view_switch_def runs_to_with_view key_spec_def s)
        (rule runs_to_mono [OF rot [of 1]], simp)
  next
    case 2
    then show ?thesis
      by (simp add: view_switch_def runs_to_with_view key_spec_def s)
        (rule runs_to_mono [OF rot [of 0]], simp)
  next
    case 3
    then show ?thesis
      using v by (auto simp: view_switch_def runs_to_with_view key_spec_def s view_ok_def)
  next
    case 4
    have sw: "runs_to (is_solved (rubiks_cube v)) (view_mem v) Q \<longleftrightarrow>
        Q (if solved_colors V then 1 else 0) (view_mem v)" for Q
      by (simp add: runs_to_def alone.solved_law [OF h])
    show ?thesis
    proof (cases "solved_colors V")
      case True
      have "runs_to (shuffle (rand_r pf) (face_first pf) (snd key) (rubiks_cube v) MIN_DEPTH MAX_DEPTH)
          (view_mem v) (\<lambda>_ h'. \<exists>s'. obeys Toggle V (fst s') \<and> snd s' = f \<and>
            view_ok (v\<lparr>view_mem := h'\<rparr>) s' \<and> quota (view_mem v) \<le> quota h' + 930)"
        using cf f True
        by (intro runs_to_mono [OF view_shuffle_wp [OF rng h sv quota]])
          (fastforce simp: view_ok_def obeys_def)
      with 4 True show ?thesis
        by (simp add: view_switch_def wp key_spec_def s sw)
    next
      case False
      have new: "runs_to make_cube g (\<lambda>p h'. \<exists>s'. obeys Toggle V (fst s') \<and> snd s' = f \<and>
          view_ok (v\<lparr>view_mem := h', rubiks_cube := p\<rparr>) s' \<and> quota (view_mem v) \<le> quota h' + 930)"
        if "empty_mem g" "quota g = quota (view_mem v)" for g
        using that quota cf f False
        by (intro runs_to_mono [OF alone.make_law]) (auto simp: view_ok_def obeys_def)
      have "runs_to (thenM (on_mem (free_cube (rubiks_cube v)))
          (bindM (on_mem make_cube) (\<lambda>c. modifyM (\<lambda>v. v\<lparr>rubiks_cube := c\<rparr>)))) v
          (\<lambda>_ v'. \<exists>s'. obeys Toggle V (fst s') \<and> snd s' = f \<and> view_ok v' s' \<and>
            quota (view_mem v) \<le> quota (view_mem v') + 930 \<and> screen v' = screen v)"
        by (simp add: wp) (rule runs_to_mono [OF alone.release_law [OF h]], use new in simp)
      with 4 False show ?thesis
        by (simp add: view_switch_def runs_to_with_view runs_to_bind [where m = "on_mem (is_solved c)" for c]
            runs_to_on_mem sw key_spec_def s)
    qed
  next
    case 5
    then have "view_switch pf key v = Inr ((), v)" and "key_spec (fst key) s s"
      by (auto simp: view_switch_def with_view_def prog_simps key_spec_def)
    with v show ?thesis by (auto simp: runs_to_def simp del: split_paired_Ex)
  qed
qed

section \<open>The whole run\<close>

definition quits :: "int \<Rightarrow> bool" where
  "quits input \<longleftrightarrow> input = KEY_q \<or> input = KEY_Q"

primrec view_spec :: "int list \<Rightarrow> face_val list \<times> nat \<Rightarrow> face_val list \<times> nat \<Rightarrow> bool" where
  "view_spec [] s s' \<longleftrightarrow> s' = s"
| "view_spec (k # ks) s s' \<longleftrightarrow>
     (\<exists>t. key_spec k s t \<and> (if quits k then s' = t else view_spec ks t s'))"

definition shows_face :: "view_state \<Rightarrow> face_val list \<times> nat \<Rightarrow> bool" where
  "shows_face v s \<longleftrightarrow>
     (\<exists>before. screen v = before @ drawing False (\<lambda>k. view (fst s) (snd s, k)) 9)"

lemma view_loop_wp:
  assumes rng: "rng_ok (rand_r pf)" and "view_ok v s" and "930 * length keys \<le> quota (view_mem v)"
  shows "runs_to (view_loop pf keys) v (\<lambda>left v'. \<exists>s'. view_spec (map fst keys) s s' \<and>
    view_ok v' s' \<and> (left \<longleftrightarrow> (\<exists>k\<in>set keys. quits (fst k))) \<and> (\<not> left \<longrightarrow> shows_face v' s'))"
  using assms(2,3)
proof (induction keys arbitrary: v s)
  case Nil
  then show ?case
    by (auto simp: view_ok_def shows_face_def intro!: runs_to_thenI [OF display_face_wp])
next
  case (Cons key keys)
  let ?v = "v\<lparr>screen := screen v @ drawing False (\<lambda>k. view (fst s) (snd s, k)) 9\<rparr>"
  let ?Q = "\<lambda>left v'. \<exists>s'. view_spec (map fst (key # keys)) s s' \<and> view_ok v' s' \<and>
    (left \<longleftrightarrow> (\<exists>k\<in>set (key # keys). quits (fst k))) \<and> (\<not> left \<longrightarrow> shows_face v' s')"
  have ok: "view_ok ?v s" and quota: "930 \<le> quota (view_mem ?v)"
    using Cons.prems by (simp_all add: view_ok_def)
  have rest: "runs_to (if fst key = KEY_q \<or> fst key = KEY_Q then returnM True else view_loop pf keys)
      w ?Q" if w: "key_spec (fst key) s t" "view_ok w t" and n: "930 * length keys \<le> quota (view_mem w)"
    for w t
  proof (cases "quits (fst key)")
    case True
    then show ?thesis using w by (auto simp: quits_def simp del: split_paired_Ex)
  next
    case False
    have "runs_to (view_loop pf keys) w ?Q"
    proof (rule runs_to_mono [OF Cons.IH [OF w(2) n]])
      fix left v' assume "\<exists>s'. view_spec (map fst keys) t s' \<and> view_ok v' s' \<and>
        (left \<longleftrightarrow> (\<exists>k\<in>set keys. quits (fst k))) \<and> (\<not> left \<longrightarrow> shows_face v' s')"
      then obtain s' where "view_spec (map fst keys) t s'" "view_ok v' s'"
        "left \<longleftrightarrow> (\<exists>k\<in>set keys. quits (fst k))" "\<not> left \<longrightarrow> shows_face v' s'" by blast
      moreover from this(1) have "view_spec (map fst (key # keys)) s s'"
        using w(1) False by (simp del: split_paired_Ex) blast
      ultimately show "?Q left v'" using False by (intro exI [of _ s']) auto
    qed
    with False show ?thesis by (simp add: quits_def)
  qed
  have "runs_to (thenM (view_switch pf key)
      (if fst key = KEY_q \<or> fst key = KEY_Q then returnM True else view_loop pf keys)) ?v ?Q"
  proof (rule runs_to_thenI [OF view_switch_wp [OF rng ok quota]])
    fix w assume "\<exists>t. key_spec (fst key) s t \<and> view_ok w t \<and>
      quota (view_mem ?v) \<le> quota (view_mem w) + 930 \<and> screen w = screen ?v"
    then obtain t where "key_spec (fst key) s t" "view_ok w t" "930 * length keys \<le> quota (view_mem w)"
      using Cons.prems(2) by auto
    then show "runs_to (if fst key = KEY_q \<or> fst key = KEY_Q then returnM True else view_loop pf keys)
      w ?Q" by (rule rest)
  qed
  then show ?case
    unfolding view_loop.simps by (rule_tac runs_to_thenI [OF display_face_wp [OF Cons.prems(1)]]) simp
qed

lemma view_main_wp:
  assumes rng: "rng_ok (rand_r pf)" and n: "961 + 930 * length keys \<le> n"
  shows "runs_to (view_main pf now keys) (view_start n) (\<lambda>left v.
    (left \<longleftrightarrow> (\<exists>k\<in>set keys. quits (fst k))) \<and>
    (if left then empty_mem (view_mem v)
     else \<exists>s s'. solvable (fst s) \<and> snd s = 0 \<and> view_spec (map fst keys) s s' \<and> view_ok v s' \<and>
       shows_face v s'))"
proof -
  have new: "runs_to make_cube (init_mem n) (\<lambda>p h. sole h p solved_val \<and> n = quota h + 31)"
    using alone.make_law [OF init_empty, of n] n by (simp add: init_mem_def)
  define Q where "Q = (\<lambda>left v. (left \<longleftrightarrow> (\<exists>k\<in>set keys. quits (fst k))) \<and>
    (if left then empty_mem (view_mem v)
     else \<exists>s s'. solvable (fst s) \<and> snd s = 0 \<and> view_spec (map fst keys) s s' \<and> view_ok v s' \<and>
       shows_face v s'))"
  define fin where "fin = bindM (view_loop pf keys) (\<lambda>left.
      if left then thenM (curses [Endwin]) (thenM (with_view (\<lambda>v. on_mem (free_cube (rubiks_cube v))))
        (returnM True)) else returnM False)"
  have finish: "runs_to fin v Q"
    if v: "view_ok v s" and s: "snd s = 0" and q: "930 * length keys \<le> quota (view_mem v)" for v s
    unfolding fin_def
  proof (rule runs_to_bindI [OF view_loop_wp [OF rng v q]])
    fix left w assume "\<exists>s'. view_spec (map fst keys) s s' \<and> view_ok w s' \<and>
      (left \<longleftrightarrow> (\<exists>k\<in>set keys. quits (fst k))) \<and> (\<not> left \<longrightarrow> shows_face w s')"
    then obtain s' where s': "view_spec (map fst keys) s s'" "view_ok w s'"
      "left \<longleftrightarrow> (\<exists>k\<in>set keys. quits (fst k))" "\<not> left \<longrightarrow> shows_face w s'" by blast
    have "solvable (fst s)" using v by (simp add: view_ok_def)
    moreover have "sole (view_mem w) (rubiks_cube w) (fst s')" using s'(2) by (simp add: view_ok_def)
    from alone.release_law [OF this] have "left \<Longrightarrow> runs_to (free_cube (rubiks_cube w)) (view_mem w)
        (\<lambda>_ h'. empty_mem h')" by (auto elim: runs_to_mono)
    ultimately show "runs_to (if left then thenM (curses [Endwin])
        (thenM (with_view (\<lambda>v. on_mem (free_cube (rubiks_cube v)))) (returnM True))
        else returnM False) w Q"
      using s' s by (cases left) (auto simp: Q_def wp elim: runs_to_mono simp del: split_paired_Ex)
  qed
  have shuffled: "runs_to (shuffle (rand_r pf) (face_first pf) now p MIN_DEPTH MAX_DEPTH) h
      (\<lambda>_ h'. \<exists>V. sole h' p V \<and> solvable V \<and> 930 * length keys \<le> quota h')"
    if "sole h p solved_val" "n = quota h + 31" for h p
    using that n by (intro runs_to_mono [OF view_shuffle_wp [OF rng]]) auto
  have loop: "runs_to fin \<lparr>view_mem = h, rubiks_cube = p, current_face = 0, screen = cs\<rparr> Q"
    if V: "\<exists>V. sole h p V \<and> solvable V \<and> 930 * length keys \<le> quota h" for h p cs
  proof -
    obtain V where "sole h p V" "solvable V" "930 * length keys \<le> quota h" using V by blast
    then show ?thesis by (intro finish [of _ "(V, 0)"]) (simp_all add: view_ok_def)
  qed
  show ?thesis
    unfolding view_main_def fin_def [symmetric] Q_def [symmetric]
    by (simp add: wp view_start_def)
      (rule runs_to_mono [OF new], elim conjE, rule runs_to_mono [OF shuffled], simp, simp, rule loop)
qed

end
