(* ===== verification/Pipes.thy ===== *)
theory Pipes
  imports C_Strings
begin

text \<open>
  The pipes and sockets through which the processes talk, and the two threads of a client-facing
  process (\<open>client_facing_thread_listen_to_pipe\<close> and \<open>client_facing_thread_listen_to_socket\<close> of
  \<open>src/server/rubiks_server.c\<close>), which copy lines from one to the other. A locale states what a
  message format of lines of one length promises; in it, a channel that carries such messages is
  a queue, and a relay between two channels a longer queue.
\<close>

section \<open>Pipes\<close>

text \<open>\<open>closed\<close>: nobody holds the end to write any more; \<open>broken\<close>: nobody holds the end to read, so that
  a process that writes is ended by \<open>SIGPIPE\<close>.\<close>

record pipe =
  written :: string
  taken :: nat
  closed :: bool
  broken :: bool

definition unread :: "pipe \<Rightarrow> string" where
  "unread q = drop (taken q) (written q)"

definition pipe_write :: "string \<Rightarrow> pipe \<Rightarrow> pipe" where
  "pipe_write s q = q\<lparr>written := fputs s (written q)\<rparr>"

definition at_eof :: "pipe \<Rightarrow> bool" where
  "at_eof q \<longleftrightarrow> closed q \<and> unread q = []"

text \<open>\<open>getline\<close> on a pipe blocks until there is a whole line, or the end of the file.\<close>

definition pipe_getline :: "pipe \<Rightarrow> (string \<times> pipe) option" where
  "pipe_getline q =
     (if newline \<in> set (unread q) \<or> (closed q \<and> unread q \<noteq> []) then
        (case getline (unread q) of None \<Rightarrow> None
         | Some (l, r) \<Rightarrow> Some (l, q\<lparr>taken := taken q + length l\<rparr>))
      else None)"

definition fresh_pipe :: pipe where
  "fresh_pipe = \<lparr>written = [], taken = 0, closed = False, broken = False\<rparr>"

lemma getline_nonempty: "getline t = Some (l, r) \<Longrightarrow> l \<noteq> []"
  by (cases t) (auto simp: getline_def Let_def split: if_splits)

lemma getline_some: "t \<noteq> [] \<Longrightarrow> getline t \<noteq> None"
  by (simp add: getline_def Let_def)

lemma getline_split: "getline t = Some (l, r) \<Longrightarrow> t = l @ r"
  by (auto simp: getline_def Let_def split: if_splits)

lemma pipe_getlineE:
  assumes "pipe_getline q = Some (l, q')"
  obtains r where "getline (unread q) = Some (l, r)" and "q' = q\<lparr>taken := taken q + length l\<rparr>"
    and "l \<noteq> []" and "unread q = l @ r" and "unread q' = r"
proof -
  obtain r where g: "getline (unread q) = Some (l, r)" and q': "q' = q\<lparr>taken := taken q + length l\<rparr>"
    using assms by (auto simp: pipe_getline_def split: if_splits option.splits)
  have s: "unread q = l @ r" by (rule getline_split [OF g])
  have "unread q' = drop (length l) (unread q)" by (simp add: q' unread_def add.commute)
  with s have "unread q' = r" by simp
  with that g q' s getline_nonempty [OF g] show thesis by blast
qed

lemma pipe_getline_nonempty: "pipe_getline q = Some (l, q') \<Longrightarrow> l \<noteq> []"
  by (erule pipe_getlineE)

lemma pipe_getline_unread:
  "pipe_getline q = Some (l, q') \<Longrightarrow> length (unread q) = length l + length (unread q')"
  by (erule pipe_getlineE) simp

lemma pipe_getline_None: "pipe_getline q = None \<Longrightarrow> newline \<notin> set (unread q)"
proof
  assume none: "pipe_getline q = None" and n: "newline \<in> set (unread q)"
  then have "unread q \<noteq> []" by auto
  from getline_some [OF this] none n show False by (auto simp: pipe_getline_def)
qed

lemma pipe_getline_written: "pipe_getline q = Some (l, q') \<Longrightarrow> written q' = written q \<and> closed q' = closed q \<and> broken q' = broken q"
  by (erule pipe_getlineE) simp

section \<open>The threads of a client-facing process\<close>

text \<open>
  Both threads run \<open>while (getline(...) != -1) { fputs; fflush; }\<close> from one stream to another and
  close both at the end. \<open>Carrying l\<close>: the line \<open>l\<close> is in the buffer.
\<close>

datatype relay = Reading | Carrying string | Finished

definition relay_step :: "relay \<Rightarrow> pipe \<Rightarrow> pipe \<Rightarrow> (relay \<times> pipe \<times> pipe) option" where
  "relay_step r src dst = (case r of
     Reading \<Rightarrow> (case pipe_getline src of
        Some (l, src') \<Rightarrow> Some (Carrying l, src', dst)
      | None \<Rightarrow> if at_eof src then Some (Finished, src, dst) else None)
   | Carrying l \<Rightarrow> (case c_string (line_buffer l []) of
        Inl e \<Rightarrow> None
      | Inr s \<Rightarrow> Some (Reading, src, pipe_write s dst))
   | Finished \<Rightarrow> None)"

lemma c_string_line_buffer: "c_string (line_buffer l r) = Inr (takeWhile (\<lambda>c. c \<noteq> nul) l)"
proof -
  have "takeWhile (\<lambda>c. c \<noteq> None \<and> c \<noteq> Some nul) (map Some l @ Some nul # r) =
      map Some (takeWhile (\<lambda>c. c \<noteq> nul) l)"
    by (induction l) auto
  moreover have "(map Some l @ Some nul # r) ! length (takeWhile (\<lambda>c. c \<noteq> nul) l) \<noteq> None"
    using length_takeWhile_le [of "\<lambda>c. c \<noteq> nul" l] by (auto simp: nth_append nth_Cons')
  moreover have "length (takeWhile (\<lambda>c. c \<noteq> nul) l) \<noteq> length (map Some l @ Some nul # r)"
    using length_takeWhile_le [of "\<lambda>c. c \<noteq> nul" l] by simp
  ultimately show ?thesis by (simp add: c_string_def line_buffer_def comp_def)
qed

text \<open>The relay never loses its place: it is blocked only where \<open>getline\<close> is, or at the end.\<close>

lemma relay_step_None:
  assumes "relay_step r src dst = None"
  shows "r = Finished \<or> (r = Reading \<and> newline \<notin> set (unread src) \<and> \<not> at_eof src)"
  using assms pipe_getline_None [of src]
  by (auto simp: relay_step_def c_string_line_buffer split: relay.splits option.splits if_splits)

section \<open>Channels that carry messages of one length\<close>

text \<open>\<open>q\<close> has been sent the messages \<open>xs\<close>, of which \<open>k\<close> have been taken; a relay has taken \<open>k\<close> messages
  of \<open>xs\<close> from its source, and its sink has been sent all of them but the one it holds.\<close>

definition carries :: "('a \<Rightarrow> bool) \<Rightarrow> ('a \<Rightarrow> string) \<Rightarrow> nat \<Rightarrow> pipe \<Rightarrow> 'a list \<Rightarrow> nat \<Rightarrow> bool" where
  "carries ok enc n q xs k \<longleftrightarrow>
     (\<forall>x\<in>set xs. ok x) \<and> written q = concat (map enc xs) \<and> taken q = n * k \<and> k \<le> length xs"

definition passed_on :: "('a \<Rightarrow> string) \<Rightarrow> relay \<Rightarrow> 'a list \<Rightarrow> nat \<Rightarrow> 'a list \<Rightarrow> bool" where
  "passed_on enc r xs k ys = (case r of
     Carrying l \<Rightarrow> (\<exists>x. l = enc x \<and> take k xs = ys @ [x]) | _ \<Rightarrow> take k xs = ys)"

locale framed =
  fixes ok :: "'a \<Rightarrow> bool"
    and enc :: "'a \<Rightarrow> string"
    and n :: nat
  assumes enc_line: "ok x \<Longrightarrow> is_line (enc x)"
    and enc_size: "ok x \<Longrightarrow> length (enc x) = n"
begin

abbreviation channel :: "pipe \<Rightarrow> 'a list \<Rightarrow> nat \<Rightarrow> bool" where
  "channel \<equiv> carries ok enc n"

lemma enc_ends: "ok x \<Longrightarrow> newline \<in> set (enc x) \<and> nul \<notin> set (enc x)"
  using enc_line [of x] by (auto simp: is_line_def)

lemma text_size: "\<forall>x\<in>set xs. ok x \<Longrightarrow> length (concat (map enc xs)) = n * length xs"
  by (induction xs) (simp_all add: enc_size)

lemma channel_unread:
  assumes c: "channel q xs k"
  shows "unread q = concat (map enc (drop k xs))"
proof -
  have split: "written q = concat (map enc (take k xs)) @ concat (map enc (drop k xs))"
    using c by (simp add: carries_def concat_append [symmetric] map_append [symmetric] del: concat_append map_append)
  have "\<forall>x\<in>set (take k xs). ok x" using c by (auto simp: carries_def dest: in_set_takeD)
  then have "length (concat (map enc (take k xs))) = taken q"
    using c by (simp add: text_size carries_def)
  then show ?thesis by (simp add: unread_def split)
qed

lemma channel_getline:
  assumes c: "channel q xs k" and k: "k < length xs"
  shows "pipe_getline q = Some (enc (xs ! k), q\<lparr>taken := n * Suc k\<rparr>)"
    and "channel (q\<lparr>taken := n * Suc k\<rparr>) xs (Suc k)"
proof -
  have ok: "ok (xs ! k)" using c k by (simp add: carries_def)
  have u: "unread q = enc (xs ! k) @ concat (map enc (drop (Suc k) xs))"
    using channel_unread [OF c] k by (simp add: Cons_nth_drop_Suc [symmetric])
  have "newline \<in> set (enc (xs ! k))" using enc_ends [OF ok] by blast
  then show "pipe_getline q = Some (enc (xs ! k), q\<lparr>taken := n * Suc k\<rparr>)"
    using getline_line [OF enc_line [OF ok]] c enc_size [OF ok]
    by (simp add: pipe_getline_def u carries_def add.commute)
  show "channel (q\<lparr>taken := n * Suc k\<rparr>) xs (Suc k)" using c k by (simp add: carries_def)
qed

lemma channel_end: "channel q xs (length xs) \<Longrightarrow> pipe_getline q = None"
  using channel_unread [of q xs "length xs"] by (simp add: pipe_getline_def)

lemma channel_getlineE:
  assumes c: "channel q xs k" and g: "pipe_getline q = Some (l, q')"
  shows "k < length xs \<and> l = enc (xs ! k) \<and> channel q' xs (Suc k)"
proof -
  have "k \<noteq> length xs" using channel_end c g by auto
  then have "k < length xs" using c by (simp add: carries_def)
  with channel_getline [OF c this] g show ?thesis by simp
qed

lemma channel_drained:
  assumes "channel q xs k" and "newline \<notin> set (unread q)"
  shows "k = length xs"
proof (rule ccontr)
  assume "k \<noteq> length xs"
  then have k: "k < length xs" using assms(1) by (simp add: carries_def)
  then have "ok (xs ! k)" using assms(1) by (simp add: carries_def)
  then have "newline \<in> set (enc (xs ! k))" using enc_ends by blast
  moreover have "unread q = enc (xs ! k) @ concat (map enc (drop (Suc k) xs))"
    using channel_unread [OF assms(1)] k by (simp add: Cons_nth_drop_Suc [symmetric])
  ultimately show False using assms(2) by simp
qed

lemma channel_write: "channel q xs k \<Longrightarrow> ok x \<Longrightarrow> channel (pipe_write (enc x) q) (xs @ [x]) k"
  by (auto simp: carries_def pipe_write_def fputs_def)

lemma channel_fresh: "channel fresh_pipe [] 0"
  by (simp add: carries_def fresh_pipe_def)

lemma channel_closed [simp]: "channel (q\<lparr>closed := b\<rparr>) xs k \<longleftrightarrow> channel q xs k"
  by (simp add: carries_def)

lemma enc_printable: "ok x \<Longrightarrow> c_string (line_buffer (enc x) r) = Inr (enc x)"
  unfolding line_buffer_def by (rule c_string_nul) (use enc_ends in blast)

text \<open>A relay between two channels delivers the messages of the first one to the second, in order.\<close>

lemma relay_keeps:
  assumes src: "channel src xs k" and dst: "channel dst ys j" and p: "passed_on enc r xs k ys"
    and step: "relay_step r src dst = Some (r', src', dst')"
  obtains (same) k' where "channel src' xs k'" and "passed_on enc r' xs k' ys"
      and "dst' = dst"
    | (delivers) x where "channel src' xs k" and "passed_on enc r' xs k (ys @ [x])"
      and "ok x" and "dst' = pipe_write (enc x) dst"
proof (cases r)
  case Reading
  show ?thesis
  proof (cases "pipe_getline src")
    case None
    then have "r' = Finished" "src' = src" "dst' = dst"
      using step Reading by (auto simp: relay_step_def split: if_splits)
    then show ?thesis using src p Reading same [of k] by (simp add: passed_on_def)
  next
    case (Some lq)
    obtain l q where lq: "lq = (l, q)" by (cases lq)
    note g = channel_getlineE [OF src Some [unfolded lq]]
    have "passed_on enc (Carrying l) xs (Suc k) ys"
      using p g Reading by (auto simp: passed_on_def take_Suc_conv_app_nth)
    moreover have "r' = Carrying l" "src' = q" "dst' = dst"
      using step Reading Some by (simp_all add: relay_step_def lq)
    ultimately show ?thesis using g same [of "Suc k"] by simp
  qed
next
  case (Carrying l)
  then obtain x where x: "l = enc x" "take k xs = ys @ [x]" using p by (auto simp: passed_on_def)
  then have "x \<in> set xs" by (metis in_set_conv_decomp in_set_takeD)
  then have ok: "ok x" using src by (simp add: carries_def)
  have "r' = Reading" "src' = src" "dst' = pipe_write (enc x) dst"
    using step Carrying x(1) by (simp_all add: relay_step_def enc_printable [OF ok])
  moreover have "passed_on enc Reading xs k (ys @ [x])" using x(2) by (simp add: passed_on_def)
  ultimately show ?thesis using src ok delivers [of x] by simp
qed (use step in \<open>simp add: relay_step_def\<close>)

lemma passed_on_more: "channel src xs k \<Longrightarrow> passed_on enc r xs k ys \<Longrightarrow> passed_on enc r (xs @ zs) k ys"
  by (auto simp: passed_on_def carries_def split: relay.splits)

lemma relay_drained:
  assumes "channel src xs k" and "passed_on enc r xs k ys" and "newline \<notin> set (unread src)"
    and "\<And>l. r \<noteq> Carrying l"
  shows "ys = xs"
  using channel_drained [OF assms(1,3)] assms(2,4) by (auto simp: passed_on_def split: relay.splits)

end

end
