(* ===== verification/Client.thy ===== *)
theory Client
  imports View Pipes
begin

text \<open>
  \<open>src/server/rubiks_client.c\<close>: the state the three threads of a client share, the command a key
  is turned into, what a line from the server does to the displayed cube, and how the cube is
  drawn. Each function here is one round of a thread's loop.
\<close>

abbreviation (input) N_CHARACTERS_TO_ENCODE_MOVE :: nat where "N_CHARACTERS_TO_ENCODE_MOVE \<equiv> 4"

section \<open>The command of a key\<close>

definition face_digit :: "int \<Rightarrow> char option" where
  "face_digit face_num =
    (if face_num = FACE_FRONT then Some (CHR ''0'')
     else if face_num = FACE_RIGHT then Some (CHR ''1'')
     else if face_num = FACE_TOP then Some (CHR ''2'')
     else if face_num = FACE_BOTTOM then Some (CHR ''3'')
     else if face_num = FACE_LEFT then Some (CHR ''4'')
     else if face_num = FACE_BACK then Some (CHR ''5'')
     else None)"

definition encode_user_input :: "int \<Rightarrow> int \<Rightarrow> char cell list \<Rightarrow> (int \<times> char cell list) res" where
  "encode_user_input input face_num encoded_message =
    (case face_digit face_num of
       None \<Rightarrow> Inr (1, encoded_message)
     | Some c \<Rightarrow>
      (case arr_set encoded_message 0 c of Inl e \<Rightarrow> Inl e | Inr m0 \<Rightarrow>
      (case arr_set m0 (int (N_CHARACTERS_TO_ENCODE_MOVE - 2)) newline of Inl e \<Rightarrow> Inl e | Inr m1 \<Rightarrow>
      (case arr_set m1 (int (N_CHARACTERS_TO_ENCODE_MOVE - 1)) nul of Inl e \<Rightarrow> Inl e | Inr m2 \<Rightarrow>
       if input = KEY_a then mapR (\<lambda>m. (0, m)) (arr_set m2 1 (CHR ''1''))
       else if input = KEY_d then mapR (\<lambda>m. (0, m)) (arr_set m2 1 (CHR ''0''))
       else if input = KEY_space then mapR (\<lambda>m. (0, m)) (arr_set m2 1 (CHR ''2''))
       else Inr (1, m2)))))"

section \<open>The state of a client\<close>

record client_thread_args =
  client_mem :: mem
  cube_face_id :: "int cell"
  cube_state_to_display :: addr
  update_view_semaphore :: nat
  socket_out :: string
  msg :: "char cell list"
  client_screen :: "curses_call list"

definition on_client :: "(mem, 'a) prog \<Rightarrow> (client_thread_args, 'a) prog" where
  "on_client m = (\<lambda>c. case m (client_mem c) of
     Inl e \<Rightarrow> Inl e | Inr r \<Rightarrow> Inr (fst r, c\<lparr>client_mem := snd r\<rparr>))"

definition with_client ::
    "(client_thread_args \<Rightarrow> (client_thread_args, 'a) prog) \<Rightarrow> (client_thread_args, 'a) prog" where
  "with_client k = (\<lambda>c. k c c)"

text \<open>
  The three allocations before the cube are checked by the code; \<open>ok1\<close>, \<open>ok2\<close>, \<open>ok3\<close> say
  whether they succeed. The integer behind \<open>cube_face_id_ptr\<close> is never initialised.
\<close>

definition make_client_thread_args ::
    "bool \<Rightarrow> bool \<Rightarrow> bool \<Rightarrow> mem \<Rightarrow> client_thread_args res" where
  "make_client_thread_args ok1 ok2 ok3 h =
    (if \<not> ok1 then Inl (Exit_Failure ''Failed to create client_thread_args object'')
     else if \<not> ok2 then Inl (Exit_Failure ''Failed to create cube_face_id_ptr'')
     else if \<not> ok3 then Inl (Exit_Failure ''Failed to create semaphore object'')
     else mapR (\<lambda>r. \<lparr>client_mem = snd r, cube_face_id = None,
       cube_state_to_display = fst r, update_view_semaphore = 0, socket_out = [],
       msg = replicate N_CHARACTERS_TO_ENCODE_MOVE None, client_screen = []\<rparr>) (make_cube h))"

section \<open>The threads' actions\<close>

definition sem_post :: "(client_thread_args, unit) prog" where
  "sem_post = modifyM (\<lambda>c. c\<lparr>update_view_semaphore := update_view_semaphore c + 1\<rparr>)"

text \<open>The command of \<open>input\<close> for the face on the screen goes to the socket.\<close>

definition send_command :: "int \<Rightarrow> (client_thread_args, unit) prog" where
  "send_command input = with_client (\<lambda>c.
     bindM (liftM (rd_cell (cube_face_id c))) (\<lambda>f.
     bindM (liftM (encode_user_input input f (msg c))) (\<lambda>rm.
     thenM (modifyM (\<lambda>c. c\<lparr>msg := snd rm\<rparr>))
    (if fst rm \<noteq> 0 then returnM ()
     else bindM (liftM (c_string (snd rm))) (\<lambda>s. modifyM (\<lambda>c. c\<lparr>socket_out := fputs s (socket_out c)\<rparr>))))))"

definition choose_face :: "int \<Rightarrow> (client_thread_args, unit) prog" where
  "choose_face input = modifyM (\<lambda>c. c\<lparr>cube_face_id := Some (input - KEY_0)\<rparr>)"

text \<open>One round of \<open>listen_to_curses_and_send_message_to_socket\<close>; the result says whether the loop
  is left.\<close>

definition press_key :: "int \<Rightarrow> (client_thread_args, bool) prog" where
  "press_key input =
     thenM (if input = KEY_a \<or> input = KEY_d then send_command input
            else if KEY_0 \<le> input \<and> input \<le> KEY_5 then thenM (choose_face input) sem_post
            else if input = KEY_space then send_command input
            else returnM ())
     (if input = KEY_q \<or> input = KEY_Q
      then thenM (modifyM (\<lambda>c. c\<lparr>client_screen := client_screen c @ [Endwin]\<rparr>)) (returnM True)
      else returnM False)"

text \<open>One round of \<open>listen_to_socket_and_signal_semaphore_to_view\<close>, for the line in the buffer.\<close>

definition receive_line :: "bool \<Rightarrow> char cell list \<Rightarrow> (client_thread_args, unit) prog" where
  "receive_line sg line = thenM (with_client (\<lambda>c. on_client (decode sg (cube_state_to_display c) line))) sem_post"

definition update_curses_with_cube_state :: "addr \<Rightarrow> int \<Rightarrow> (mem, curses_call list) prog" where
  "update_curses_with_cube_state p face_id = draw_face True p face_id []"

text \<open>One round of \<open>listen_to_semaphore_and_update_view\<close>, after \<open>sem_wait\<close> has returned.\<close>

definition update_view :: "(client_thread_args, unit) prog" where
  "update_view = with_client (\<lambda>c.
     bindM (liftM (rd_cell (cube_face_id c))) (\<lambda>f.
     bindM (on_client (update_curses_with_cube_state (cube_state_to_display c) f)) (\<lambda>calls.
     modifyM (\<lambda>c. c\<lparr>client_screen := client_screen c @ calls\<rparr>))))"

section \<open>What a key sends\<close>

definition key_char :: "int \<Rightarrow> char option" where
  "key_char input = (if input = KEY_a then Some (CHR ''1'') else if input = KEY_d then Some (CHR ''0'')
     else if input = KEY_space then Some (CHR ''2'') else None)"

lemma face_digit_iff: "face_digit n \<noteq> None \<longleftrightarrow> 0 \<le> n \<and> n < int N_FACES"
  by (auto simp: face_digit_def)

lemma length4: "length xs = 4 \<Longrightarrow> \<exists>a b c d. xs = [a, b, c, d]"
  by (auto simp: numeral_eq_Suc length_Suc_conv)

lemma encode_user_input_sent:
  assumes "length buf = 4" and "face_digit n = Some c" and "key_char input = Some k"
  shows "encode_user_input input n buf = Inr (0, [Some c, Some k, Some newline, Some nul])"
  using assms length4 [of buf]
  by (auto simp: encode_user_input_def key_char_def arr_set_def split: if_splits)

lemma encode_user_input_unsent:
  assumes "length buf = 4"
  shows "face_digit n = None \<Longrightarrow> encode_user_input input n buf = Inr (1, buf)"
    and "face_digit n = Some c \<Longrightarrow> key_char input = None \<Longrightarrow>
      encode_user_input input n buf = Inr (1, [Some c, buf ! 1, Some newline, Some nul])"
  using assms length4 [of buf]
  by (auto simp: encode_user_input_def key_char_def arr_set_def split: if_splits)

lemma encode_user_input_short:
  assumes "length buf < 4" and "face_digit n \<noteq> None"
  shows "encode_user_input input n buf = Inl Out_Of_Bounds"
  using assms by (auto simp: encode_user_input_def arr_set_def)

text \<open>What the server makes of it.\<close>

definition key_command :: "int \<Rightarrow> nat \<Rightarrow> command" where
  "key_command input f = (if input = KEY_a then Turn f False else if input = KEY_d then Turn f True
     else if input = KEY_space then Toggle else Bad)"

definition command_line :: "int \<times> nat \<Rightarrow> string" where
  "command_line kf = [the (face_digit (int (snd kf))), the (key_char (fst kf)), newline]"

lemma command_of_table: "list_all (\<lambda>sg. list_all (\<lambda>input. list_all (\<lambda>f.
    command_of sg (command_line (input, f)) = key_command input f \<and>
    nul \<notin> set (command_line (input, f)) \<and> newline \<notin> set (butlast (command_line (input, f))))
    [0, 1, 2, 3, 4, 5]) [KEY_a, KEY_d, KEY_space]) [True, False]"
  by code_simp

lemma command_of_line:
  assumes "f < N_FACES" and "input = KEY_a \<or> input = KEY_d \<or> input = KEY_space"
  shows "command_of sg (command_line (input, f)) = key_command input f"
    and "is_line (command_line (input, f))"
proof -
  have "sg \<in> set [True, False]" "input \<in> set [KEY_a, KEY_d, KEY_space]" "f \<in> set [0, 1, 2, 3, 4, 5]"
    using assms by auto
  then have t: "command_of sg (command_line (input, f)) = key_command input f \<and>
      nul \<notin> set (command_line (input, f)) \<and> newline \<notin> set (butlast (command_line (input, f)))"
    using command_of_table unfolding list_all_iff by blast
  then show "command_of sg (command_line (input, f)) = key_command input f" by blast
  show "is_line (command_line (input, f))"
    unfolding is_line_def
    by (rule exI [of _ "butlast (command_line (input, f))"]) (use t in \<open>simp add: command_line_def\<close>)
qed

definition command_key :: "int \<times> nat \<Rightarrow> bool" where
  "command_key kf \<longleftrightarrow> snd kf < N_FACES \<and> (fst kf = KEY_a \<or> fst kf = KEY_d \<or> fst kf = KEY_space)"

interpretation commands: framed command_key command_line 3
  by unfold_locales (auto simp: command_key_def command_of_line(2), simp_all add: command_line_def)

interpretation cubes: framed solvable cube_line 55
proof unfold_locales
  fix V assume "solvable V"
  then show "is_line (cube_line V)"
    using cube_text_plain [OF solvable_plain] by (auto simp: is_line_def cube_line_def)
qed (simp add: cube_line_def)

section \<open>The actions on a well-formed client\<close>

text \<open>The displayed cube is complete, its colours are ordinary, and the number of the face on the
  screen, once set, is that of a face.\<close>

definition client_ok :: "client_thread_args \<Rightarrow> face_val list \<Rightarrow> bool" where
  "client_ok c V \<longleftrightarrow> cube_in (client_mem c) (cube_state_to_display c) V \<and> plain V \<and>
     length (msg c) = N_CHARACTERS_TO_ENCODE_MOVE \<and>
     (\<forall>f. cube_face_id c = Some f \<longrightarrow> 0 \<le> f \<and> f < int N_FACES)"

lemma runs_to_on_client [wp]:
  "runs_to (on_client m) c Q \<longleftrightarrow> runs_to m (client_mem c) (\<lambda>x h. Q x (c\<lparr>client_mem := h\<rparr>))"
  by (simp add: runs_to_def on_client_def split: sum.split)

lemma runs_to_with_client [wp]: "runs_to (with_client k) c Q \<longleftrightarrow> runs_to (k c) c Q"
  by (simp add: runs_to_def with_client_def)

lemma runs_to_sem_post [wp, simp]:
  "runs_to sem_post c Q \<longleftrightarrow> Q () (c\<lparr>update_view_semaphore := update_view_semaphore c + 1\<rparr>)"
  by (simp add: sem_post_def)

lemma runs_to_choose_face [wp, simp]:
  "runs_to (choose_face input) c Q \<longleftrightarrow> Q () (c\<lparr>cube_face_id := Some (input - KEY_0)\<rparr>)"
  by (simp add: choose_face_def)

lemma make_client_ok:
  assumes "empty_mem h" and "31 \<le> quota h"
  shows "\<exists>c. make_client_thread_args True True True h = Inr c \<and> client_ok c solved_val \<and>
    sole (client_mem c) (cube_state_to_display c) solved_val \<and> cube_face_id c = None \<and>
    update_view_semaphore c = 0 \<and> socket_out c = [] \<and> client_screen c = []"
proof -
  obtain p g where "make_cube h = Inr (p, g)" and "sole g p solved_val"
    using alone.make_law [OF assms] by (auto elim!: runs_toE)
  then show ?thesis
    using plain_solved sole_cube_in by (auto simp: make_client_thread_args_def client_ok_def)
qed

lemma send_command_eq:
  assumes c: "client_ok c V" and f: "cube_face_id c = Some (int f)"
    and k: "input = KEY_a \<or> input = KEY_d \<or> input = KEY_space"
  shows "send_command input c =
    Inr ((), c\<lparr>msg := map Some (command_line (input, f)) @ [Some nul],
      socket_out := fputs (command_line (input, f)) (socket_out c)\<rparr>)"
proof -
  have n: "f < N_FACES" and len: "length (msg c) = 4" using c f by (auto simp: client_ok_def)
  have "face_digit (int f) \<noteq> None" using n by (simp only: face_digit_iff) simp
  then obtain d where d: "face_digit (int f) = Some d" by auto
  obtain kc where kc: "key_char input = Some kc" using k by (auto simp: key_char_def)
  have line: "command_line (input, f) = [d, kc, newline]" by (simp add: command_line_def d kc)
  have "nul \<notin> set (command_line (input, f))"
    using command_of_line(2) [OF n k] by (auto simp: is_line_def)
  then have "c_string (map Some (command_line (input, f)) @ Some nul # []) = Inr (command_line (input, f))"
    by (rule c_string_nul)
  then show ?thesis
    by (simp add: send_command_def with_client_def prog_simps f rd_cell_def
      encode_user_input_sent [OF len d kc] line)
qed

lemma send_command_indeterminate: "cube_face_id c = None \<Longrightarrow> send_command input c = Inl Indeterminate"
  by (simp add: send_command_def with_client_def prog_simps rd_cell_def)

lemma receive_line_wp:
  assumes c: "client_ok c W" and V: "std V" "plain V"
  shows "runs_to (receive_line sg (line_buffer (cube_line V) rest)) c (\<lambda>_ c'.
    client_ok c' V \<and> cube_face_id c' = cube_face_id c \<and> socket_out c' = socket_out c \<and>
    client_screen c' = client_screen c \<and> update_view_semaphore c' = update_view_semaphore c + 1)"
proof -
  let ?p = "cube_state_to_display c" and ?h = "client_mem c"
  obtain L where W: "std W" and h: "cube_at ?h ?p L W" and wf: "wf_mem ?h"
    using c by (auto simp: client_ok_def cube_in_def)
  have "decoded sg (cube_line V) W = V"
    using decoded_cube_line [OF V(1) W plain_codable [OF V(2)]] .
  moreover have "54 \<le> length (cube_line V)" by (simp add: cube_line_def)
  ultimately have "runs_to (decode sg ?p (line_buffer (cube_line V) rest)) ?h
      (\<lambda>_ g. cube_in g ?p V)"
    using keeps_runs_to [OF keeps_decode wf decode_wp [OF h, of "cube_line V" sg rest]] V
    by (auto simp: cube_in_def elim!: runs_to_mono)
  then show ?thesis
    unfolding receive_line_def runs_to_then runs_to_with_client runs_to_on_client runs_to_sem_post
    by (rule runs_to_mono) (use c V in \<open>simp add: client_ok_def\<close>)
qed

lemma update_view_eq:
  assumes c: "client_ok c V" and f: "cube_face_id c = Some (int f)"
  shows "update_view c = Inr ((), c\<lparr>client_screen :=
    client_screen c @ drawing True (\<lambda>k. view V (f, k)) 9\<rparr>)"
proof -
  obtain L where h: "cube_at (client_mem c) (cube_state_to_display c) L V" and p: "plain V"
    using c by (auto simp: client_ok_def cube_in_def)
  have "f < N_FACES" using c f by (auto simp: client_ok_def)
  from draw_face_eq [OF h this p] show ?thesis
    by (simp add: update_view_def with_client_def prog_simps f rd_cell_def on_client_def
      update_curses_with_cube_state_def)
qed

lemma update_view_indeterminate: "cube_face_id c = None \<Longrightarrow> update_view c = Inl Indeterminate"
  by (simp add: update_view_def with_client_def prog_simps rd_cell_def)

text \<open>Every key keeps the client well formed, and only a command key needs the face to be set.\<close>

lemma press_key_wp:
  assumes c: "client_ok c V" and f: "cube_face_id c = Some (int f)"
  shows "runs_to (press_key input) c (\<lambda>left c'. client_ok c' V \<and> cube_face_id c' \<noteq> None \<and>
    client_mem c' = client_mem c \<and> (left \<longleftrightarrow> quits input) \<and>
    socket_out c' = socket_out c @ (if input = KEY_a \<or> input = KEY_d \<or> input = KEY_space
      then command_line (input, f) else []) \<and>
    update_view_semaphore c' = update_view_semaphore c +
      (if KEY_0 \<le> input \<and> input \<le> KEY_5 then 1 else 0))"
proof -
  have len: "length (command_line (input, f)) = 3" by (simp add: command_line_def)
  show ?thesis
  proof (cases "input = KEY_a \<or> input = KEY_d \<or> input = KEY_space")
    case True
    then have run: "press_key input = thenM (send_command input) (returnM False)" and "\<not> quits input"
      and "\<not> (KEY_0 \<le> input \<and> input \<le> KEY_5)"
      by (auto simp: press_key_def quits_def)
    then show ?thesis
      using c f len True unfolding run runs_to_then
      by (simp add: runs_to_def send_command_eq [OF c f True] prog_simps client_ok_def fputs_def)
  next
    case False
    then show ?thesis
      using c f by (auto simp: press_key_def wp client_ok_def quits_def)
  qed
qed

lemma press_key_indeterminate:
  assumes "cube_face_id c = None" and "input = KEY_a \<or> input = KEY_d \<or> input = KEY_space"
  shows "press_key input c = Inl Indeterminate"
  using assms by (auto simp: press_key_def prog_simps send_command_indeterminate)

section \<open>What the release of a client leaves behind\<close>

lemma cube_addrs_in_live:
  assumes c: "cube_at h p L V"
  shows "set (cube_addrs p L) \<subseteq> live h" and "length (cube_addrs p L) = 31"
proof -
  have len: "length L = N_FACES" using c by (simp add: cube_at_def)
  have face: "set (face_addrs (L ! i)) \<subseteq> live h \<and> length (face_addrs (L ! i)) = 5" if i: "i < N_FACES" for i
    using cube_at_face [OF c i]
    by (auto simp: face_at_def face_addrs_def live_def dom_def in_set_conv_nth adj_at_def)
  have "p \<in> live h" using c by (auto simp: cube_at_def live_def)
  then show "set (cube_addrs p L) \<subseteq> live h"
    using face len by (fastforce simp: cube_addrs_def in_set_conv_nth)
  have "map (length \<circ> face_addrs) L = replicate 6 5"
    using face len by (intro nth_equalityI) auto
  then show "length (cube_addrs p L) = 31" by (simp add: cube_addrs_def length_concat sum_list_replicate)
qed

lemma free_client_leaks:
  assumes "sole h p V"
  shows "runs_to (free cube_heap cube_heap_update p) h (\<lambda>_ h'. card (live h') = 30)"
proof -
  let ?h = h and ?p = p
  obtain L where wf: "wf_mem ?h" and h: "cube_at ?h ?p L V" and l: "live ?h \<subseteq> set (cube_addrs ?p L)"
    using assms by (auto simp: sole_def)
  let ?g = "cube_heap_update (\<lambda>m. m(?p := None)) ?h"
  have p: "cube_heap ?h ?p \<noteq> None" "?p \<noteq> NULL" using h by (auto simp: cube_at_def)
  then have "adjacent_heap ?h ?p = None" "face_heap ?h ?p = None"
    using wf_one_type [OF wf, of ?p] by (auto simp: one_type_def)
  then have "live ?g = live ?h - {?p}" using p by (auto simp: live_iff split: if_splits)
  also have "live ?h = set (cube_addrs ?p L)" using l cube_addrs_in_live(1) [OF h] by blast
  finally have "live ?g = set (cube_addrs ?p L) - {?p}" .
  moreover have "card (set (cube_addrs ?p L)) = 31"
    using h cube_addrs_in_live(2) [OF h] distinct_card by (fastforce simp: cube_at_def)
  moreover have "?p \<in> set (cube_addrs ?p L)" by (simp add: cube_addrs_def)
  ultimately have "card (live ?g) = 30" by simp
  then show ?thesis using p by (simp add: heap_wp)
qed

end
