(* ===== verification/Server_Threads.thy ===== *)
theory Server_Threads
  imports Client
begin

text \<open>
  The threads of the server process of \<open>src/server/rubiks_server.c\<close>: the six listeners
  (\<open>server_thread_listen_to_pipe\<close> with \<open>interpret_command\<close>) and the broadcaster
  (\<open>server_thread_wait_and_broadcast\<close>), which share the cube, its lock and the semaphore. Each
  thread is a step function with a program counter; a step is \<open>None\<close> where the thread blocks.
  The pipes to the six client-facing processes are the boundary: what those write and read are
  environment steps.
\<close>

section \<open>State\<close>

datatype thread = Listener nat | Broadcaster

datatype listener = Idle | Got string | Locked string | Applied | Posting | Ended

datatype broadcaster = Waiting | Woken | Holding | Encoded string | Sending string nat

record echo_server =
  server_mem :: mem
  global_cube_state :: addr
  global_cube_state_lock :: "thread option"
  broadcast_message_ready :: nat
  to_server :: "pipe list"
  to_client :: "pipe list"
  out_fds :: "int list"
  listeners :: "listener list"
  broadcaster :: broadcaster
  crashed :: "fault option"

section \<open>The listeners\<close>

definition set_listener :: "nat \<Rightarrow> listener \<Rightarrow> echo_server \<Rightarrow> echo_server" where
  "set_listener i pc s = s\<lparr>listeners := (listeners s)[i := pc]\<rparr>"

definition server_print :: "string \<Rightarrow> echo_server \<Rightarrow> echo_server" where
  "server_print t s = s\<lparr>server_mem := printed t (server_mem s)\<rparr>"

definition listener_read :: "nat \<Rightarrow> echo_server \<Rightarrow> echo_server option" where
  "listener_read i s = (case pipe_getline (to_server s ! i) of
     Some (l, q) \<Rightarrow> Some (server_print (''Interpreting line: '' @ l)
       (set_listener i (Got l) (s\<lparr>to_server := (to_server s)[i := q]\<rparr>)))
   | None \<Rightarrow> if closed (to_server s ! i) \<and> unread (to_server s ! i) = []
       then Some (set_listener i Ended s) else None)"

text \<open>The statements of \<open>interpret_command\<close>: lock, \<open>decode_user_input\<close>, unlock, post.\<close>

definition listener_lock :: "nat \<Rightarrow> string \<Rightarrow> echo_server \<Rightarrow> echo_server option" where
  "listener_lock i l s = (if global_cube_state_lock s = None
     then Some (set_listener i (Locked l) (s\<lparr>global_cube_state_lock := Some (Listener i)\<rparr>)) else None)"

definition listener_apply :: "platform \<Rightarrow> seed \<Rightarrow> nat \<Rightarrow> string \<Rightarrow> echo_server \<Rightarrow> echo_server option" where
  "listener_apply pf now i l s =
    (case decode_user_input pf now (line_buffer l []) (global_cube_state s) (server_mem s) of
       Inl e \<Rightarrow> Some (s\<lparr>crashed := Some e\<rparr>)
     | Inr r \<Rightarrow> Some (set_listener i Applied (s\<lparr>server_mem := snd r\<rparr>)))"

definition listener_unlock :: "nat \<Rightarrow> echo_server \<Rightarrow> echo_server option" where
  "listener_unlock i s = Some (set_listener i Posting (s\<lparr>global_cube_state_lock := None\<rparr>))"

definition listener_post :: "nat \<Rightarrow> echo_server \<Rightarrow> echo_server option" where
  "listener_post i s = Some (set_listener i Idle
     (s\<lparr>broadcast_message_ready := broadcast_message_ready s + 1\<rparr>))"

definition listener_step :: "platform \<Rightarrow> seed \<Rightarrow> nat \<Rightarrow> echo_server \<Rightarrow> echo_server option" where
  "listener_step pf now i s = (case listeners s ! i of
     Idle \<Rightarrow> listener_read i s
   | Got l \<Rightarrow> listener_lock i l s
   | Locked l \<Rightarrow> listener_apply pf now i l s
   | Applied \<Rightarrow> listener_unlock i s
   | Posting \<Rightarrow> listener_post i s
   | Ended \<Rightarrow> None)"

section \<open>The broadcaster\<close>

definition broadcast_encode :: "echo_server \<Rightarrow> echo_server option" where
  "broadcast_encode s =
    (case thenM (print (''Generating encoding for cube state...'' @ [newline]))
       (bindM (encode (global_cube_state s) (replicate N_CHARACTERS_TO_ENCODE_CUBE None)) (\<lambda>rb.
        thenM (if fst rb \<noteq> 0 then print ''Failed to encode cube'' else returnM ())
       (thenM (print ''Message to broadcast is: '')
       (bindM (liftM (c_string (snd rb))) (\<lambda>m. thenM (print (m @ [newline])) (returnM m))))))
       (server_mem s) of
       Inl e \<Rightarrow> Some (s\<lparr>crashed := Some e\<rparr>)
     | Inr r \<Rightarrow> Some (s\<lparr>server_mem := snd r, broadcaster := Encoded (fst r)\<rparr>))"

definition broadcast_note :: "nat \<Rightarrow> int \<Rightarrow> string" where
  "broadcast_note client_id fd =
     ''Broadcasting message to client '' @ show_nat client_id @ '' on file descriptor '' @ show_int fd @
     ''.'' @ [newline] @ ''Broadcasted message.''"

definition broadcast_step :: "echo_server \<Rightarrow> echo_server option" where
  "broadcast_step s = (case broadcaster s of
     Waiting \<Rightarrow> if broadcast_message_ready s = 0 then None
       else Some (s\<lparr>broadcast_message_ready := broadcast_message_ready s - 1, broadcaster := Woken\<rparr>)
   | Woken \<Rightarrow> if global_cube_state_lock s = None
       then Some (s\<lparr>global_cube_state_lock := Some Broadcaster, broadcaster := Holding\<rparr>) else None
   | Holding \<Rightarrow> broadcast_encode s
   | Encoded m \<Rightarrow> Some (server_print ''Broadcasting message.''
       (s\<lparr>global_cube_state_lock := None, broadcaster := Sending m 0\<rparr>))
   | Sending m k \<Rightarrow> Some (if k < N_FACES
       then if broken (to_client s ! k) then s\<lparr>crashed := Some (Signal ''SIGPIPE'')\<rparr>
       else server_print (broadcast_note k (out_fds s ! k))
         (s\<lparr>to_client := (to_client s)[k := pipe_write m (to_client s ! k)], broadcaster := Sending m (k + 1)\<rparr>)
       else s\<lparr>broadcaster := Waiting\<rparr>))"

section \<open>Steps\<close>

inductive internal_step :: "platform \<Rightarrow> echo_server \<Rightarrow> echo_server \<Rightarrow> bool" for pf where
  listener: "crashed s = None \<Longrightarrow> i < N_FACES \<Longrightarrow> listener_step pf now i s = Some s' \<Longrightarrow>
     internal_step pf s s'"
| broadcast: "crashed s = None \<Longrightarrow> broadcast_step s = Some s' \<Longrightarrow> internal_step pf s s'"

text \<open>The processes at the other ends of the pipes write any text, read, and close the end to
  write or the end to read.\<close>

inductive env_step :: "echo_server \<Rightarrow> echo_server \<Rightarrow> bool" where
  client_writes: "i < N_FACES \<Longrightarrow> \<not> closed (to_server s ! i) \<Longrightarrow>
     env_step s (s\<lparr>to_server := (to_server s)[i := pipe_write t (to_server s ! i)]\<rparr>)"
| client_closes: "i < N_FACES \<Longrightarrow>
     env_step s (s\<lparr>to_server := (to_server s)[i := (to_server s ! i)\<lparr>closed := True\<rparr>]\<rparr>)"
| client_reads: "i < N_FACES \<Longrightarrow> pipe_getline (to_client s ! i) = Some (l, q) \<Longrightarrow>
     env_step s (s\<lparr>to_client := (to_client s)[i := q]\<rparr>)"
| client_goes: "i < N_FACES \<Longrightarrow>
     env_step s (s\<lparr>to_client := (to_client s)[i := (to_client s ! i)\<lparr>broken := True\<rparr>]\<rparr>)"

definition server_start :: "int list \<Rightarrow> mem \<Rightarrow> addr \<Rightarrow> echo_server" where
  "server_start fds h p = \<lparr>server_mem = h, global_cube_state = p, global_cube_state_lock = None,
     broadcast_message_ready = 0, to_server = replicate N_FACES fresh_pipe,
     to_client = replicate N_FACES fresh_pipe, out_fds = fds, listeners = replicate N_FACES Idle,
     broadcaster = Waiting, crashed = None\<rparr>"

inductive reachable :: "platform \<Rightarrow> echo_server \<Rightarrow> echo_server \<Rightarrow> bool" for pf s0 where
  start: "reachable pf s0 s0"
| internal: "reachable pf s0 s \<Longrightarrow> internal_step pf s s' \<Longrightarrow> reachable pf s0 s'"
| env: "reachable pf s0 s \<Longrightarrow> env_step s s' \<Longrightarrow> reachable pf s0 s'"

inductive_cases internal_stepE: "internal_step pf s s'"
inductive_cases env_stepE: "env_step s s'"

section \<open>The lock\<close>

definition inside :: "listener \<Rightarrow> bool" where
  "inside pc = (case pc of Locked l \<Rightarrow> True | Applied \<Rightarrow> True | _ \<Rightarrow> False)"

definition casting :: "broadcaster \<Rightarrow> bool" where
  "casting pc = (case pc of Holding \<Rightarrow> True | Encoded m \<Rightarrow> True | _ \<Rightarrow> False)"

definition shape :: "echo_server \<Rightarrow> bool" where
  "shape s \<longleftrightarrow> length (listeners s) = N_FACES \<and> length (to_server s) = N_FACES \<and>
     length (to_client s) = N_FACES"

text \<open>The lock is held by exactly the thread that is between its lock and its unlock.\<close>

definition lock_ok :: "echo_server \<Rightarrow> bool" where
  "lock_ok s \<longleftrightarrow>
     (\<forall>i<N_FACES. inside (listeners s ! i) \<longleftrightarrow> global_cube_state_lock s = Some (Listener i)) \<and>
     (casting (broadcaster s) \<longleftrightarrow> global_cube_state_lock s = Some Broadcaster) \<and>
     (\<forall>i. global_cube_state_lock s = Some (Listener i) \<longrightarrow> i < N_FACES)"

lemmas listener_defs = listener_read_def listener_lock_def listener_apply_def listener_unlock_def
  listener_post_def set_listener_def server_print_def

lemmas broadcast_defs = broadcast_encode_def server_print_def

lemma inside_simps [simp]:
  "\<not> inside Idle" "\<not> inside (Got l)" "inside (Locked l)" "inside Applied" "\<not> inside Posting"
  "\<not> inside Ended"
  by (simp_all add: inside_def)

lemma casting_simps [simp]:
  "\<not> casting Waiting" "\<not> casting Woken" "casting Holding" "casting (Encoded m)" "\<not> casting (Sending m k)"
  by (simp_all add: casting_def)

lemma shape_lock_listener:
  assumes "shape s" and "lock_ok s" and i: "i < N_FACES" and step: "listener_step pf now i s = Some s'"
  shows "shape s' \<and> lock_ok s'"
proof -
  have own: "inside (listeners s ! i) \<longleftrightarrow> global_cube_state_lock s = Some (Listener i)"
    using assms by (simp add: lock_ok_def)
  show ?thesis
    using assms own
    by (cases "listeners s ! i") (auto simp: listener_step_def listener_defs shape_def lock_ok_def
      nth_list_update split: option.splits if_splits sum.splits)
qed

lemma shape_lock_broadcast:
  assumes "shape s" and "lock_ok s" and step: "broadcast_step s = Some s'"
  shows "shape s' \<and> lock_ok s'"
  using assms
  by (cases "broadcaster s") (auto simp: broadcast_step_def broadcast_defs shape_def lock_ok_def
    split: if_splits sum.splits)

section \<open>The cube and what has been broadcast\<close>

text \<open>Text that consists of whole messages, each a cube that can be solved; text whose last message
  is \<open>V\<close>.\<close>

definition frames :: "string \<Rightarrow> bool" where
  "frames t \<longleftrightarrow> (\<exists>Vs. (\<forall>W\<in>set Vs. solvable W) \<and> t = concat (map cube_line Vs))"

definition sent :: "face_val list \<Rightarrow> string \<Rightarrow> bool" where
  "sent V t \<longleftrightarrow> (\<exists>Vs. (\<forall>W\<in>set Vs. solvable W) \<and> t = concat (map cube_line (Vs @ [V])))"

definition holds :: "face_val list \<Rightarrow> echo_server \<Rightarrow> bool" where
  "holds V s \<longleftrightarrow> cube_in (server_mem s) (global_cube_state s) V \<and> solvable V"

definition lines_ok :: "echo_server \<Rightarrow> bool" where
  "lines_ok s \<longleftrightarrow> (\<forall>i<N_FACES. \<forall>l. listeners s ! i = Got l \<or> listeners s ! i = Locked l \<longrightarrow> l \<noteq> [])"

definition casts :: "face_val list \<Rightarrow> echo_server \<Rightarrow> bool" where
  "casts V s \<longleftrightarrow> (\<forall>k<N_FACES. frames (written (to_client s ! k))) \<and>
     (\<forall>m. broadcaster s = Encoded m \<longrightarrow> m = cube_line V) \<and>
     (\<forall>m k. broadcaster s = Sending m k \<longrightarrow> k \<le> N_FACES \<and> (\<exists>W. solvable W \<and> m = cube_line W))"

text \<open>A change of the cube has not yet reached the broadcaster's message; the message is current
  and has been sent to the clients before \<open>k\<close>.\<close>

definition behind :: "echo_server \<Rightarrow> bool" where
  "behind s \<longleftrightarrow> 0 < broadcast_message_ready s \<or>
     (\<exists>i<N_FACES. listeners s ! i = Applied \<or> listeners s ! i = Posting) \<or>
     broadcaster s = Woken \<or> broadcaster s = Holding"

definition uptodate :: "face_val list \<Rightarrow> echo_server \<Rightarrow> bool" where
  "uptodate V s = (case broadcaster s of
     Waiting \<Rightarrow> (\<forall>k<N_FACES. sent V (written (to_client s ! k))) \<or>
       (V = solved_val \<and> (\<forall>k<N_FACES. written (to_client s ! k) = []))
   | Sending m k \<Rightarrow> m = cube_line V \<and> (\<forall>j<k. sent V (written (to_client s ! j)))
   | Encoded m \<Rightarrow> True
   | _ \<Rightarrow> False)"

definition server_inv :: "face_val list \<Rightarrow> echo_server \<Rightarrow> bool" where
  "server_inv V s \<longleftrightarrow> shape s \<and> lock_ok s \<and> lines_ok s \<and> holds V s \<and> casts V s \<and>
     (behind s \<or> uptodate V s)"

lemma frames_Nil [simp]: "frames []"
  unfolding frames_def by (rule exI [of _ "[]"]) simp

lemma frames_append: "frames t \<Longrightarrow> solvable V \<Longrightarrow> frames (fputs (cube_line V) t) \<and> sent V (fputs (cube_line V) t)"
proof -
  assume "frames t" and V: "solvable V"
  then obtain Vs where Vs: "\<forall>W\<in>set Vs. solvable W" "t = concat (map cube_line Vs)"
    by (auto simp: frames_def)
  then have "fputs (cube_line V) t = concat (map cube_line (Vs @ [V]))" by (simp add: fputs_def)
  moreover have "\<forall>W\<in>set (Vs @ [V]). solvable W" using Vs V by auto
  ultimately show ?thesis unfolding frames_def sent_def using Vs(1) by blast
qed

lemma lines_ok_listener:
  assumes "shape s" and "lines_ok s" and "i < N_FACES" and "listener_step pf now i s = Some s'"
  shows "lines_ok s'"
  using assms
  by (cases "listeners s ! i") (auto simp: listener_step_def listener_defs shape_def lines_ok_def
    nth_list_update pipe_getline_nonempty split: option.splits if_splits sum.splits)

lemma listener_frame:
  assumes "listener_step pf now i s = Some s'"
  shows "broadcaster s' = broadcaster s" and "to_client s' = to_client s"
    and "global_cube_state s' = global_cube_state s"
    and "broadcast_message_ready s \<le> broadcast_message_ready s'"
    and "j \<noteq> i \<Longrightarrow> listeners s' ! j = listeners s ! j"
  using assms by (cases "listeners s ! i"; auto simp: listener_step_def listener_defs
    split: option.splits if_splits sum.splits)+

lemma behind_listener:
  assumes "shape s" and i: "i < N_FACES" and step: "listener_step pf now i s = Some s'" and "behind s"
  shows "behind s'"
proof (cases "listeners s ! i = Applied \<or> listeners s ! i = Posting")
  case True
  then have "listeners s' ! i = Posting \<or> 0 < broadcast_message_ready s'"
    using assms by (auto simp: listener_step_def listener_unlock_def listener_post_def set_listener_def shape_def)
  then show ?thesis using i by (auto simp: behind_def)
next
  case False
  have "j \<noteq> i" if "listeners s ! j = Applied \<or> listeners s ! j = Posting" for j
    using that False by blast
  then have "\<exists>j<N_FACES. listeners s' ! j = Applied \<or> listeners s' ! j = Posting"
    if "\<exists>j<N_FACES. listeners s ! j = Applied \<or> listeners s ! j = Posting"
    using that listener_frame(5) [OF step] by metis
  then show ?thesis
    using \<open>behind s\<close> listener_frame(1,4) [OF step] unfolding behind_def by auto
qed

lemma uptodate_cong:
  "broadcaster s' = broadcaster s \<Longrightarrow> to_client s' = to_client s \<Longrightarrow> uptodate V s' \<longleftrightarrow> uptodate V s"
  by (cases "broadcaster s") (simp_all add: uptodate_def)

lemma uptodate_listener: "listener_step pf now i s = Some s' \<Longrightarrow> uptodate V s \<Longrightarrow> uptodate V s'"
  using uptodate_cong [OF listener_frame(1,2)] by blast

text \<open>Only the step that applies a command touches the cube.\<close>

lemma holds_listener:
  assumes "listener_step pf now i s = Some s'" and "\<And>l. listeners s ! i \<noteq> Locked l" and "holds V s"
  shows "holds V s'"
  using assms by (cases "listeners s ! i") (auto simp: listener_step_def listener_defs holds_def
    split: option.splits if_splits)

lemma casts_listener:
  "listener_step pf now i s = Some s' \<Longrightarrow> casts V s \<Longrightarrow> casts V s'"
  using listener_frame(1,2) by (simp add: casts_def)

lemma casts_change: "casts V s \<Longrightarrow> \<not> casting (broadcaster s) \<Longrightarrow> casts V' s"
  by (auto simp: casts_def)

lemma server_inv_listener:
  assumes inv: "server_inv V s" and rng: "rng_ok (rand_r pf)" and i: "i < N_FACES"
    and step: "listener_step pf now i s = Some s'"
  shows "\<exists>V'. server_inv V' s'"
proof -
  have sh: "shape s" and lk: "lock_ok s" and ln: "lines_ok s" and h: "holds V s" and ca: "casts V s"
    and nw: "behind s \<or> uptodate V s"
    using inv by (simp_all add: server_inv_def)
  note keep = shape_lock_listener [OF sh lk i step] lines_ok_listener [OF sh ln i step]
  show ?thesis
  proof (cases "\<exists>l. listeners s ! i = Locked l")
    case False
    then have "holds V s'" using holds_listener [OF step _ h] by blast
    moreover have "behind s' \<or> uptodate V s'"
      using nw behind_listener [OF sh i step] uptodate_listener [OF step] by blast
    ultimately have "server_inv V s'"
      using keep casts_listener [OF step ca] by (simp add: server_inv_def)
    then show ?thesis ..
  next
    case True
    then obtain l where l: "listeners s ! i = Locked l" by blast
    then have run: "listener_apply pf now i l s = Some s'" using step by (simp add: listener_step_def)
    show ?thesis
    proof (cases "decode_user_input pf now (line_buffer l []) (global_cube_state s) (server_mem s)")
      case (Inl e)
      with run have s': "s' = s\<lparr>crashed := Some e\<rparr>" by (simp add: listener_apply_def)
      have "holds V s'" using h by (simp add: s' holds_def)
      moreover have "behind s' \<or> uptodate V s'" using nw by (simp add: s' behind_def uptodate_cong [of "s\<lparr>crashed := Some e\<rparr>" s])
      ultimately have "server_inv V s'"
        using keep casts_listener [OF step ca] by (simp add: server_inv_def)
      then show ?thesis ..
    next
      case (Inr r)
      obtain u h' where r: "r = (u, h')" by (cases r)
      have s': "s' = set_listener i Applied (s\<lparr>server_mem := h'\<rparr>)"
        using run Inr by (simp add: listener_apply_def r)
      have "l \<noteq> []" using ln l i by (simp add: lines_ok_def)
      moreover have c: "cube_in (server_mem s) (global_cube_state s) V" and sv: "solvable V"
        using h by (simp_all add: holds_def)
      ultimately obtain V' where ob: "obeys (command_of (signed_char pf) l) V V'"
        and c': "cube_in h' (global_cube_state s) V'"
        using decode_user_input_returns [OF rng _ c Inr [unfolded r]] by blast
      have "solvable V'" by (rule obeys_solvable [OF ob sv command_face])
      then have "holds V' s'" using c' by (simp add: s' holds_def set_listener_def)
      moreover have "global_cube_state_lock s = Some (Listener i)"
        using lk i l by (auto simp: lock_ok_def)
      then have "\<not> casting (broadcaster s)" using lk by (simp add: lock_ok_def)
      then have "casts V' s'" by (rule casts_listener [OF step casts_change [OF ca]])
      moreover have "behind s'" using i sh by (auto simp: s' behind_def set_listener_def shape_def)
      ultimately have "server_inv V' s'" using keep by (simp add: server_inv_def)
      then show ?thesis ..
    qed
  qed
qed

lemma broadcast_encode_eq:
  assumes "holds V s"
  shows "\<exists>t. broadcast_encode s =
    Some (s\<lparr>server_mem := printed t (server_mem s), broadcaster := Encoded (cube_line V)\<rparr>)"
proof -
  let ?h = "server_mem s" and ?p = "global_cube_state s" and ?buf = "replicate 56 None :: char cell list"
  let ?g = "printed (''Generating encoding for cube state...'' @ [newline]) ?h"
  let ?g' = "printed (''Inside of encode, the result is '' @ cube_line V @ [newline]) ?g"
  have "cube_in ?g ?p V" and pl: "plain V"
    using assms by (auto simp: holds_def intro: solvable_plain)
  then obtain L where c: "cube_at ?g ?p L V" by (auto simp: cube_in_def)
  have nl: "nul \<notin> set (cube_text V)" using cube_text_plain [OF pl] by simp
  have enc: "encode ?p ?buf ?g = Inr ((0, line_buffer (cube_line V) []), ?g')"
    using encode_wp [OF c plain_fit [OF pl] _ nl, of ?buf] by simp
  have pr: "print t h = Inr ((), printed t h)" for t h
    by (simp add: print_def printed_def prog_simps)
  have "nul \<notin> set (cube_line V)" using nl by (simp add: cube_line_def)
  then have cs: "c_string (line_buffer (cube_line V) []) = Inr (cube_line V)"
    unfolding line_buffer_def by (rule c_string_nul)
  have "printed u (printed t h) = printed (t @ u) h" for t u h by (simp add: printed_def)
  note joined = this
  show ?thesis
    by (simp only: broadcast_encode_def thenM_apply bindM_apply liftM_apply returnM_apply pr enc cs
      sum.case fst_conv snd_conv simp_thms if_False joined) blast
qed

lemma server_inv_broadcast:
  assumes inv: "server_inv V s" and step: "broadcast_step s = Some s'"
  shows "server_inv V s'"
proof -
  have sh: "shape s" and lk: "lock_ok s" and ln: "lines_ok s" and h: "holds V s" and ca: "casts V s"
    and nw: "behind s \<or> uptodate V s"
    using inv by (simp_all add: server_inv_def)
  have keep: "shape s' \<and> lock_ok s'" by (rule shape_lock_broadcast [OF sh lk step])
  have sv: "solvable V" using h by (simp add: holds_def)
  show ?thesis
  proof (cases "broadcaster s")
    case Waiting
    then have s': "s' = s\<lparr>broadcast_message_ready := broadcast_message_ready s - 1, broadcaster := Woken\<rparr>"
      using step by (auto simp: broadcast_step_def split: if_splits)
    then show ?thesis
      using keep ln h ca by (simp add: server_inv_def lines_ok_def holds_def casts_def behind_def)
  next
    case Woken
    then have s': "s' = s\<lparr>global_cube_state_lock := Some Broadcaster, broadcaster := Holding\<rparr>"
      using step by (auto simp: broadcast_step_def split: if_splits)
    then show ?thesis
      using keep ln h ca by (simp add: server_inv_def lines_ok_def holds_def casts_def behind_def)
  next
    case Holding
    obtain t where "s' = s\<lparr>server_mem := printed t (server_mem s), broadcaster := Encoded (cube_line V)\<rparr>"
      using step broadcast_encode_eq [OF h] Holding by (auto simp: broadcast_step_def)
    then show ?thesis
      using keep ln h ca by (simp add: server_inv_def lines_ok_def holds_def casts_def uptodate_def)
  next
    case (Encoded m)
    then have s': "s' = server_print ''Broadcasting message.''
        (s\<lparr>global_cube_state_lock := None, broadcaster := Sending m 0\<rparr>)"
      using step by (simp add: broadcast_step_def)
    have "m = cube_line V" using ca Encoded by (simp add: casts_def)
    then show ?thesis
      using keep ln h ca sv
      by (auto simp: s' server_inv_def lines_ok_def holds_def casts_def uptodate_def server_print_def)
  next
    case (Sending m k)
    show ?thesis
    proof (cases "k < N_FACES")
      case True
      obtain W where W: "solvable W" "m = cube_line W" using ca Sending by (auto simp: casts_def)
      let ?q = "pipe_write m (to_client s ! k)"
      show ?thesis
      proof (cases "broken (to_client s ! k)")
        case True
        then have s': "s' = s\<lparr>crashed := Some (Signal ''SIGPIPE'')\<rparr>"
          using step Sending \<open>k < N_FACES\<close> by (simp add: broadcast_step_def)
        then show ?thesis
          using keep ln h ca nw uptodate_cong [of s' s V]
          by (simp add: server_inv_def lines_ok_def holds_def casts_def behind_def)
      next
        case whole: False
        have s': "s' = server_print (broadcast_note k (out_fds s ! k))
            (s\<lparr>to_client := (to_client s)[k := ?q], broadcaster := Sending m (k + 1)\<rparr>)"
          using step Sending True whole by (simp add: broadcast_step_def)
        have "frames (written (to_client s ! k))" using ca True by (simp add: casts_def)
        note app = frames_append [OF this]
        have "casts V s'"
          using ca W app [OF W(1)] True sh
          by (auto simp: s' casts_def server_print_def nth_list_update pipe_write_def shape_def)
        moreover have "behind s' \<or> uptodate V s'"
        proof (cases "behind s")
          case True
          then show ?thesis using Sending by (simp add: s' behind_def server_print_def)
        next
          case False
          then have "m = cube_line V" "\<forall>j<k. sent V (written (to_client s ! j))"
            using nw Sending by (simp_all add: uptodate_def)
          then have "uptodate V s'"
            using app [OF sv] True sh
            by (auto simp: s' uptodate_def server_print_def nth_list_update pipe_write_def shape_def less_Suc_eq)
          then show ?thesis ..
        qed
        moreover have "lines_ok s'" "holds V s'"
          using ln h by (simp_all add: s' server_print_def lines_ok_def holds_def)
        ultimately show ?thesis using keep by (simp add: server_inv_def)
      qed
    next
      case False
      then have s': "s' = s\<lparr>broadcaster := Waiting\<rparr>"
        using step Sending by (simp add: broadcast_step_def)
      have "k = N_FACES" using ca Sending False by (auto simp: casts_def)
      then show ?thesis
        using keep ln h ca nw Sending
        by (auto simp: s' server_inv_def lines_ok_def holds_def casts_def uptodate_def behind_def)
    qed
  qed
qed

lemma server_inv_to_client:
  assumes inv: "server_inv V s" and s': "s' = s\<lparr>to_client := (to_client s)[i := q]\<rparr>"
    and "written q = written (to_client s ! i)"
  shows "server_inv V s'"
proof -
  have w: "written (to_client s' ! k) = written (to_client s ! k)" for k
    using assms(3) by (cases "k = i"; cases "i < length (to_client s)") (simp_all add: s' list_update_beyond)
  have b: "broadcaster s' = broadcaster s" by (simp add: s')
  have "uptodate V s' \<longleftrightarrow> uptodate V s"
    by (cases "broadcaster s") (simp_all add: uptodate_def w b)
  moreover have "casts V s' \<longleftrightarrow> casts V s" by (simp add: casts_def w b)
  ultimately show ?thesis
    using inv by (simp add: server_inv_def) (simp add: s' shape_def lock_ok_def lines_ok_def holds_def behind_def)
qed

lemma server_inv_env:
  assumes inv: "server_inv V s" and step: "env_step s s'"
  shows "server_inv V s'"
  using step
proof (rule env_stepE)
  fix i t
  assume "s' = s\<lparr>to_server := (to_server s)[i := pipe_write t (to_server s ! i)]\<rparr>"
  then show ?thesis
    using inv uptodate_cong [of s' s V]
    by (simp add: server_inv_def shape_def lock_ok_def lines_ok_def holds_def casts_def behind_def)
next
  fix i
  assume "s' = s\<lparr>to_server := (to_server s)[i := (to_server s ! i)\<lparr>closed := True\<rparr>]\<rparr>"
  then show ?thesis
    using inv uptodate_cong [of s' s V]
    by (simp add: server_inv_def shape_def lock_ok_def lines_ok_def holds_def casts_def behind_def)
next
  fix i l q
  assume s': "s' = s\<lparr>to_client := (to_client s)[i := q]\<rparr>" and g: "pipe_getline (to_client s ! i) = Some (l, q)"
  show ?thesis by (rule server_inv_to_client [OF inv s']) (use pipe_getline_written [OF g] in simp)
next
  fix i
  assume s': "s' = s\<lparr>to_client := (to_client s)[i := (to_client s ! i)\<lparr>broken := True\<rparr>]\<rparr>"
  show ?thesis by (rule server_inv_to_client [OF inv s']) simp
qed

lemma server_inv_start:
  assumes "cube_in h p solved_val"
  shows "server_inv solved_val (server_start fds h p)"
  using assms
  by (simp add: server_inv_def server_start_def shape_def lock_ok_def lines_ok_def holds_def casts_def
    uptodate_def fresh_pipe_def)

theorem server_inv_reachable:
  assumes rng: "rng_ok (rand_r pf)" and h: "cube_in h p solved_val"
    and r: "reachable pf (server_start fds h p) s"
  shows "\<exists>V. server_inv V s"
  using r
proof induction
  case start
  then show ?case using server_inv_start [OF h] by blast
next
  case (internal s s')
  then obtain V where inv: "server_inv V s" by blast
  show ?case
    using internal.hyps(2)
  proof (rule internal_stepE)
    fix i now assume "i < N_FACES" "listener_step pf now i s = Some s'"
    then show ?thesis by (rule server_inv_listener [OF inv rng])
  next
    assume "broadcast_step s = Some s'"
    then show ?thesis using server_inv_broadcast [OF inv] by blast
  qed
next
  case (env s s')
  then show ?case using server_inv_env by blast
qed

section \<open>When no thread can move\<close>

definition stuck :: "platform \<Rightarrow> echo_server \<Rightarrow> bool" where
  "stuck pf s \<longleftrightarrow> crashed s = None \<and> (\<forall>s'. \<not> internal_step pf s s')"

definition resting :: "echo_server \<Rightarrow> bool" where
  "resting s \<longleftrightarrow> (\<forall>i<N_FACES. (listeners s ! i = Idle \<and> newline \<notin> set (unread (to_server s ! i))) \<or>
     listeners s ! i = Ended) \<and> global_cube_state_lock s = None \<and> broadcast_message_ready s = 0 \<and>
     broadcaster s = Waiting"

lemma listener_apply_moves: "listener_apply pf now i l s \<noteq> None"
  by (simp add: listener_apply_def split: sum.split)

lemma broadcast_encode_moves: "broadcast_encode s \<noteq> None"
  by (simp add: broadcast_encode_def split: sum.split)

lemma stuckD:
  assumes "stuck pf s"
  shows "i < N_FACES \<Longrightarrow> listener_step pf now i s = None" and "broadcast_step s = None"
  using assms internal_step.listener [of s i pf now] internal_step.broadcast [of s _ pf]
  by (force simp: stuck_def)+

lemma stuck_lock:
  assumes "lock_ok s" and st: "stuck pf s"
  shows "global_cube_state_lock s = None"
proof (cases "global_cube_state_lock s")
  case (Some t)
  have False
  proof (cases t)
    case (Listener i)
    then have i: "i < N_FACES" and ins: "inside (listeners s ! i)"
      using assms(1) Some by (auto simp: lock_ok_def)
    have "listener_step pf 0 i s = None" by (rule stuckD(1) [OF st i])
    then show False
      using ins
      by (cases "listeners s ! i") (auto simp: listener_step_def listener_unlock_def listener_apply_moves)
  next
    case Broadcaster
    then have "casting (broadcaster s)" using assms(1) Some by (auto simp: lock_ok_def)
    then show False
      using stuckD(2) [OF st] broadcast_encode_moves [of s]
      by (cases "broadcaster s") (auto simp: broadcast_step_def)
  qed
  then show ?thesis ..
qed

lemma stuck_resting:
  assumes lk: "lock_ok s" and st: "stuck pf s"
  shows "resting s"
proof -
  have free: "global_cube_state_lock s = None" by (rule stuck_lock [OF assms])
  have "(listeners s ! i = Idle \<and> newline \<notin> set (unread (to_server s ! i))) \<or> listeners s ! i = Ended"
    if i: "i < N_FACES" for i
  proof -
    have none: "listener_step pf 0 i s = None" by (rule stuckD(1) [OF st i])
    show ?thesis
    proof (cases "listeners s ! i")
      case Idle
      have "newline \<notin> set (unread (to_server s ! i))"
      proof
        assume n: "newline \<in> set (unread (to_server s ! i))"
        then have "unread (to_server s ! i) \<noteq> []" by auto
        from getline_some [OF this] n have "pipe_getline (to_server s ! i) \<noteq> None"
          by (auto simp: pipe_getline_def)
        then show False using none Idle by (auto simp: listener_step_def listener_read_def)
      qed
      with Idle show ?thesis by simp
    next
      case (Got l)
      with none free show ?thesis by (simp add: listener_step_def listener_lock_def)
    next
      case (Locked l)
      with none listener_apply_moves [of pf 0 i l s] show ?thesis by (simp add: listener_step_def)
    qed (use none in \<open>simp_all add: listener_step_def listener_unlock_def listener_post_def\<close>)
  qed
  moreover have "broadcaster s = Waiting \<and> broadcast_message_ready s = 0"
    using stuckD(2) [OF st] free broadcast_encode_moves [of s]
    by (cases "broadcaster s") (auto simp: broadcast_step_def split: if_splits)
  ultimately show ?thesis using free by (simp add: resting_def)
qed

text \<open>At rest every client has been sent the cube of the server, unless there was no command at all.\<close>

lemma resting_current:
  assumes "server_inv V s" and "resting s"
  shows "(\<forall>k<N_FACES. sent V (written (to_client s ! k))) \<or>
    (V = solved_val \<and> (\<forall>k<N_FACES. written (to_client s ! k) = []))"
proof -
  have "\<not> behind s" using assms(2) by (auto simp: resting_def behind_def)
  then have "uptodate V s" using assms(1) by (simp add: server_inv_def)
  then show ?thesis using assms(2) by (simp add: uptodate_def resting_def)
qed

section \<open>The threads come to rest\<close>

definition listener_work :: "listener \<Rightarrow> nat" where
  "listener_work pc = (case pc of
     Idle \<Rightarrow> 1 | Got l \<Rightarrow> 16 | Locked l \<Rightarrow> 15 | Applied \<Rightarrow> 14 | Posting \<Rightarrow> 13 | Ended \<Rightarrow> 0)"

definition broadcaster_work :: "broadcaster \<Rightarrow> nat" where
  "broadcaster_work pc = (case pc of
     Waiting \<Rightarrow> 0 | Woken \<Rightarrow> 10 | Holding \<Rightarrow> 9 | Encoded m \<Rightarrow> 8 | Sending m k \<Rightarrow> 1 + (N_FACES - k))"

definition channel_work :: "echo_server \<Rightarrow> nat \<Rightarrow> nat" where
  "channel_work s i = listener_work (listeners s ! i) + 17 * length (unread (to_server s ! i))"

definition work :: "echo_server \<Rightarrow> nat" where
  "work s = (if crashed s = None then 1 else 0) + (\<Sum>i<N_FACES. channel_work s i) +
     11 * broadcast_message_ready s + broadcaster_work (broadcaster s)"

lemma sum_change:
  fixes f g :: "nat \<Rightarrow> nat"
  assumes "i < n" and "\<And>j. j < n \<Longrightarrow> j \<noteq> i \<Longrightarrow> g j = f j" and "g i + a < f i + b"
  shows "sum g {..<n} + a < sum f {..<n} + b"
proof -
  have "sum f {..<n} = f i + sum f ({..<n} - {i})" and "sum g {..<n} = g i + sum g ({..<n} - {i})"
    using assms(1) by (simp_all add: sum.remove)
  moreover have "sum g ({..<n} - {i}) = sum f ({..<n} - {i})"
    using assms(2) by (intro sum.cong) auto
  ultimately show ?thesis using assms(3) by simp
qed

lemma listener_work_less:
  assumes sh: "shape s" and i: "i < N_FACES" and cr: "crashed s = None"
    and step: "listener_step pf now i s = Some s'"
  shows "work s' < work s"
proof -
  have other: "channel_work s' j = channel_work s j" if "j \<noteq> i" for j
    using step that by (cases "listeners s ! i") (auto simp: listener_step_def listener_defs
      channel_work_def split: option.splits if_splits sum.splits)
  have bw: "broadcaster s' = broadcaster s" by (rule listener_frame(1) [OF step])
  consider (moved) "crashed s' = None" "channel_work s' i + 11 * broadcast_message_ready s' <
      channel_work s i + 11 * broadcast_message_ready s"
    | (crash) e where "s' = s\<lparr>crashed := Some e\<rparr>"
  proof (cases "listeners s ! i")
    case Idle
    show ?thesis
    proof (cases "pipe_getline (to_server s ! i)")
      case None
      then show ?thesis
        using moved Idle step cr sh i
        by (auto simp: listener_step_def listener_defs channel_work_def listener_work_def shape_def
          split: if_splits)
    next
      case (Some lq)
      obtain l q where lq: "lq = (l, q)" by (cases lq)
      have u: "length (unread (to_server s ! i)) = length l + length (unread q)"
        using pipe_getline_unread Some by (simp add: lq)
      have "l \<noteq> []" using Some pipe_getline_nonempty by (simp add: lq)
      then obtain n where n: "length l = Suc n" by (cases l) auto
      have s': "listeners s' ! i = Got l \<and> to_server s' ! i = q \<and> crashed s' = None \<and>
          broadcast_message_ready s' = broadcast_message_ready s"
        using Idle step cr sh i Some
        by (auto simp: lq listener_step_def listener_defs shape_def)
      show ?thesis
        using moved s' Idle by (simp add: channel_work_def listener_work_def u n)
    qed
  next
    case (Got l)
    then show ?thesis
      using moved step cr sh i by (auto simp: listener_step_def listener_defs channel_work_def
        listener_work_def shape_def split: if_splits)
  next
    case (Locked l)
    then have "listener_apply pf now i l s = Some s'" using step by (simp add: listener_step_def)
    then show ?thesis
      using moved crash Locked cr sh i by (auto simp: listener_apply_def set_listener_def
        channel_work_def listener_work_def shape_def split: sum.splits)
  next
    case Applied
    then show ?thesis
      using moved step cr sh i by (auto simp: listener_step_def listener_defs channel_work_def
        listener_work_def shape_def)
  next
    case Posting
    then show ?thesis
      using moved step cr sh i by (auto simp: listener_step_def listener_defs channel_work_def
        listener_work_def shape_def)
  qed (use step in \<open>simp add: listener_step_def\<close>)
  then show ?thesis
  proof cases
    case moved
    have "sum (channel_work s') {..<N_FACES} + 11 * broadcast_message_ready s' <
        sum (channel_work s) {..<N_FACES} + 11 * broadcast_message_ready s"
      using sum_change [of i N_FACES "channel_work s'" "channel_work s", OF i other moved(2)] by simp
    then show ?thesis using cr moved(1) bw by (simp add: work_def)
  next
    case crash
    have "channel_work s' = channel_work s" by (rule ext) (simp add: crash channel_work_def)
    then show ?thesis using cr by (simp add: work_def crash)
  qed
qed

lemma broadcast_work_less:
  assumes cr: "crashed s = None" and step: "broadcast_step s = Some s'"
  shows "work s' < work s"
proof -
  have "channel_work s' = channel_work s"
    using step by (cases "broadcaster s") (auto simp: fun_eq_iff broadcast_step_def broadcast_defs
      channel_work_def split: if_splits sum.splits)
  then show ?thesis
    using step cr by (cases "broadcaster s") (auto simp: work_def broadcast_step_def broadcast_defs
      broadcaster_work_def split: if_splits sum.splits)
qed

lemma work_less:
  assumes "shape s" and "internal_step pf s s'"
  shows "work s' < work s"
  using assms(2) by (rule internal_stepE) (auto intro: listener_work_less [OF assms(1)] broadcast_work_less)

text \<open>So from every reachable state the server's own threads run until the server has crashed or
  is at rest; the state is then consistent.\<close>

theorem server_settles:
  assumes rng: "rng_ok (rand_r pf)" and inv: "\<exists>V. server_inv V s"
  shows "\<exists>s'. (internal_step pf)\<^sup>*\<^sup>* s s' \<and> (\<exists>V. server_inv V s') \<and> (crashed s' \<noteq> None \<or> resting s')"
  using inv
proof (induction "work s" arbitrary: s rule: less_induct)
  case less
  then obtain V where inv: "server_inv V s" by blast
  show ?case
  proof (cases "\<exists>t. internal_step pf s t")
    case True
    then obtain t where st: "internal_step pf s t" ..
    have "\<exists>V. server_inv V t"
      using st by (rule internal_stepE)
        (blast intro: server_inv_listener [OF inv rng], blast intro: server_inv_broadcast [OF inv])
    moreover have "work t < work s" using inv st by (intro work_less) (simp_all add: server_inv_def)
    ultimately obtain s' where "(internal_step pf)\<^sup>*\<^sup>* t s'" "\<exists>V. server_inv V s'"
      "crashed s' \<noteq> None \<or> resting s'"
      using less.hyps by blast
    with st show ?thesis by (meson converse_rtranclp_into_rtranclp)
  next
    case False
    then have "crashed s \<noteq> None \<or> stuck pf s" by (auto simp: stuck_def)
    then have "crashed s \<noteq> None \<or> resting s"
      using inv stuck_resting by (auto simp: server_inv_def)
    with inv show ?thesis by blast
  qed
qed

section \<open>Why a server crashes\<close>

text \<open>Only a bad line, a lack of memory or a client-facing process that is gone brings the server
  down.\<close>

theorem crash_cause:
  assumes inv: "server_inv V s" and rng: "rng_ok (rand_r pf)" and st: "internal_step pf s s'"
    and cr: "crashed s' = Some e"
  shows "(\<exists>i<N_FACES. \<exists>l. listeners s ! i = Locked l \<and>
      (command_of (signed_char pf) l = Bad \<or> quota (server_mem s) < 930)) \<or>
    (\<exists>k<N_FACES. \<exists>m. broadcaster s = Sending m k \<and> broken (to_client s ! k) \<and> e = Signal ''SIGPIPE'')"
  using st
proof (rule internal_stepE)
  fix i now assume c: "crashed s = None" and i: "i < N_FACES" and step: "listener_step pf now i s = Some s'"
  have "\<exists>l. listeners s ! i = Locked l"
    using step c cr by (cases "listeners s ! i")
      (auto simp: listener_step_def listener_defs split: option.splits if_splits)
  then obtain l where l: "listeners s ! i = Locked l" ..
  have ln: "l \<noteq> []" and h: "cube_in (server_mem s) (global_cube_state s) V"
    using inv l i by (auto simp: server_inv_def lines_ok_def holds_def)
  have "command_of (signed_char pf) l = Bad \<or> quota (server_mem s) < 930"
  proof (rule ccontr)
    assume "\<not> ?thesis"
    then have "runs_to (decode_user_input pf now (line_buffer l []) (global_cube_state s)) (server_mem s)
        (\<lambda>_ h'. True)"
      by (intro runs_to_mono [OF decode_user_input_wp [OF rng ln h]]) auto
    then obtain h' where "decode_user_input pf now (line_buffer l []) (global_cube_state s)
        (server_mem s) = Inr ((), h')" by (auto elim!: runs_toE)
    then show False
      using step l c cr by (auto simp: listener_step_def listener_apply_def set_listener_def)
  qed
  with l i show ?thesis by blast
next
  assume c: "crashed s = None" and step: "broadcast_step s = Some s'"
  have "holds V s" using inv by (simp add: server_inv_def)
  from broadcast_encode_eq [OF this] show ?thesis
    using step c cr by (cases "broadcaster s") (auto simp: broadcast_step_def server_print_def split: if_splits)
qed

end
