(* ===== verification/Client_Threads.thy ===== *)
theory Client_Threads
  imports Client
begin

text \<open>
  The three threads of a client of \<open>src/server/rubiks_client.c\<close>, interleaved: the one that reads
  the keyboard (\<open>listen_to_curses_and_send_message_to_socket\<close>), the one that reads the socket
  (\<open>listen_to_socket_and_signal_semaphore_to_view\<close>) and the one that draws
  (\<open>listen_to_semaphore_and_update_view\<close>). The displayed cube has no lock: a line is decoded square
  by square while the picture is drawn square by square, and here every such access is a step of
  its own.
\<close>

section \<open>State\<close>

datatype keyer = At_Getch | At_Post | Left

datatype receiver = At_Getline | Decoding string nat | At_End

datatype viewer = At_Wait | At_Face | Drawing int nat

record client_process =
  args :: client_thread_args
  outbox_taken :: nat
  outbox_closed :: bool
  inbox :: pipe
  keyer :: keyer
  receiver :: receiver
  viewer :: viewer
  stopped :: "fault option"

text \<open>The socket in the direction of the server: what the client has written to it.\<close>

definition outbox :: "client_process \<Rightarrow> pipe" where
  "outbox c = \<lparr>written = socket_out (args c), taken = outbox_taken c, closed = outbox_closed c, broken = False\<rparr>"

text \<open>A piece of a thread's code runs on the shared state; a fault ends the process.\<close>

definition run_args :: "(client_thread_args, 'a) prog \<Rightarrow> ('a \<Rightarrow> client_process \<Rightarrow> client_process) \<Rightarrow>
    client_process \<Rightarrow> client_process" where
  "run_args m next c = (case m (args c) of
     Inl e \<Rightarrow> c\<lparr>stopped := Some e\<rparr> | Inr r \<Rightarrow> next (fst r) (c\<lparr>args := snd r\<rparr>))"

section \<open>The threads\<close>

text \<open>The keyboard: a key is handled in one step, but for the digits, after which the semaphore is
  posted in a second one. Only this thread writes the face number, its message and the socket.\<close>

definition key_step :: "int \<Rightarrow> client_process \<Rightarrow> client_process" where
  "key_step input c =
     (if KEY_0 \<le> input \<and> input \<le> KEY_5 then run_args (choose_face input) (\<lambda>_ c. c\<lparr>keyer := At_Post\<rparr>) c
      else run_args (press_key input) (\<lambda>left c. c\<lparr>keyer := (if left then Left else At_Getch)\<rparr>) c)"

definition post_step :: "client_process \<Rightarrow> client_process option" where
  "post_step c = (if keyer c = At_Post
     then Some (run_args sem_post (\<lambda>_ c. c\<lparr>keyer := At_Getch\<rparr>) c) else None)"

text \<open>The buffer of \<open>getline\<close> is at least \<open>INITIAL_LINE_SIZE\<close> bytes long; what follows the line in
  it is indeterminate.\<close>

abbreviation (input) INITIAL_LINE_SIZE :: nat where "INITIAL_LINE_SIZE \<equiv> 82"

definition line_memory :: "string \<Rightarrow> char cell list" where
  "line_memory l = line_buffer l (replicate (INITIAL_LINE_SIZE - 1 - length l) None)"

definition decode_one :: "bool \<Rightarrow> string \<Rightarrow> nat \<Rightarrow> (client_thread_args, unit) prog" where
  "decode_one sg l k = with_client (\<lambda>a. on_client
     (decode_square sg (cube_state_to_display a) (line_memory l)
       (k div N_SQUARES_PER_FACE) (k mod N_SQUARES_PER_FACE)))"

definition receiver_step :: "bool \<Rightarrow> client_process \<Rightarrow> client_process option" where
  "receiver_step sg c = (case receiver c of
     At_Getline \<Rightarrow> (case pipe_getline (inbox c) of
        Some (l, q) \<Rightarrow> Some (c\<lparr>inbox := q, receiver := Decoding l 0\<rparr>)
      | None \<Rightarrow> if at_eof (inbox c) then Some (c\<lparr>receiver := At_End\<rparr>) else None)
   | Decoding l k \<Rightarrow> Some (if k < N_FACES * N_SQUARES_PER_FACE
       then run_args (decode_one sg l k) (\<lambda>_ c. c\<lparr>receiver := Decoding l (k + 1)\<rparr>) c
       else run_args sem_post (\<lambda>_ c. c\<lparr>receiver := At_Getline\<rparr>) c)
   | At_End \<Rightarrow> None)"

definition wait_one :: "(client_thread_args, unit) prog" where
  "wait_one = modifyM (\<lambda>a. a\<lparr>update_view_semaphore := update_view_semaphore a - 1\<rparr>)"

definition read_face :: "(client_thread_args, int) prog" where
  "read_face = with_client (\<lambda>a. liftM (rd_cell (cube_face_id a)))"

definition draw_one :: "int \<Rightarrow> nat \<Rightarrow> (client_thread_args, unit) prog" where
  "draw_one f k = with_client (\<lambda>a.
     bindM (on_client (draw_square True (cube_state_to_display a) f
       (k div N_SQUARES_PER_SIDE) (k mod N_SQUARES_PER_SIDE) [])) (\<lambda>calls.
     modifyM (\<lambda>a. a\<lparr>client_screen := client_screen a @ calls\<rparr>)))"

definition viewer_step :: "client_process \<Rightarrow> client_process option" where
  "viewer_step c = (case viewer c of
     At_Wait \<Rightarrow> if update_view_semaphore (args c) = 0 then None
       else Some (run_args wait_one (\<lambda>_ c. c\<lparr>viewer := At_Face\<rparr>) c)
   | At_Face \<Rightarrow> Some (run_args read_face (\<lambda>f c. c\<lparr>viewer := Drawing f 0\<rparr>) c)
   | Drawing f k \<Rightarrow> Some (if k < N_SQUARES_PER_FACE
       then run_args (draw_one f k) (\<lambda>_ c. c\<lparr>viewer := Drawing f (k + 1)\<rparr>) c
       else c\<lparr>viewer := At_Wait\<rparr>))"

inductive client_internal :: "bool \<Rightarrow> client_process \<Rightarrow> client_process \<Rightarrow> bool" for sg where
  post: "stopped c = None \<Longrightarrow> post_step c = Some c' \<Longrightarrow> client_internal sg c c'"
| receive: "stopped c = None \<Longrightarrow> receiver_step sg c = Some c' \<Longrightarrow> client_internal sg c c'"
| view: "stopped c = None \<Longrightarrow> viewer_step c = Some c' \<Longrightarrow> client_internal sg c c'"

inductive_cases client_internalE: "client_internal sg c c'"

text \<open>A key is pressed while the keyboard thread waits for one; the server's messages arrive whole
  lines at a time; the server's side reads the socket, or closes it.\<close>

inductive client_env :: "client_process \<Rightarrow> client_process \<Rightarrow> bool" where
  key: "stopped c = None \<Longrightarrow> keyer c = At_Getch \<Longrightarrow> client_env c (key_step input c)"
| arrives: "solvable V \<Longrightarrow> client_env c (c\<lparr>inbox := pipe_write (cube_line V) (inbox c)\<rparr>)"
| fetched: "pipe_getline (outbox c) = Some (l, q) \<Longrightarrow> client_env c (c\<lparr>outbox_taken := taken q\<rparr>)"
| hangs_up: "client_env c (c\<lparr>inbox := (inbox c)\<lparr>closed := True\<rparr>\<rparr>)"

inductive_cases client_envE: "client_env c c'"

definition client_start :: "client_thread_args \<Rightarrow> client_process" where
  "client_start a = \<lparr>args = a, outbox_taken = 0, outbox_closed = False, inbox = fresh_pipe,
     keyer = At_Getch, receiver = At_Getline, viewer = At_Wait, stopped = None\<rparr>"

section \<open>The pieces of code on a well-formed client\<close>

lemma press_key_command:
  assumes "client_ok a V" and "cube_face_id a = Some (int f)"
    and k: "input = KEY_a \<or> input = KEY_d \<or> input = KEY_space"
  shows "press_key input a = Inr (False, a\<lparr>msg := map Some (command_line (input, f)) @ [Some nul],
    socket_out := fputs (command_line (input, f)) (socket_out a)\<rparr>)"
  using k send_command_eq [OF assms] by (auto simp: press_key_def prog_simps)

lemma press_key_other:
  assumes "\<not> (input = KEY_a \<or> input = KEY_d \<or> input = KEY_space)" and "\<not> (KEY_0 \<le> input \<and> input \<le> KEY_5)"
  shows "press_key input a = Inr (quits input, a\<lparr>client_screen :=
    client_screen a @ (if quits input then [Endwin] else [])\<rparr>)"
  using assms by (auto simp: press_key_def prog_simps quits_def)

lemma choose_face_ok:
  assumes "client_ok a V" and "KEY_0 \<le> input" and "input \<le> KEY_5"
  shows "client_ok (a\<lparr>cube_face_id := Some (input - KEY_0)\<rparr>) V"
  using assms by (auto simp: client_ok_def)

lemma plain_set_sq: "plain W \<Longrightarrow> std W \<Longrightarrow> 0 \<le> c \<Longrightarrow> c < int N_FACES \<Longrightarrow> plain (set_sq i j c W)"
  using view_set_sq by (auto simp: plain_def)

lemma decode_one_eq:
  assumes a: "client_ok a W" and k: "k < 54" and V: "plain V"
  shows "\<exists>h'. decode_one sg (cube_line V) k a = Inr ((), a\<lparr>client_mem := h'\<rparr>) \<and>
    client_ok (a\<lparr>client_mem := h'\<rparr>) (set_sq (k div 9) (k mod 9) (text_colors sg (cube_line V) k) W)"
proof -
  let ?c = "text_colors sg (cube_line V) k" and ?p = "cube_state_to_display a" and ?h = "client_mem a"
  obtain L where W: "std W" and h: "cube_at ?h ?p L W" and wf: "wf_mem ?h" and pl: "plain W"
    using a by (auto simp: client_ok_def cube_in_def)
  have l: "k < length (cube_line V)" using k by (simp add: cube_line_def)
  have "runs_to (decode_square sg ?p (line_memory (cube_line V)) (k div 9) (k mod 9)) ?h (\<lambda>_ h'.
      cube_at h' ?p L (set_sq (k div 9) (k mod 9) ?c W) \<and> wf_mem h')"
    unfolding line_memory_def
    by (rule runs_to_mono [OF keeps_runs_to [OF keeps_decode_square wf decode_square_wp [OF h k l]]]) simp
  then obtain h' where run: "decode_square sg ?p (line_memory (cube_line V)) (k div 9) (k mod 9) ?h = Inr ((), h')"
    and c': "cube_at h' ?p L (set_sq (k div 9) (k mod 9) ?c W)" and "wf_mem h'"
    by (auto elim!: runs_toE)
  have s: "(k div 9, k mod 9) \<in> set stickers" using k by (simp add: in_stickers)
  then have "?c = view V (k div 9, k mod 9)"
    using plain_codable [OF V] by (intro text_colors_cube_line [OF k]) blast
  then have "0 \<le> ?c \<and> ?c < int N_FACES" using V s by (auto simp: plain_def)
  then have "plain (set_sq (k div 9) (k mod 9) ?c W)" using plain_set_sq [OF pl W] by blast
  then have "client_ok (a\<lparr>client_mem := h'\<rparr>) (set_sq (k div 9) (k mod 9) ?c W)"
    using a c' \<open>wf_mem h'\<close> std_set_sq [OF W] by (auto simp: client_ok_def cube_in_def)
  with run show ?thesis by (auto simp: decode_one_def with_client_def on_client_def)
qed

lemma draw_one_eq:
  assumes a: "client_ok a W" and f: "f < N_FACES" and k: "k < N_SQUARES_PER_FACE"
  shows "draw_one (int f) k a = Inr ((), a\<lparr>client_screen := client_screen a @
    Attron_Pair (view W (f, k) + 1) # fill_square True (k div 3) (k mod 3)\<rparr>)"
proof -
  obtain L where h: "cube_at (client_mem a) (cube_state_to_display a) L W" and p: "plain W"
    using a by (auto simp: client_ok_def cube_in_def)
  show ?thesis
    by (simp add: draw_one_def with_client_def prog_simps on_client_def draw_square_eq [OF h f k p])
qed

section \<open>The invariant of a client\<close>

text \<open>
  \<open>Vs\<close> are the cubes that have arrived, \<open>n\<close> of them have been taken from the socket. While a line is
  decoded the displayed cube is a mixture of two. A new picture is due until the semaphore has
  been posted and waited for; otherwise the picture, as far as it has been drawn, is that of the
  chosen face of the latest cube.
\<close>

definition latest :: "face_val list list \<Rightarrow> nat \<Rightarrow> face_val list" where
  "latest Vs n = (if n = 0 then solved_val else Vs ! (n - 1))"

definition displayed :: "bool \<Rightarrow> face_val list list \<Rightarrow> nat \<Rightarrow> client_process \<Rightarrow> face_val list" where
  "displayed sg Vs n c = (case receiver c of
     Decoding l k \<Rightarrow> painted (text_colors sg l) k (latest Vs (n - 1)) | _ \<Rightarrow> latest Vs n)"

definition receiver_ok :: "face_val list list \<Rightarrow> nat \<Rightarrow> client_process \<Rightarrow> bool" where
  "receiver_ok Vs n c \<longleftrightarrow> (\<forall>l k. receiver c = Decoding l k \<longrightarrow>
     0 < n \<and> l = cube_line (Vs ! (n - 1)) \<and> k \<le> 54)"

definition viewer_ok :: "client_process \<Rightarrow> bool" where
  "viewer_ok c \<longleftrightarrow> (\<forall>f k. viewer c = Drawing f k \<longrightarrow> 0 \<le> f \<and> f < int N_FACES \<and> k \<le> 9)"

definition picture_due :: "client_process \<Rightarrow> bool" where
  "picture_due c \<longleftrightarrow> 0 < update_view_semaphore (args c) \<or> keyer c = At_Post \<or>
     (\<exists>l k. receiver c = Decoding l k) \<or> viewer c = At_Face"

definition ends_with :: "'a list \<Rightarrow> 'a list \<Rightarrow> bool" where
  "ends_with xs ys \<longleftrightarrow> (\<exists>pre. xs = pre @ ys)"

definition pictured :: "face_val list \<Rightarrow> client_process \<Rightarrow> bool" where
  "pictured V c \<longleftrightarrow> (\<exists>f. cube_face_id (args c) = Some (int f) \<and> (case viewer c of
     At_Wait \<Rightarrow> ends_with (client_screen (args c)) (drawing True (\<lambda>k. view V (f, k)) 9)
   | At_Face \<Rightarrow> False
   | Drawing f' k \<Rightarrow> f' = int f \<and> k \<le> 9 \<and>
       ends_with (client_screen (args c)) (drawing True (\<lambda>k. view V (f, k)) k)))"

definition client_inv :: "bool \<Rightarrow> face_val list list \<Rightarrow> nat \<Rightarrow> client_process \<Rightarrow> bool" where
  "client_inv sg Vs n c \<longleftrightarrow> cubes.channel (inbox c) Vs n \<and> client_ok (args c) (displayed sg Vs n c) \<and>
     receiver_ok Vs n c \<and> viewer_ok c \<and>
     (keyer c = Left \<or> cube_face_id (args c) = None \<or> picture_due c \<or> pictured (latest Vs n) c)"

lemmas client_inv_parts = client_inv_def displayed_def receiver_ok_def viewer_ok_def picture_due_def

lemma ends_with_append: "ends_with xs ys \<Longrightarrow> ends_with (xs @ zs) (ys @ zs)"
  by (auto simp: ends_with_def)

lemma ends_with_Nil [simp]: "ends_with xs []"
  by (simp add: ends_with_def)

lemma drawing_0 [simp]: "drawing r g 0 = []"
  by (simp add: drawing_def)

lemma pictured_cong:
  assumes "cube_face_id (args c') = cube_face_id (args c)" and "viewer c' = viewer c"
    and "client_screen (args c') = client_screen (args c)"
  shows "pictured V c' \<longleftrightarrow> pictured V c"
  using assms by (simp only: pictured_def)

lemma client_inv_frame:
  assumes "args c' = args c" and "receiver c' = receiver c" and "viewer c' = viewer c"
    and "keyer c' = keyer c" and "written (inbox c') = written (inbox c)" and "taken (inbox c') = taken (inbox c)"
  shows "client_inv sg Vs n c' \<longleftrightarrow> client_inv sg Vs n c"
  using assms by (simp only: client_inv_parts pictured_def carries_def)

lemma client_inv_stopped: "client_inv sg Vs n c \<Longrightarrow> client_inv sg Vs n (c\<lparr>stopped := e\<rparr>)"
  by (subst client_inv_frame [of _ c]) simp_all

lemma client_inv_start:
  assumes "client_ok a solved_val" and "cube_face_id a = None"
  shows "client_inv sg [] 0 (client_start a)"
  using assms cubes.channel_fresh by (simp add: client_inv_parts client_start_def latest_def)

lemma latest_solvable: "cubes.channel q Vs n \<Longrightarrow> solvable (latest Vs n)"
  by (auto simp: latest_def carries_def)

section \<open>Every step keeps the invariant\<close>

lemma client_inv_key:
  assumes inv: "client_inv sg Vs n c" and k: "keyer c = At_Getch"
  shows "client_inv sg Vs n (key_step input c)"
proof -
  have ok: "client_ok (args c) (displayed sg Vs n c)" using inv by (simp add: client_inv_def)
  consider (digit) "KEY_0 \<le> input \<and> input \<le> KEY_5"
    | (command) "input = KEY_a \<or> input = KEY_d \<or> input = KEY_space"
    | (other) "\<not> (input = KEY_a \<or> input = KEY_d \<or> input = KEY_space)"
        "\<not> (KEY_0 \<le> input \<and> input \<le> KEY_5)" by blast
  then show ?thesis
  proof cases
    case digit
    then have "client_ok (args (key_step input c)) (displayed sg Vs n c)"
      using choose_face_ok [OF ok] by (simp add: key_step_def run_args_def choose_face_def prog_simps)
    then show ?thesis
      using inv digit by (simp add: client_inv_parts key_step_def run_args_def choose_face_def prog_simps)
  next
    case command
    then have d: "\<not> (KEY_0 \<le> input \<and> input \<le> KEY_5)" by auto
    show ?thesis
    proof (cases "cube_face_id (args c)")
      case None
      then have "key_step input c = c\<lparr>stopped := Some Indeterminate\<rparr>"
        using press_key_indeterminate [OF None command]
        by (simp only: key_step_def run_args_def d if_False sum.case)
      with inv show ?thesis by (simp add: client_inv_stopped)
    next
      case (Some z)
      then have "0 \<le> z" using ok by (simp add: client_ok_def)
      then obtain f where f: "cube_face_id (args c) = Some (int f)" using Some nonneg_int_cases by metis
      let ?a = "(args c)\<lparr>msg := map Some (command_line (input, f)) @ [Some nul],
        socket_out := fputs (command_line (input, f)) (socket_out (args c))\<rparr>"
      have step: "key_step input c = c\<lparr>args := ?a, keyer := At_Getch\<rparr>"
        using press_key_command [OF ok f command]
        by (simp only: key_step_def run_args_def d if_False sum.case fst_conv snd_conv)
      have "client_ok ?a (displayed sg Vs n c)" using ok by (simp add: client_ok_def command_line_def)
      then show ?thesis
        unfolding step using inv k pictured_cong [of "c\<lparr>args := ?a, keyer := At_Getch\<rparr>" c]
        by (simp add: client_inv_parts)
    qed
  next
    case other
    show ?thesis
    proof (cases "quits input")
      case True
      then have "key_step input c = c\<lparr>args := (args c)\<lparr>client_screen := client_screen (args c) @ [Endwin]\<rparr>,
          keyer := Left\<rparr>"
        using other press_key_other [OF other, of "args c"] by (auto simp: key_step_def run_args_def)
      then show ?thesis using inv ok by (simp add: client_inv_parts client_ok_def)
    next
      case False
      then have "args (key_step input c) = args c" and "keyer (key_step input c) = At_Getch"
        using other press_key_other [OF other, of "args c"] by (auto simp: key_step_def run_args_def)
      then show ?thesis
        using inv k other press_key_other [OF other, of "args c"] False
        by (subst client_inv_frame [of _ c]) (auto simp: key_step_def run_args_def)
    qed
  qed
qed

lemma client_inv_post:
  assumes "client_inv sg Vs n c" and "post_step c = Some c'"
  shows "client_inv sg Vs n c'"
  using assms
  by (auto simp: client_inv_parts post_step_def run_args_def sem_post_def prog_simps client_ok_def
    split: if_splits)

lemma client_inv_receive:
  assumes inv: "client_inv sg Vs n c" and step: "receiver_step sg c = Some c'"
  shows "\<exists>m\<ge>n. client_inv sg Vs m c'"
proof -
  have ch: "cubes.channel (inbox c) Vs n" and ok: "client_ok (args c) (displayed sg Vs n c)"
    and rc: "receiver_ok Vs n c" using inv by (simp_all add: client_inv_def)
  show ?thesis
  proof (cases "receiver c")
    case At_Getline
    show ?thesis
    proof (cases "pipe_getline (inbox c)")
      case None
      then have "c' = c\<lparr>receiver := At_End\<rparr>"
        using step At_Getline by (auto simp: receiver_step_def split: if_splits)
      then have "client_inv sg Vs n c'"
        using inv At_Getline pictured_cong [of "c\<lparr>receiver := At_End\<rparr>" c] by (simp add: client_inv_parts)
      then show ?thesis by blast
    next
      case (Some lq)
      obtain l q where lq: "lq = (l, q)" by (cases lq)
      have c': "c' = c\<lparr>inbox := q, receiver := Decoding l 0\<rparr>"
        using step At_Getline Some by (simp add: receiver_step_def lq)
      have g: "n < length Vs \<and> l = cube_line (Vs ! n) \<and> cubes.channel q Vs (Suc n)"
        by (rule cubes.channel_getlineE [OF ch Some [unfolded lq]])
      have "client_inv sg Vs (Suc n) c'"
        using inv g At_Getline by (simp add: c' client_inv_parts painted_def)
      then show ?thesis using le_SucI by blast
    qed
  next
    case (Decoding l k)
    have n: "0 < n" and l: "l = cube_line (Vs ! (n - 1))" and k: "k \<le> 54"
      using rc Decoding by (simp_all add: receiver_ok_def)
    let ?V = "Vs ! (n - 1)" and ?P = "\<lambda>k. painted (text_colors sg l) k (latest Vs (n - 1))"
    have Vn: "?V = latest Vs n" using n by (simp add: latest_def)
    have sv: "solvable ?V" unfolding Vn by (rule latest_solvable [OF ch])
    have okP: "client_ok (args c) (?P k)" using ok Decoding by (simp add: displayed_def)
    have "client_inv sg Vs n c'"
    proof (cases "k < 54")
      case True
      obtain h' where run: "decode_one sg l k (args c) = Inr ((), (args c)\<lparr>client_mem := h'\<rparr>)"
        and ok': "client_ok ((args c)\<lparr>client_mem := h'\<rparr>) (?P (Suc k))"
        using decode_one_eq [OF okP True solvable_plain [OF sv], of sg] unfolding l painted_Suc by blast
      have "c' = c\<lparr>args := (args c)\<lparr>client_mem := h'\<rparr>, receiver := Decoding l (k + 1)\<rparr>"
        using step Decoding True run by (simp add: receiver_step_def run_args_def)
      then show ?thesis using inv ok' n l True by (simp add: client_inv_parts)
    next
      case False
      then have k54: "k = 54" using k by simp
      have "solvable (latest Vs (n - 1))" using ch n by (auto simp: latest_def carries_def)
      then have "std (latest Vs (n - 1))" by (rule solvable_std)
      then have "?P 54 = ?V"
        using decoded_cube_line [OF solvable_std [OF sv] _ plain_codable [OF solvable_plain [OF sv]]]
        by (simp add: decoded_def l)
      then have "client_ok (args c) (latest Vs n)" using okP k54 Vn by simp
      moreover have "c' = c\<lparr>args := (args c)\<lparr>update_view_semaphore :=
          update_view_semaphore (args c) + 1\<rparr>, receiver := At_Getline\<rparr>"
        using step Decoding k54 by (simp add: receiver_step_def run_args_def sem_post_def prog_simps)
      ultimately show ?thesis using inv by (simp add: client_inv_parts client_ok_def)
    qed
    then show ?thesis by blast
  qed (use step in \<open>simp add: receiver_step_def\<close>)
qed

lemma client_inv_view:
  assumes inv: "client_inv sg Vs n c" and step: "viewer_step c = Some c'"
  shows "client_inv sg Vs n c'"
proof -
  have ok: "client_ok (args c) (displayed sg Vs n c)" and vw: "viewer_ok c"
    using inv by (simp_all add: client_inv_def)
  show ?thesis
  proof (cases "viewer c")
    case At_Wait
    then have "c' = c\<lparr>args := (args c)\<lparr>update_view_semaphore := update_view_semaphore (args c) - 1\<rparr>,
        viewer := At_Face\<rparr>"
      using step by (simp add: viewer_step_def run_args_def wait_one_def prog_simps split: if_splits)
    then show ?thesis using inv by (simp add: client_inv_parts client_ok_def)
  next
    case At_Face
    show ?thesis
    proof (cases "cube_face_id (args c)")
      case None
      then have "c' = c\<lparr>stopped := Some Indeterminate\<rparr>"
        using step At_Face
        by (simp add: viewer_step_def run_args_def read_face_def with_client_def prog_simps rd_cell_def)
      with inv show ?thesis by (simp add: client_inv_stopped)
    next
      case (Some z)
      then have z: "0 \<le> z" "z < int N_FACES" using ok by (simp_all add: client_ok_def)
      then obtain f where f: "z = int f" using nonneg_int_cases by metis
      have c': "c' = c\<lparr>viewer := Drawing z 0\<rparr>"
        using step At_Face Some
        by (simp add: viewer_step_def run_args_def read_face_def with_client_def prog_simps rd_cell_def)
      have "pictured (latest Vs n) c'" using Some f by (simp add: c' pictured_def)
      then show ?thesis using inv z by (simp add: c' client_inv_parts)
    qed
  next
    case (Drawing z k)
    then have z: "0 \<le> z" "z < int N_FACES" "k \<le> 9" using vw by (simp_all add: viewer_ok_def)
    then obtain f where f: "z = int f" "f < N_FACES" using nonneg_int_cases by (metis of_nat_less_iff)
    show ?thesis
    proof (cases "k < N_SQUARES_PER_FACE")
      case False
      then have k9: "k = 9" and c': "c' = c\<lparr>viewer := At_Wait\<rparr>"
        using z step Drawing by (simp_all add: viewer_step_def)
      have "pictured V c'" if "pictured V c" for V
        using that Drawing k9 by (auto simp: c' pictured_def)
      then show ?thesis using inv Drawing by (auto simp: c' client_inv_parts)
    next
      case True
      let ?W = "displayed sg Vs n c"
      let ?a = "(args c)\<lparr>client_screen := client_screen (args c) @
        Attron_Pair (view ?W (f, k) + 1) # fill_square True (k div 3) (k mod 3)\<rparr>"
      have c': "c' = c\<lparr>args := ?a, viewer := Drawing z (k + 1)\<rparr>"
        using step Drawing True draw_one_eq [OF ok f(2) True] f(1)
        by (simp add: viewer_step_def run_args_def)
      have pic: "pictured (latest Vs n) c'" if p: "pictured (latest Vs n) c" and d: "\<not> picture_due c"
      proof -
        have W: "?W = latest Vs n" using d by (auto simp: displayed_def picture_due_def split: receiver.splits)
        show ?thesis
          using p Drawing True f(1) ends_with_append [of "client_screen (args c)"]
          by (auto simp: c' pictured_def drawing_Suc W)
      qed
      have "client_ok ?a (displayed sg Vs n c')" using ok by (simp add: c' displayed_def client_ok_def)
      moreover have "picture_due c' \<longleftrightarrow> picture_due c" using Drawing by (simp add: c' picture_due_def)
      ultimately show ?thesis
        using inv pic z True unfolding client_inv_def by (auto simp: c' receiver_ok_def viewer_ok_def)
    qed
  qed
qed

lemma client_inv_internal:
  assumes "client_inv sg Vs n c" and "client_internal sg c c'"
  shows "\<exists>m\<ge>n. client_inv sg Vs m c'"
  using assms(2)
  by (rule client_internalE) (use assms(1) in \<open>blast intro: client_inv_post client_inv_receive client_inv_view\<close>)+

lemma client_inv_arrives:
  assumes inv: "client_inv sg Vs n c" and V: "solvable V"
  shows "client_inv sg (Vs @ [V]) n (c\<lparr>inbox := pipe_write (cube_line V) (inbox c)\<rparr>)"
proof -
  have ch: "cubes.channel (inbox c) Vs n" using inv by (simp add: client_inv_def)
  then have n: "n \<le> length Vs" by (simp add: carries_def)
  then have l: "latest (Vs @ [V]) n = latest Vs n" "latest (Vs @ [V]) (n - Suc 0) = latest Vs (n - Suc 0)"
    by (auto simp: latest_def nth_append)
  have "(Vs @ [V]) ! (n - 1) = Vs ! (n - 1)" if "0 < n"
  proof -
    have "n - 1 < length Vs" using n that by simp
    then show ?thesis by (simp add: nth_append)
  qed
  then show ?thesis
    using inv cubes.channel_write [OF ch V] pictured_cong [of "c\<lparr>inbox := pipe_write (cube_line V) (inbox c)\<rparr>" c]
    by (simp add: client_inv_parts l cong: receiver.case_cong)
qed

lemma client_inv_env:
  assumes inv: "client_inv sg Vs n c" and step: "client_env c c'"
  shows "\<exists>Ws. client_inv sg (Vs @ Ws) n c'"
  using step
proof (rule client_envE)
  fix input assume "c' = key_step input c" "keyer c = At_Getch"
  then have "client_inv sg (Vs @ []) n c'" using client_inv_key [OF inv] by simp
  then show ?thesis by blast
next
  fix V assume "c' = c\<lparr>inbox := pipe_write (cube_line V) (inbox c)\<rparr>" "solvable V"
  then show ?thesis using client_inv_arrives [OF inv] by blast
next
  fix l q assume "c' = c\<lparr>outbox_taken := taken q\<rparr>"
  then have "client_inv sg (Vs @ []) n c'" using inv by (subst client_inv_frame [of _ c]) simp_all
  then show ?thesis by blast
next
  assume "c' = c\<lparr>inbox := (inbox c)\<lparr>closed := True\<rparr>\<rparr>"
  then have "client_inv sg (Vs @ []) n c'" using inv by (subst client_inv_frame [of _ c]) simp_all
  then show ?thesis by blast
qed

section \<open>Why a client stops with a fault\<close>

text \<open>Only for lack of a face number: nothing else can go wrong.\<close>

lemma client_internal_stops:
  assumes inv: "client_inv sg Vs n c" and step: "client_internal sg c c'" and e: "stopped c' = Some e"
  shows "viewer c = At_Face \<and> cube_face_id (args c) = None \<and> e = Indeterminate"
  using step
proof (rule client_internalE)
  assume "stopped c = None" "post_step c = Some c'"
  then show ?thesis using e by (auto simp: post_step_def run_args_def sem_post_def prog_simps split: if_splits)
next
  assume s: "stopped c = None" and r: "receiver_step sg c = Some c'"
  have False if d: "receiver c = Decoding l k" "k < 54" for l k
  proof -
    have n: "0 < n" and l: "l = cube_line (Vs ! (n - 1))" and ch: "cubes.channel (inbox c) Vs n"
      and ok: "client_ok (args c) (painted (text_colors sg l) k (latest Vs (n - 1)))"
      using inv d by (auto simp: client_inv_parts)
    have "plain (Vs ! (n - 1))"
      using solvable_plain [OF latest_solvable [OF ch]] n by (simp add: latest_def)
    from decode_one_eq [OF ok d(2) this, of sg] show False
      using r d s e by (auto simp: receiver_step_def run_args_def l)
  qed
  then show ?thesis
    using r s e by (cases "receiver c") (auto simp: receiver_step_def run_args_def sem_post_def prog_simps
      split: option.splits if_splits)
next
  assume s: "stopped c = None" and v: "viewer_step c = Some c'"
  have ok: "client_ok (args c) (displayed sg Vs n c)" and vw: "viewer_ok c"
    using inv by (simp_all add: client_inv_def)
  show ?thesis
  proof (cases "viewer c")
    case At_Wait
    then show ?thesis using v s e by (auto simp: viewer_step_def run_args_def wait_one_def prog_simps split: if_splits)
  next
    case At_Face
    then show ?thesis
      using v s e by (cases "cube_face_id (args c)")
        (auto simp: viewer_step_def run_args_def read_face_def with_client_def prog_simps rd_cell_def)
  next
    case (Drawing z k)
    then have z: "0 \<le> z" "z < int N_FACES" using vw by (simp_all add: viewer_ok_def)
    then obtain f where f: "z = int f" "f < N_FACES" using nonneg_int_cases by (metis of_nat_less_iff)
    show ?thesis
      using v s e Drawing draw_one_eq [OF ok f(2), of k] f(1)
      by (auto simp: viewer_step_def run_args_def split: if_splits)
  qed
qed

lemma key_stops:
  assumes inv: "client_inv sg Vs n c" and s: "stopped c = None" and e: "stopped (key_step input c) = Some e"
  shows "cube_face_id (args c) = None \<and> e = Indeterminate \<and>
    (input = KEY_a \<or> input = KEY_d \<or> input = KEY_space)"
proof (cases "input = KEY_a \<or> input = KEY_d \<or> input = KEY_space")
  case True
  then have d: "\<not> (KEY_0 \<le> input \<and> input \<le> KEY_5)" by auto
  have ok: "client_ok (args c) (displayed sg Vs n c)" using inv by (simp add: client_inv_def)
  show ?thesis
  proof (cases "cube_face_id (args c)")
    case None
    then show ?thesis
      using e True press_key_indeterminate [OF None True]
      by (simp only: key_step_def run_args_def d if_False sum.case) simp
  next
    case (Some z)
    then have "0 \<le> z" using ok by (simp add: client_ok_def)
    then obtain f where f: "cube_face_id (args c) = Some (int f)" using Some nonneg_int_cases by metis
    show ?thesis
      using e s press_key_command [OF ok f True]
      by (simp only: key_step_def run_args_def d if_False sum.case fst_conv snd_conv) simp
  qed
next
  case False
  then show ?thesis
    using e s press_key_other [OF False, of "args c"]
    by (auto simp: key_step_def run_args_def choose_face_def prog_simps split: if_splits)
qed

section \<open>The threads come to rest\<close>

definition client_stuck :: "bool \<Rightarrow> client_process \<Rightarrow> bool" where
  "client_stuck sg c \<longleftrightarrow> stopped c = None \<and> (\<forall>c'. \<not> client_internal sg c c')"

lemma client_stuckD:
  assumes "client_stuck sg c"
  shows "post_step c = None" and "receiver_step sg c = None" and "viewer_step c = None"
  using assms client_internal.intros [where c = c and sg = sg] by (force simp: client_stuck_def)+

lemma client_stuck_resting:
  assumes "client_stuck sg c"
  shows "keyer c \<noteq> At_Post" and "receiver c = At_End \<or> (receiver c = At_Getline \<and> newline \<notin> set (unread (inbox c)))"
    and "viewer c = At_Wait" and "update_view_semaphore (args c) = 0"
proof -
  show "keyer c \<noteq> At_Post" using client_stuckD(1) [OF assms] by (auto simp: post_step_def)
  show "receiver c = At_End \<or> (receiver c = At_Getline \<and> newline \<notin> set (unread (inbox c)))"
    using client_stuckD(2) [OF assms] pipe_getline_None [of "inbox c"]
    by (cases "receiver c") (auto simp: receiver_step_def split: option.splits)
  show "viewer c = At_Wait" "update_view_semaphore (args c) = 0"
    using client_stuckD(3) [OF assms] by (cases "viewer c"; auto simp: viewer_step_def split: if_splits)+
qed

text \<open>A client at rest shows, on the chosen face, the cube that arrived last.\<close>

lemma client_at_rest:
  assumes inv: "client_inv sg Vs n c" and st: "client_stuck sg c"
    and k: "keyer c \<noteq> Left" and f: "cube_face_id (args c) = Some f"
  shows "ends_with (client_screen (args c)) (drawing True (\<lambda>k. view (latest Vs n) (nat f, k)) 9)"
proof -
  note r = client_stuck_resting [OF st]
  have "\<not> picture_due c" using r by (auto simp: picture_due_def)
  then have "pictured (latest Vs n) c" using inv k f by (auto simp: client_inv_def)
  then show ?thesis using f r(3) by (auto simp: pictured_def)
qed

definition receiver_work :: "receiver \<Rightarrow> nat" where
  "receiver_work r = (case r of At_Getline \<Rightarrow> 1 | Decoding l k \<Rightarrow> 70 - k | At_End \<Rightarrow> 0)"

definition viewer_work :: "viewer \<Rightarrow> nat" where
  "viewer_work v = (case v of At_Wait \<Rightarrow> 0 | At_Face \<Rightarrow> 11 | Drawing f k \<Rightarrow> 10 - k)"

definition client_work :: "client_process \<Rightarrow> nat" where
  "client_work c = (if stopped c = None then 1 else 0) + (if keyer c = At_Post then 13 else 0) +
     71 * length (unread (inbox c)) + receiver_work (receiver c) +
     12 * update_view_semaphore (args c) + viewer_work (viewer c)"

lemma client_work_less:
  assumes inv: "client_inv sg Vs n c" and step: "client_internal sg c c'"
  shows "client_work c' < client_work c"
  using step
proof (rule client_internalE)
  assume "stopped c = None" "post_step c = Some c'"
  then show ?thesis
    by (auto simp: client_work_def post_step_def run_args_def sem_post_def prog_simps split: if_splits)
next
  assume s: "stopped c = None" and r: "receiver_step sg c = Some c'"
  show ?thesis
  proof (cases "receiver c")
    case At_Getline
    show ?thesis
    proof (cases "pipe_getline (inbox c)")
      case (Some lq)
      obtain l q where lq: "lq = (l, q)" by (cases lq)
      have "length (unread (inbox c)) = length l + length (unread q)" and "l \<noteq> []"
        using pipe_getline_unread pipe_getline_nonempty Some by (auto simp: lq)
      moreover from this obtain m where "length l = Suc m" by (cases l) auto
      ultimately show ?thesis
        using r At_Getline Some by (auto simp: lq receiver_step_def client_work_def receiver_work_def)
    qed (use r At_Getline s in \<open>auto simp: receiver_step_def client_work_def receiver_work_def split: if_splits\<close>)
  next
    case (Decoding l k)
    have "k \<le> 54" using inv Decoding by (simp add: client_inv_parts)
    then show ?thesis
      using r Decoding s by (auto simp: receiver_step_def client_work_def receiver_work_def run_args_def
        sem_post_def decode_one_def with_client_def on_client_def prog_simps split: if_splits sum.splits)
  qed (use r in \<open>simp add: receiver_step_def\<close>)
next
  assume s: "stopped c = None" and v: "viewer_step c = Some c'"
  note defs = viewer_step_def client_work_def viewer_work_def run_args_def wait_one_def read_face_def
    draw_one_def with_client_def on_client_def prog_simps rd_cell_def
  show ?thesis
  proof (cases "viewer c")
    case (Drawing f k)
    have "k \<le> 9" using inv Drawing by (simp add: client_inv_parts)
    then show ?thesis using v s Drawing by (auto simp: defs split: if_splits sum.splits)
  qed (use v s in \<open>auto simp: defs split: if_splits sum.splits option.splits\<close>)
qed

section \<open>A round that is not disturbed\<close>

text \<open>When no other thread comes in between, the small steps of a round are the whole functions of
  \<open>Client\<close>: a line is decoded and the semaphore posted, a picture is drawn.\<close>

abbreviation receiver_moves :: "bool \<Rightarrow> client_process \<Rightarrow> client_process \<Rightarrow> bool" where
  "receiver_moves sg c c' \<equiv> receiver_step sg c = Some c'"

abbreviation viewer_moves :: "client_process \<Rightarrow> client_process \<Rightarrow> bool" where
  "viewer_moves c c' \<equiv> viewer_step c = Some c'"

lemma decoding_moves:
  assumes "k \<le> 54"
    and "for_each [k..<54] (\<lambda>k. decode_square sg (cube_state_to_display a) (line_memory l) (k div 9) (k mod 9))
      (client_mem a) = Inr ((), h)"
  shows "(receiver_moves sg)\<^sup>*\<^sup>* (c\<lparr>args := a, receiver := Decoding l k\<rparr>)
    (c\<lparr>args := a\<lparr>client_mem := h\<rparr>, receiver := Decoding l 54\<rparr>)"
  using assms
proof (induction "54 - k" arbitrary: k a)
  case 0
  then show ?case by (auto simp: prog_simps)
next
  case (Suc d)
  then have k: "k < 54" by simp
  let ?sq = "\<lambda>k. decode_square sg (cube_state_to_display a) (line_memory l) (k div 9) (k mod 9)"
  obtain g where g: "?sq k (client_mem a) = Inr ((), g)" and rest: "for_each [Suc k..<54] ?sq g = Inr ((), h)"
    using Suc.prems(2) k by (auto simp: upt_conv_Cons prog_simps split: sum.splits)
  have "receiver_moves sg (c\<lparr>args := a, receiver := Decoding l k\<rparr>)
      (c\<lparr>args := a\<lparr>client_mem := g\<rparr>, receiver := Decoding l (Suc k)\<rparr>)"
    using k g by (simp add: receiver_step_def run_args_def decode_one_def with_client_def on_client_def)
  moreover have "(receiver_moves sg)\<^sup>*\<^sup>* (c\<lparr>args := a\<lparr>client_mem := g\<rparr>, receiver := Decoding l (Suc k)\<rparr>)
      (c\<lparr>args := (a\<lparr>client_mem := g\<rparr>)\<lparr>client_mem := h\<rparr>, receiver := Decoding l 54\<rparr>)"
    using Suc.hyps(2) k rest by (intro Suc.hyps(1)) auto
  ultimately show ?case by (simp add: converse_rtranclp_into_rtranclp)
qed

lemma receiver_round:
  assumes c: "receiver c = Decoding l 0" and run: "receive_line sg (line_memory l) (args c) = Inr ((), a)"
  shows "(receiver_moves sg)\<^sup>*\<^sup>* c (c\<lparr>args := a, receiver := At_Getline\<rparr>)"
proof -
  obtain h where h: "decode sg (cube_state_to_display (args c)) (line_memory l) (client_mem (args c)) = Inr ((), h)"
    and a: "a = (args c)\<lparr>client_mem := h, update_view_semaphore := update_view_semaphore (args c) + 1\<rparr>"
    using run by (auto simp: receive_line_def with_client_def on_client_def sem_post_def prog_simps split: sum.splits)
  have "(receiver_moves sg)\<^sup>*\<^sup>* (c\<lparr>args := args c, receiver := Decoding l 0\<rparr>)
      (c\<lparr>args := (args c)\<lparr>client_mem := h\<rparr>, receiver := Decoding l 54\<rparr>)"
    by (rule decoding_moves) (use h in \<open>simp_all add: decode_flat\<close>)
  moreover have "c\<lparr>args := args c, receiver := Decoding l 0\<rparr> = c" using c by simp
  moreover have "receiver_moves sg (c\<lparr>args := (args c)\<lparr>client_mem := h\<rparr>, receiver := Decoding l 54\<rparr>)
      (c\<lparr>args := a, receiver := At_Getline\<rparr>)"
    by (simp add: receiver_step_def run_args_def sem_post_def prog_simps a)
  ultimately show ?thesis by (simp add: rtranclp.rtrancl_into_rtrancl)
qed

lemma draw_square_append: "draw_square r p f i j calls h =
    (case draw_square r p f i j [] h of Inl e \<Rightarrow> Inl e | Inr q \<Rightarrow> Inr (calls @ fst q, snd q))"
  by (auto simp: draw_square_def prog_simps split: sum.splits)

lemma drawing_moves:
  assumes "k \<le> 9"
    and "for_fold [k..<9] (\<lambda>k. draw_square True (cube_state_to_display a) f (k div 3) (k mod 3)) cs
      (client_mem a) = Inr (cs', h)"
  shows "\<exists>new. cs' = cs @ new \<and> viewer_moves\<^sup>*\<^sup>* (c\<lparr>args := a, viewer := Drawing f k\<rparr>)
    (c\<lparr>args := a\<lparr>client_mem := h, client_screen := client_screen a @ new\<rparr>, viewer := Drawing f 9\<rparr>)"
  using assms
proof (induction "9 - k" arbitrary: k a cs)
  case 0
  then show ?case by (intro exI [of _ "[]"]) (auto simp: prog_simps)
next
  case (Suc d)
  then have k: "k < 9" by simp
  let ?sq = "\<lambda>k. draw_square True (cube_state_to_display a) f (k div 3) (k mod 3)"
  obtain q g where g: "?sq k [] (client_mem a) = Inr (q, g)"
    and rest: "for_fold [Suc k..<9] ?sq (cs @ q) g = Inr (cs', h)"
    using Suc.prems(2) k draw_square_append [of True _ _ _ _ cs]
    by (auto simp: upt_conv_Cons prog_simps split: sum.splits)
  let ?a = "a\<lparr>client_mem := g, client_screen := client_screen a @ q\<rparr>"
  have "viewer_moves (c\<lparr>args := a, viewer := Drawing f k\<rparr>) (c\<lparr>args := ?a, viewer := Drawing f (Suc k)\<rparr>)"
    using k g by (simp add: viewer_step_def run_args_def draw_one_def with_client_def on_client_def prog_simps)
  moreover have d: "d = 9 - Suc k" using Suc.hyps(2) by simp
  moreover obtain new where "cs' = (cs @ q) @ new"
    "viewer_moves\<^sup>*\<^sup>* (c\<lparr>args := ?a, viewer := Drawing f (Suc k)\<rparr>)
      (c\<lparr>args := ?a\<lparr>client_mem := h, client_screen := client_screen ?a @ new\<rparr>, viewer := Drawing f 9\<rparr>)"
    using Suc.hyps(1) [OF d, of ?a "cs @ q"] k rest by auto
  ultimately show ?case
    by (intro exI [of _ "q @ new"]) (simp add: converse_rtranclp_into_rtranclp)
qed

lemma viewer_round:
  assumes c: "viewer c = At_Face" and run: "update_view (args c) = Inr ((), a)"
  shows "viewer_moves\<^sup>*\<^sup>* c (c\<lparr>args := a, viewer := At_Wait\<rparr>)"
proof -
  obtain f cs h where f: "cube_face_id (args c) = Some f"
    and d: "draw_face True (cube_state_to_display (args c)) f [] (client_mem (args c)) = Inr (cs, h)"
    and a: "a = (args c)\<lparr>client_mem := h, client_screen := client_screen (args c) @ cs\<rparr>"
    using run by (auto simp: update_view_def with_client_def on_client_def prog_simps rd_cell_def
      update_curses_with_cube_state_def split: sum.splits option.splits)
  have "viewer_moves c (c\<lparr>args := args c, viewer := Drawing f 0\<rparr>)"
    using c f by (simp add: viewer_step_def run_args_def read_face_def with_client_def prog_simps rd_cell_def)
  moreover obtain new where "cs = [] @ new" "viewer_moves\<^sup>*\<^sup>* (c\<lparr>args := args c, viewer := Drawing f 0\<rparr>)
      (c\<lparr>args := (args c)\<lparr>client_mem := h, client_screen := client_screen (args c) @ new\<rparr>, viewer := Drawing f 9\<rparr>)"
    using drawing_moves [of 0 "args c" f "[]" cs h c] d by (auto simp: draw_face_flat)
  moreover have "viewer_moves (c\<lparr>args := a, viewer := Drawing f 9\<rparr>) (c\<lparr>args := a, viewer := At_Wait\<rparr>)"
    by (simp add: viewer_step_def)
  ultimately show ?thesis
    by (simp add: a converse_rtranclp_into_rtranclp rtranclp.rtrancl_into_rtrancl)
qed

lemma moves_internal:
  assumes "m = receiver_moves sg \<or> m = viewer_moves" and "m\<^sup>*\<^sup>* c c'" and "stopped c' = None"
  shows "stopped c = None \<and> (client_internal sg)\<^sup>*\<^sup>* c c'"
  using assms(2)
proof (induction rule: converse_rtranclp_induct)
  case base
  with assms(3) show ?case by simp
next
  case (step c d)
  have "receiver_step sg c = Some d \<or> viewer_step c = Some d" using assms(1) step.hyps(1) by auto
  moreover from this have "stopped c = None" using step.IH
    by (auto simp: receiver_step_def viewer_step_def run_args_def
      split: receiver.splits viewer.splits option.splits sum.splits if_splits)
  ultimately have "client_internal sg c d" by (auto intro: client_internal.receive client_internal.view)
  with step.IH \<open>stopped c = None\<close> show ?case by (simp add: converse_rtranclp_into_rtranclp)
qed

text \<open>A whole message, when only the receiver moves.\<close>

lemma message_decoded:
  assumes "client_ok (args c) W" and "stopped c = None" and "receiver c = At_Getline"
    and "pipe_getline (inbox c) = Some (cube_line V, q)" and "std V" and "plain V"
  shows "\<exists>a. receive_line sg (line_memory (cube_line V)) (args c) = Inr ((), a) \<and> client_ok a V \<and>
    cube_face_id a = cube_face_id (args c) \<and> client_screen a = client_screen (args c) \<and>
    update_view_semaphore a = update_view_semaphore (args c) + 1 \<and>
    (client_internal sg)\<^sup>*\<^sup>* c (c\<lparr>args := a, inbox := q\<rparr>)"
proof -
  let ?l = "cube_line V"
  obtain a where a: "receive_line sg (line_memory ?l) (args c) = Inr ((), a)" "client_ok a V"
    "cube_face_id a = cube_face_id (args c)" "client_screen a = client_screen (args c)"
    "update_view_semaphore a = update_view_semaphore (args c) + 1"
    using receive_line_wp [OF assms(1,5,6), of sg "replicate (81 - length ?l) None"]
    by (auto simp: line_memory_def elim!: runs_toE)
  let ?c1 = "c\<lparr>inbox := q, receiver := Decoding ?l 0\<rparr>" and ?c2 = "c\<lparr>args := a, inbox := q\<rparr>"
  have "client_internal sg c ?c1"
    using assms(2-4) by (intro client_internal.receive) (simp_all add: receiver_step_def)
  moreover have "(client_internal sg)\<^sup>*\<^sup>* ?c1 ?c2"
  proof -
    have "(receiver_moves sg)\<^sup>*\<^sup>* ?c1 (?c1\<lparr>args := a, receiver := At_Getline\<rparr>)"
      using a(1) by (intro receiver_round) simp_all
    moreover have "?c1\<lparr>args := a, receiver := At_Getline\<rparr> = ?c2" using assms(3) by (cases c) simp
    ultimately have m: "(receiver_moves sg)\<^sup>*\<^sup>* ?c1 ?c2" by simp
    show ?thesis by (rule moves_internal [OF disjI1 [OF refl] m, THEN conjunct2]) (simp add: assms(2))
  qed
  ultimately have "(client_internal sg)\<^sup>*\<^sup>* c ?c2" by (rule converse_rtranclp_into_rtranclp)
  with a show ?thesis by blast
qed

text \<open>The rest of a picture, when only the viewer moves.\<close>

lemma drawing_cong: "(\<And>k. k < n \<Longrightarrow> g k = g' k) \<Longrightarrow> drawing r g n = drawing r g' n"
  unfolding drawing_def by (intro arg_cong [of _ _ concat] map_cong) auto

lemma drawing_on:
  assumes a: "client_ok a V" and f: "f < N_FACES" and "k \<le> N_SQUARES_PER_FACE"
    and "client_screen a = pre @ drawing True g k" and "\<And>j. k \<le> j \<Longrightarrow> g j = view V (f, j)"
  shows "viewer_moves\<^sup>*\<^sup>* (c\<lparr>args := a, viewer := Drawing (int f) k\<rparr>)
    (c\<lparr>args := a\<lparr>client_screen := pre @ drawing True g 9\<rparr>, viewer := At_Wait\<rparr>)"
  using assms
proof (induction "9 - k" arbitrary: k a)
  case 0
  then have k: "k = 9" by simp
  have "viewer_moves (c\<lparr>args := a, viewer := Drawing (int f) 9\<rparr>) (c\<lparr>args := a, viewer := At_Wait\<rparr>)"
    by (simp add: viewer_step_def)
  then have "viewer_moves\<^sup>*\<^sup>* (c\<lparr>args := a, viewer := Drawing (int f) 9\<rparr>) (c\<lparr>args := a, viewer := At_Wait\<rparr>)"
    by (rule r_into_rtranclp)
  moreover have "a\<lparr>client_screen := pre @ drawing True g 9\<rparr> = a" using 0 k by simp
  ultimately show ?case by (simp only: k)
next
  case (Suc d)
  then have k: "k < 9" and d: "d = 9 - Suc k" by simp_all
  let ?a = "a\<lparr>client_screen := pre @ drawing True g (Suc k)\<rparr>"
  have "draw_one (int f) k a = Inr ((), ?a)"
    using draw_one_eq [OF Suc.prems(1) f k] Suc.prems(4) Suc.prems(5) [of k] by (simp add: drawing_Suc)
  then have "viewer_moves (c\<lparr>args := a, viewer := Drawing (int f) k\<rparr>) (c\<lparr>args := ?a, viewer := Drawing (int f) (Suc k)\<rparr>)"
    using k by (simp add: viewer_step_def run_args_def)
  moreover have "client_ok ?a V" using Suc.prems(1) by (simp add: client_ok_def)
  then have "viewer_moves\<^sup>*\<^sup>* (c\<lparr>args := ?a, viewer := Drawing (int f) (Suc k)\<rparr>)
      (c\<lparr>args := ?a\<lparr>client_screen := pre @ drawing True g 9\<rparr>, viewer := At_Wait\<rparr>)"
    using k Suc.prems(5) by (intro Suc.hyps(1) [OF d] f) simp_all
  ultimately show ?case by (simp add: converse_rtranclp_into_rtranclp)
qed

end
