(* ===== verification/System.thy ===== *)
theory System
  imports Server_Threads Client_Threads "HOL-Library.Sublist"
begin

text \<open>
  The whole system: the server process, its six client-facing processes with their two relay
  threads each, and six clients. Every step is a step of one thread, or the kernel's closing of a
  pipe that has lost its last writer or reader. The system refines the
  server with its open environment; the messages from the server reach the displayed cubes, and
  the keys reach the server, in order and without loss.
\<close>

section \<open>State and steps\<close>

text \<open>\<open>pipe_readers\<close> run \<open>client_facing_thread_listen_to_pipe\<close>, \<open>socket_readers\<close> run
  \<open>client_facing_thread_listen_to_socket\<close>; \<open>facing_gone\<close> says which client-facing processes have ended.\<close>

record system =
  server :: echo_server
  clients :: "client_process list"
  pipe_readers :: "relay list"
  socket_readers :: "relay list"
  facing_gone :: "bool list"

definition set_client :: "nat \<Rightarrow> client_process \<Rightarrow> system \<Rightarrow> system" where
  "set_client i c s = s\<lparr>clients := (clients s)[i := c]\<rparr>"

text \<open>What is written to the socket of a client that has ended is lost.\<close>

definition pipe_reader_step :: "nat \<Rightarrow> system \<Rightarrow> system option" where
  "pipe_reader_step i s = (if facing_gone s ! i then None else
    (case relay_step (pipe_readers s ! i) (to_client (server s) ! i) (inbox (clients s ! i)) of
       None \<Rightarrow> None
     | Some (r, src, dst) \<Rightarrow> Some (set_client i ((clients s ! i)\<lparr>inbox :=
           if stopped (clients s ! i) = None then dst else inbox (clients s ! i)\<rparr>)
         (s\<lparr>server := (server s)\<lparr>to_client := (to_client (server s))[i := src]\<rparr>,
            pipe_readers := (pipe_readers s)[i := r]\<rparr>))))"

definition socket_reader_step :: "nat \<Rightarrow> system \<Rightarrow> system option" where
  "socket_reader_step i s = (if facing_gone s ! i then None else
    (case relay_step (socket_readers s ! i) (outbox (clients s ! i)) (to_server (server s) ! i) of
       None \<Rightarrow> None
     | Some (r, src, dst) \<Rightarrow> Some (set_client i ((clients s ! i)\<lparr>outbox_taken := taken src\<rparr>)
         (s\<lparr>server := (server s)\<lparr>to_server := (to_server (server s))[i := dst]\<rparr>,
            socket_readers := (socket_readers s)[i := r]\<rparr>))))"

text \<open>All twelve pipes are made before the first \<open>fork\<close>, and the server closes its copies of the ends that
  client \<open>i\<close>'s process uses when that has been forked: the processes that hold them are that one, while its
  thread has not closed them, and those forked before it.\<close>

definition no_writer :: "nat \<Rightarrow> system \<Rightarrow> bool" where
  "no_writer i s \<longleftrightarrow> (socket_readers s ! i = Finished \<or> facing_gone s ! i) \<and> (\<forall>j<i. facing_gone s ! j)"

definition no_reader :: "nat \<Rightarrow> system \<Rightarrow> bool" where
  "no_reader i s \<longleftrightarrow> (pipe_readers s ! i = Finished \<or> facing_gone s ! i) \<and> (\<forall>j<i. facing_gone s ! j)"

definition close_to_server :: "nat \<Rightarrow> echo_server \<Rightarrow> echo_server" where
  "close_to_server i v = v\<lparr>to_server := (to_server v)[i := (to_server v ! i)\<lparr>closed := True\<rparr>]\<rparr>"

definition break_to_client :: "nat \<Rightarrow> echo_server \<Rightarrow> echo_server" where
  "break_to_client i v = v\<lparr>to_client := (to_client v)[i := (to_client v ! i)\<lparr>broken := True\<rparr>]\<rparr>"

text \<open>A client-facing process that writes to the socket of a client that has ended, and has not closed the
  socket itself, may be ended by \<open>SIGPIPE\<close>.\<close>

inductive system_step :: "platform \<Rightarrow> bool \<Rightarrow> system \<Rightarrow> system \<Rightarrow> bool" for pf sg where
  server: "internal_step pf (server s) v \<Longrightarrow> system_step pf sg s (s\<lparr>server := v\<rparr>)"
| client: "i < N_FACES \<Longrightarrow> client_internal sg (clients s ! i) c \<Longrightarrow> system_step pf sg s (set_client i c s)"
| to_socket: "i < N_FACES \<Longrightarrow> pipe_reader_step i s = Some s' \<Longrightarrow> system_step pf sg s s'"
| to_pipe: "i < N_FACES \<Longrightarrow> socket_reader_step i s = Some s' \<Longrightarrow> system_step pf sg s s'"
| last_writer: "i < N_FACES \<Longrightarrow> \<not> closed (to_server (server s) ! i) \<Longrightarrow> no_writer i s \<Longrightarrow>
     system_step pf sg s (s\<lparr>server := close_to_server i (server s)\<rparr>)"
| last_reader: "i < N_FACES \<Longrightarrow> \<not> broken (to_client (server s) ! i) \<Longrightarrow> no_reader i s \<Longrightarrow>
     system_step pf sg s (s\<lparr>server := break_to_client i (server s)\<rparr>)"
| sigpipe: "i < N_FACES \<Longrightarrow> \<not> facing_gone s ! i \<Longrightarrow> pipe_readers s ! i = Carrying l \<Longrightarrow>
     socket_readers s ! i \<noteq> Finished \<Longrightarrow> stopped (clients s ! i) \<noteq> None \<Longrightarrow>
     system_step pf sg s (s\<lparr>facing_gone := (facing_gone s)[i := True]\<rparr>)"

text \<open>From outside come the keys, the end of a client process by its user, and the news, over the network,
  that a client process has ended and its socket is closed.\<close>

inductive outside_step :: "system \<Rightarrow> system \<Rightarrow> bool" where
  key: "i < N_FACES \<Longrightarrow> stopped (clients s ! i) = None \<Longrightarrow> keyer (clients s ! i) = At_Getch \<Longrightarrow>
     outside_step s (set_client i (key_step input (clients s ! i)) s)"
| killed: "i < N_FACES \<Longrightarrow> stopped (clients s ! i) = None \<Longrightarrow>
     outside_step s (set_client i ((clients s ! i)\<lparr>stopped := Some (Signal ''SIGINT'')\<rparr>) s)"
| ends: "i < N_FACES \<Longrightarrow> stopped (clients s ! i) \<noteq> None \<Longrightarrow>
     outside_step s (set_client i ((clients s ! i)\<lparr>outbox_closed := True\<rparr>) s)"

inductive system_reachable :: "platform \<Rightarrow> bool \<Rightarrow> system \<Rightarrow> system \<Rightarrow> bool" for pf sg s0 where
  start: "system_reachable pf sg s0 s0"
| internal: "system_reachable pf sg s0 s \<Longrightarrow> system_step pf sg s s' \<Longrightarrow> system_reachable pf sg s0 s'"
| outside: "system_reachable pf sg s0 s \<Longrightarrow> outside_step s s' \<Longrightarrow> system_reachable pf sg s0 s'"

inductive_cases system_stepE: "system_step pf sg s s'"
inductive_cases outside_stepE: "outside_step s s'"

definition fresh_client :: "client_thread_args \<Rightarrow> bool" where
  "fresh_client a \<longleftrightarrow> client_ok a solved_val \<and> cube_face_id a = None \<and> socket_out a = []"

definition system_start :: "int list \<Rightarrow> mem \<Rightarrow> addr \<Rightarrow> client_thread_args list \<Rightarrow> system" where
  "system_start fds h p as = \<lparr>server = server_start fds h p, clients = map client_start as,
     pipe_readers = replicate N_FACES Reading, socket_readers = replicate N_FACES Reading,
     facing_gone = replicate N_FACES False\<rparr>"

section \<open>The links\<close>

text \<open>From the server to a client: the messages in the pipe, the one in the hands of the relay, the
  messages that have arrived. From a client to the server: the same for its command lines, and
  the line its listener works on is one of them.\<close>

definition open_ok :: "pipe \<Rightarrow> relay \<Rightarrow> client_process \<Rightarrow> bool" where
  "open_ok q r c \<longleftrightarrow> \<not> closed q \<and> r \<noteq> Finished \<and> \<not> closed (inbox c) \<and> receiver c \<noteq> At_End"

definition fed :: "client_process \<Rightarrow> relay \<Rightarrow> face_val list list \<Rightarrow> nat \<Rightarrow> face_val list list \<Rightarrow> bool" where
  "fed c r Vs k ys \<longleftrightarrow> (if stopped c = None then passed_on cube_line r Vs k ys else prefix ys Vs)"

definition down_link :: "bool \<Rightarrow> pipe \<Rightarrow> relay \<Rightarrow> client_process \<Rightarrow> bool" where
  "down_link sg q r c \<longleftrightarrow> (\<exists>Vs k ys j. cubes.channel q Vs k \<and> fed c r Vs k ys \<and>
     client_inv sg ys j c) \<and> open_ok q r c"

definition commanding :: "listener \<Rightarrow> bool" where
  "commanding pc \<longleftrightarrow> (\<forall>l. pc = Got l \<or> pc = Locked l \<longrightarrow> (\<exists>x. command_key x \<and> l = command_line x))"

text \<open>A direction ends when the client has ended: its socket is closed, then the relay or its whole process,
  the pipe and the listener come to their ends.\<close>

definition ends_ok :: "client_process \<Rightarrow> relay \<Rightarrow> bool \<Rightarrow> pipe \<Rightarrow> listener \<Rightarrow> bool" where
  "ends_ok c r away q pc \<longleftrightarrow> (closed q \<longrightarrow> r = Finished \<or> away) \<and> (r = Finished \<longrightarrow> closed (outbox c)) \<and>
     (closed (outbox c) \<or> away \<longrightarrow> stopped c \<noteq> None) \<and> (pc = Ended \<longrightarrow> closed q)"

definition up_link :: "client_process \<Rightarrow> relay \<Rightarrow> bool \<Rightarrow> pipe \<Rightarrow> listener \<Rightarrow> bool" where
  "up_link c r away q pc \<longleftrightarrow> (\<exists>xs k ys j. commands.channel (outbox c) xs k \<and>
     passed_on command_line r xs k ys \<and> commands.channel q ys j) \<and> commanding pc \<and> ends_ok c r away q pc"

definition link_inv :: "bool \<Rightarrow> system \<Rightarrow> nat \<Rightarrow> bool" where
  "link_inv sg s i \<longleftrightarrow> down_link sg (to_client (server s) ! i) (pipe_readers s ! i) (clients s ! i) \<and>
     up_link (clients s ! i) (socket_readers s ! i) (facing_gone s ! i) (to_server (server s) ! i)
       (listeners (server s) ! i)"

text \<open>A pipe to a client breaks only when its process and all that were forked before it have ended.\<close>

definition breaks_ok :: "system \<Rightarrow> bool" where
  "breaks_ok s \<longleftrightarrow> (\<forall>i<N_FACES. broken (to_client (server s) ! i) \<longrightarrow> (\<forall>j\<le>i. facing_gone s ! j))"

definition sizes :: "system \<Rightarrow> bool" where
  "sizes s \<longleftrightarrow> length (clients s) = N_FACES \<and> length (pipe_readers s) = N_FACES \<and>
     length (socket_readers s) = N_FACES \<and> length (facing_gone s) = N_FACES"

definition system_inv :: "bool \<Rightarrow> system \<Rightarrow> bool" where
  "system_inv sg s \<longleftrightarrow> (\<exists>V. server_inv V (server s)) \<and> sizes s \<and> breaks_ok s \<and>
     (\<forall>i<N_FACES. link_inv sg s i)"

lemma passed_on_prefix: "passed_on enc r xs k ys \<Longrightarrow> prefix ys xs"
proof -
  assume "passed_on enc r xs k ys"
  then have "prefix ys (take k xs)" by (auto simp: passed_on_def split: relay.splits)
  then show ?thesis using take_is_prefix prefix_order.trans by blast
qed

lemma fed_prefix: "fed c r Vs k ys \<Longrightarrow> prefix ys Vs"
  using passed_on_prefix by (auto simp: fed_def split: if_splits)

lemma fed_stops: "fed c r Vs k ys \<Longrightarrow> (stopped c' = None \<Longrightarrow> stopped c = None) \<Longrightarrow> fed c' r Vs k ys"
  using fed_prefix [of c r Vs k ys] by (auto simp: fed_def)

lemma fed_more: "cubes.channel q Vs k \<Longrightarrow> fed c r Vs k ys \<Longrightarrow> fed c r (Vs @ zs) k ys"
  using cubes.passed_on_more by (auto simp: fed_def split: if_splits)

lemma down_link_send:
  assumes "down_link sg q r c" and "solvable W"
  shows "down_link sg (pipe_write (cube_line W) q) r c"
proof -
  obtain Vs k ys j where d: "cubes.channel q Vs k" "fed c r Vs k ys" "client_inv sg ys j c"
    using assms(1) by (auto simp: down_link_def)
  moreover have "open_ok (pipe_write (cube_line W) q) r c"
    using assms(1) by (simp add: down_link_def open_ok_def pipe_write_def)
  ultimately show ?thesis
    using cubes.channel_write [OF d(1) assms(2)] fed_more [OF d(1,2), of "[W]"]
    unfolding down_link_def by auto
qed

lemma client_internal_open:
  assumes "client_internal sg c c'"
  shows "closed (inbox c') = closed (inbox c)"
    and "receiver c' = At_End \<Longrightarrow> receiver c = At_End \<or> closed (inbox c)"
proof -
  have "closed (inbox c') = closed (inbox c) \<and> (receiver c' = At_End \<longrightarrow> receiver c = At_End \<or> closed (inbox c))"
    using assms
  proof (rule client_internalE)
    assume "post_step c = Some c'"
    then show ?thesis by (auto simp: post_step_def run_args_def sem_post_def prog_simps split: if_splits)
  next
    assume "receiver_step sg c = Some c'"
    then show ?thesis using pipe_getline_written [of "inbox c"]
      by (auto simp: receiver_step_def run_args_def sem_post_def prog_simps at_eof_def
        split: receiver.splits option.splits if_splits sum.splits)
  next
    assume "viewer_step c = Some c'"
    then show ?thesis
      by (auto simp: viewer_step_def run_args_def split: viewer.splits if_splits sum.splits)
  qed
  then show "closed (inbox c') = closed (inbox c)"
    and "receiver c' = At_End \<Longrightarrow> receiver c = At_End \<or> closed (inbox c)" by auto
qed

lemma down_link_client:
  assumes "down_link sg q r c" and "client_internal sg c c'"
  shows "down_link sg q r c'"
proof -
  obtain Vs k ys j where d: "cubes.channel q Vs k" "fed c r Vs k ys" "client_inv sg ys j c"
    using assms(1) by (auto simp: down_link_def)
  moreover have "open_ok q r c'"
    using assms(1) client_internal_open [OF assms(2)] by (auto simp: down_link_def open_ok_def)
  moreover have "stopped c = None" using assms(2) by (rule client_internalE)
  then have "fed c' r Vs k ys" using fed_stops [OF d(2), of c'] by simp
  ultimately show ?thesis using client_inv_internal [OF d(3) assms(2)] unfolding down_link_def by blast
qed

lemma key_step_frame: "inbox (key_step input c) = inbox c \<and> receiver (key_step input c) = receiver c"
  by (simp add: key_step_def run_args_def split: sum.split)

lemma down_link_key:
  assumes "down_link sg q r c" and "keyer c = At_Getch" and "stopped c = None"
  shows "down_link sg q r (key_step input c)"
proof -
  have "fed c r Vs k ys \<Longrightarrow> fed (key_step input c) r Vs k ys" for Vs k ys
    using fed_stops [of c r Vs k ys "key_step input c"] assms(3) by simp
  then show ?thesis
    using assms(1,2) client_inv_key key_step_frame unfolding down_link_def open_ok_def by metis
qed

lemma down_link_frame:
  assumes "down_link sg q r c" and "args c' = args c" and "receiver c' = receiver c" and "viewer c' = viewer c"
    and "keyer c' = keyer c" and "inbox c' = inbox c" and "stopped c' = None \<Longrightarrow> stopped c = None"
  shows "down_link sg q r c'"
proof -
  obtain Vs k ys j where d: "cubes.channel q Vs k" "fed c r Vs k ys" "client_inv sg ys j c"
    using assms(1) by (auto simp: down_link_def)
  moreover have "client_inv sg ys j c'" using d(3) assms client_inv_frame [of c' c] by simp
  moreover have "open_ok q r c'" using assms by (simp add: down_link_def open_ok_def)
  ultimately show ?thesis using fed_stops [OF d(2), of c'] assms(7) unfolding down_link_def by blast
qed

lemma relay_step_source:
  assumes "relay_step r src dst = Some (r', src', dst')"
  shows "written src' = written src" and "closed src' = closed src" and "broken src' = broken src"
    and "r' = Finished \<longrightarrow> closed src" and "closed dst' = closed dst"
    and "length (unread dst) \<le> length (unread dst')"
  using assms pipe_getline_written [of src]
  by (auto simp: relay_step_def at_eof_def pipe_write_def unread_def fputs_def
    split: relay.splits option.splits sum.splits if_splits)

lemma relay_step_channel:
  assumes "cubes.channel q Vs k" and "relay_step r q dst = Some (r', q', dst')"
  shows "\<exists>k'. cubes.channel q' Vs k'"
proof (cases "\<exists>l. pipe_getline q = Some (l, q')")
  case True
  then show ?thesis using cubes.channel_getlineE [OF assms(1)] by blast
next
  case False
  then have "q' = q"
    using assms(2) by (auto simp: relay_step_def split: relay.splits option.splits sum.splits if_splits)
  then show ?thesis using assms(1) by blast
qed

lemma down_link_relay:
  assumes "down_link sg q r c" and step: "relay_step r q (inbox c) = Some (r', q', b)"
  shows "down_link sg q' r' (c\<lparr>inbox := if stopped c = None then b else inbox c\<rparr>)"
proof -
  obtain Vs k ys j where ch: "cubes.channel q Vs k" and p: "fed c r Vs k ys"
    and inv: "client_inv sg ys j c" and op: "open_ok q r c" using assms(1) by (auto simp: down_link_def)
  have ib: "cubes.channel (inbox c) ys j" using inv by (simp add: client_inv_def)
  show ?thesis
  proof (cases "stopped c = None")
    case False
    obtain k' where "cubes.channel q' Vs k'" using relay_step_channel [OF ch step] by blast
    moreover have "fed c r' Vs k' ys" using fed_prefix [OF p] False by (auto simp: fed_def)
    moreover have "open_ok q' r' c" using op relay_step_source [OF step] by (auto simp: open_ok_def)
    moreover have "c\<lparr>inbox := if stopped c = None then b else inbox c\<rparr> = c" using False by auto
    ultimately show ?thesis using inv unfolding down_link_def by auto
  next
    case run: True
    have op': "open_ok q' r' (c\<lparr>inbox := b\<rparr>)"
      using op relay_step_source [OF step] by (auto simp: open_ok_def)
    have p: "passed_on cube_line r Vs k ys" using p run by (simp add: fed_def)
    have fed: "passed_on cube_line r' Vs k' zs \<Longrightarrow> fed (c\<lparr>inbox := b\<rparr>) r' Vs k' zs" for k' zs
      using run by (simp add: fed_def)
    have "down_link sg q' r' (c\<lparr>inbox := b\<rparr>)"
      using ch ib p step
    proof (cases rule: cubes.relay_keeps)
      case (same k')
      have "c\<lparr>inbox := b\<rparr> = c" using same(3) by simp
      then show ?thesis using same(1) fed [OF same(2)] inv op' unfolding down_link_def by metis
    next
      case (delivers x)
      then show ?thesis using client_inv_arrives [OF inv delivers(3)] op' fed unfolding down_link_def by blast
    qed
    with run show ?thesis by simp
  qed
qed

lemma key_step_outbox:
  assumes inv: "client_inv sg Vs n c"
  shows "outbox (key_step input c) = outbox c \<or>
    (\<exists>x. command_key x \<and> outbox (key_step input c) = pipe_write (command_line x) (outbox c))"
proof (cases "input = KEY_a \<or> input = KEY_d \<or> input = KEY_space")
  case True
  then have d: "\<not> (KEY_0 \<le> input \<and> input \<le> KEY_5)" by auto
  have ok: "client_ok (args c) (displayed sg Vs n c)" using inv by (simp add: client_inv_def)
  show ?thesis
  proof (cases "cube_face_id (args c)")
    case None
    then show ?thesis
      using press_key_indeterminate [OF None True]
      by (simp only: key_step_def run_args_def d if_False sum.case) (simp add: outbox_def)
  next
    case (Some z)
    then have "0 \<le> z" using ok by (simp add: client_ok_def)
    then obtain f where f: "cube_face_id (args c) = Some (int f)" using Some nonneg_int_cases by metis
    then have "f < N_FACES" using ok by (auto simp: client_ok_def)
    then have "command_key (input, f)" using True by (simp add: command_key_def)
    moreover have "outbox (key_step input c) = pipe_write (command_line (input, f)) (outbox c)"
      using press_key_command [OF ok f True]
      by (simp only: key_step_def run_args_def d if_False sum.case fst_conv snd_conv)
        (simp add: outbox_def pipe_write_def)
    ultimately show ?thesis by blast
  qed
next
  case False
  then show ?thesis
    using press_key_other [OF False, of "args c"]
    by (auto simp: key_step_def run_args_def choose_face_def prog_simps outbox_def)
qed

lemma client_internal_outbox:
  assumes "client_internal sg c c'"
  shows "outbox c' = outbox c"
proof -
  note defs = run_args_def sem_post_def wait_one_def read_face_def decode_one_def draw_one_def
    with_client_def on_client_def prog_simps outbox_def
  show ?thesis
    using assms
  proof (rule client_internalE)
    assume "post_step c = Some c'"
    then show ?thesis by (auto simp: post_step_def defs split: if_splits)
  next
    assume "receiver_step sg c = Some c'"
    then show ?thesis
      by (auto simp: receiver_step_def defs split: receiver.splits option.splits if_splits sum.splits)
  next
    assume "viewer_step c = Some c'"
    then show ?thesis
      by (auto simp: viewer_step_def defs split: viewer.splits if_splits sum.splits)
  qed
qed

lemma up_link_outbox:
  "up_link c r g q pc \<Longrightarrow> outbox c' = outbox c \<Longrightarrow> stopped c' = stopped c \<or> stopped c = None \<Longrightarrow> up_link c' r g q pc"
  by (auto simp: up_link_def ends_ok_def)

lemma up_link_key:
  assumes up: "up_link c r g q pc" and inv: "client_inv sg Vs n c" and s: "stopped c = None"
  shows "up_link (key_step input c) r g q pc"
  using key_step_outbox [OF inv, of input]
proof
  assume "outbox (key_step input c) = outbox c"
  with up s show ?thesis by (simp add: up_link_outbox)
next
  assume "\<exists>x. command_key x \<and> outbox (key_step input c) = pipe_write (command_line x) (outbox c)"
  then obtain x where x: "command_key x" "outbox (key_step input c) = pipe_write (command_line x) (outbox c)"
    by blast
  obtain xs k ys j where ch: "commands.channel (outbox c) xs k" "passed_on command_line r xs k ys"
      "commands.channel q ys j"
    using up by (auto simp: up_link_def)
  then show ?thesis
    using up x commands.channel_write [OF ch(1) x(1)] commands.passed_on_more [OF ch(1,2), of "[x]"]
    unfolding up_link_def using s by (auto simp: ends_ok_def pipe_write_def)
qed

lemma up_link_relay:
  assumes up: "up_link c r g q pc" and step: "relay_step r (outbox c) q = Some (r', src, q')"
  shows "up_link (c\<lparr>outbox_taken := taken src\<rparr>) r' g q' pc"
proof -
  have ob: "outbox (c\<lparr>outbox_taken := taken src\<rparr>) = src"
    using relay_step_source [OF step] by (cases src) (simp add: outbox_def)
  obtain xs k ys j where ch: "commands.channel (outbox c) xs k" and d: "commands.channel q ys j"
      and p: "passed_on command_line r xs k ys" and pc: "commanding pc"
    using up by (auto simp: up_link_def)
  have cl: "ends_ok (c\<lparr>outbox_taken := taken src\<rparr>) r' g q' pc"
    using up step relay_step_source [OF step] unfolding up_link_def ends_ok_def ob
    by (auto simp: relay_step_def pipe_write_def at_eof_def
      split: relay.splits option.splits sum.splits if_splits)
  from ch d p step show ?thesis
  proof (cases rule: commands.relay_keeps)
    case (same k')
    then show ?thesis using d pc cl unfolding up_link_def ob by blast
  next
    case (delivers x)
    then show ?thesis using commands.channel_write [OF d delivers(3)] pc cl unfolding up_link_def ob by blast
  qed
qed

section \<open>Every step keeps the links\<close>

lemma commanding_simps [simp]:
  "commanding Idle" "commanding Applied" "commanding Posting" "commanding Ended"
  "commanding (Locked l) \<longleftrightarrow> commanding (Got l)"
  by (simp_all add: commanding_def)

lemma listener_step_pipes:
  assumes "shape s" and "i < N_FACES" and "listener_step pf now i s = Some s'"
  shows "j \<noteq> i \<Longrightarrow> to_server s' ! j = to_server s ! j \<and> listeners s' ! j = listeners s ! j"
    and "(to_server s' ! i = to_server s ! i \<and> (commanding (listeners s ! i) \<longrightarrow> commanding (listeners s' ! i)) \<and>
        (listeners s' ! i = Ended \<longrightarrow> listeners s ! i = Ended \<or> closed (to_server s ! i))) \<or>
      (\<exists>l. pipe_getline (to_server s ! i) = Some (l, to_server s' ! i) \<and> listeners s' ! i = Got l)"
  using assms by (cases "listeners s ! i"; auto simp: listener_step_def listener_defs shape_def at_eof_def
    split: option.splits if_splits sum.splits)+

lemma up_link_listener:
  assumes up: "up_link c r g q pc"
    and step: "(q' = q \<and> (commanding pc \<longrightarrow> commanding pc') \<and> (pc' = Ended \<longrightarrow> pc = Ended \<or> closed q)) \<or> (\<exists>l. pipe_getline q = Some (l, q') \<and> pc' = Got l)"
  shows "up_link c r g q' pc'"
  using step
proof
  assume "q' = q \<and> (commanding pc \<longrightarrow> commanding pc') \<and> (pc' = Ended \<longrightarrow> pc = Ended \<or> closed q)"
  with up show ?thesis by (auto simp: up_link_def ends_ok_def)
next
  assume "\<exists>l. pipe_getline q = Some (l, q') \<and> pc' = Got l"
  then obtain l where g: "pipe_getline q = Some (l, q')" and pc': "pc' = Got l" by blast
  obtain xs k ys j where ch: "commands.channel (outbox c) xs k" and p: "passed_on command_line r xs k ys"
      and d: "commanding pc" "commands.channel q ys j"
    using up by (auto simp: up_link_def)
  note e = commands.channel_getlineE [OF d(2) g]
  then have "command_key (ys ! j)" using d(2) by (simp add: carries_def)
  then have "\<exists>x. command_key x \<and> l = command_line x" using e by blast
  then have "commanding pc'" by (simp add: pc' commanding_def del: split_paired_Ex)
  moreover have "closed q' = closed q" using pipe_getline_written [OF g] by simp
  then have "ends_ok c r g q' pc'" using up by (auto simp: up_link_def ends_ok_def pc')
  ultimately show ?thesis using ch p e unfolding up_link_def by auto
qed

lemma broadcast_step_pipes:
  assumes inv: "server_inv V s" and step: "broadcast_step s = Some s'"
  shows "to_server s' = to_server s \<and> listeners s' = listeners s"
    and "i < N_FACES \<Longrightarrow> to_client s' ! i = to_client s ! i \<or>
      (\<exists>W. solvable W \<and> to_client s' ! i = pipe_write (cube_line W) (to_client s ! i))"
proof -
  show "to_server s' = to_server s \<and> listeners s' = listeners s"
    using step by (cases "broadcaster s") (auto simp: broadcast_step_def broadcast_defs split: if_splits sum.splits)
  assume i: "i < N_FACES"
  show "to_client s' ! i = to_client s ! i \<or>
      (\<exists>W. solvable W \<and> to_client s' ! i = pipe_write (cube_line W) (to_client s ! i))"
  proof (cases "broadcaster s")
    case (Sending m k)
    then obtain W where "solvable W" "m = cube_line W" using inv by (auto simp: server_inv_def casts_def)
    moreover have "length (to_client s) = N_FACES" using inv by (simp add: server_inv_def shape_def)
    ultimately show ?thesis
      using step Sending i by (cases "k = i") (auto simp: broadcast_step_def server_print_def split: if_splits)
  qed (use step in \<open>auto simp: broadcast_step_def broadcast_defs split: if_splits sum.splits\<close>)
qed

lemma breaks_ok_mono:
  assumes "breaks_ok s" and "\<And>i. i < N_FACES \<Longrightarrow> facing_gone s ! i \<Longrightarrow> facing_gone s' ! i"
    and "\<And>i. i < N_FACES \<Longrightarrow> broken (to_client (server s') ! i) \<Longrightarrow> broken (to_client (server s) ! i)"
  shows "breaks_ok s'"
  using assms unfolding breaks_ok_def by (meson le_less_trans)

lemma system_inv_server:
  assumes inv: "system_inv sg s" and rng: "rng_ok (rand_r pf)" and step: "internal_step pf (server s) v"
  shows "system_inv sg (s\<lparr>server := v\<rparr>)"
proof -
  obtain V where V: "server_inv V (server s)" and l: "\<forall>i<N_FACES. link_inv sg s i"
    using inv by (auto simp: system_inv_def)
  have "\<exists>V. server_inv V v"
    using step by (rule internal_stepE)
      (blast intro: server_inv_listener [OF V rng], blast intro: server_inv_broadcast [OF V])
  moreover have "link_inv sg (s\<lparr>server := v\<rparr>) i" if i: "i < N_FACES" for i
    using step
  proof (rule internal_stepE)
    fix n now assume n: "n < N_FACES" and st: "listener_step pf now n (server s) = Some v"
    have sh: "shape (server s)" using V by (simp add: server_inv_def)
    note pipes = listener_step_pipes [OF sh n st]
    have "(to_server v ! i = to_server (server s) ! i \<and>
        (commanding (listeners (server s) ! i) \<longrightarrow> commanding (listeners v ! i)) \<and>
        (listeners v ! i = Ended \<longrightarrow> listeners (server s) ! i = Ended \<or> closed (to_server (server s) ! i))) \<or>
      (\<exists>l. pipe_getline (to_server (server s) ! i) = Some (l, to_server v ! i) \<and> listeners v ! i = Got l)"
      using pipes by (cases "i = n") auto
    then show ?thesis
      using l i listener_frame(2) [OF st] by (auto simp: link_inv_def intro: up_link_listener)
  next
    assume st: "broadcast_step (server s) = Some v"
    show ?thesis
      using l i broadcast_step_pipes(1) [OF V st] broadcast_step_pipes(2) [OF V st i] down_link_send
      by (auto simp: link_inv_def)
  qed
  moreover have "breaks_ok (s\<lparr>server := v\<rparr>)"
  proof (rule breaks_ok_mono [of s])
    fix i assume i: "i < N_FACES" and b: "broken (to_client (server (s\<lparr>server := v\<rparr>)) ! i)"
    show "broken (to_client (server s) ! i)"
      using step
    proof (rule internal_stepE)
      fix n now assume "listener_step pf now n (server s) = Some v"
      then show ?thesis using b listener_frame(2) by simp
    next
      assume "broadcast_step (server s) = Some v"
      from broadcast_step_pipes(2) [OF V this i] b show ?thesis by (auto simp: pipe_write_def)
    qed
  qed (use inv in \<open>simp_all add: system_inv_def\<close>)
  ultimately show ?thesis using inv by (simp add: system_inv_def sizes_def)
qed

text \<open>The server sees its clients as its environment.\<close>

lemma pipe_reader_server:
  assumes op: "\<not> closed (to_client (server s) ! i)" and i: "i < N_FACES" and step: "pipe_reader_step i s = Some s'"
  shows "server s' = server s \<or> env_step (server s) (server s')"
proof -
  obtain r src dst where st: "relay_step (pipe_readers s ! i) (to_client (server s) ! i) (inbox (clients s ! i)) =
      Some (r, src, dst)" and sv: "server s' = (server s)\<lparr>to_client := (to_client (server s))[i := src]\<rparr>"
    using step by (auto simp: pipe_reader_step_def set_client_def split: option.splits if_splits)
  show ?thesis
  proof (cases "\<exists>l. pipe_getline (to_client (server s) ! i) = Some (l, src)")
    case True
    then show ?thesis using client_reads [OF i] by (auto simp: sv)
  next
    case False
    then have "src = to_client (server s) ! i"
      using st by (auto simp: relay_step_def split: relay.splits option.splits sum.splits if_splits)
    then show ?thesis by (simp add: sv)
  qed
qed

lemma socket_reader_server:
  assumes up: "up_link (clients s ! i) (socket_readers s ! i) (facing_gone s ! i) (to_server (server s) ! i) pc"
    and i: "i < N_FACES" and step: "socket_reader_step i s = Some s'"
  shows "server s' = server s \<or> env_step (server s) (server s')"
proof -
  obtain r src dst where st: "relay_step (socket_readers s ! i) (outbox (clients s ! i)) (to_server (server s) ! i) =
      Some (r, src, dst)" and sv: "server s' = (server s)\<lparr>to_server := (to_server (server s))[i := dst]\<rparr>"
    and g: "\<not> facing_gone s ! i"
    using step by (auto simp: socket_reader_step_def set_client_def split: option.splits if_splits)
  show ?thesis
  proof (cases "socket_readers s ! i")
    case Reading
    then have "dst = to_server (server s) ! i"
      using st by (auto simp: relay_step_def split: option.splits if_splits)
    then show ?thesis by (simp add: sv)
  next
    case (Carrying l)
    then have "\<not> closed (to_server (server s) ! i)" using up g by (auto simp: up_link_def ends_ok_def)
    moreover obtain t where "dst = pipe_write t (to_server (server s) ! i)"
      using st Carrying by (auto simp: relay_step_def split: sum.splits)
    ultimately show ?thesis using client_writes [OF i, of "server s" t] by (auto simp: sv)
  qed (use st in \<open>simp add: relay_step_def\<close>)
qed

lemma link_set_client:
  assumes "sizes s" and "i < N_FACES" and "\<forall>j<N_FACES. link_inv sg s j"
    and "down_link sg (to_client (server s) ! i) (pipe_readers s ! i) c"
    and "up_link c (socket_readers s ! i) (facing_gone s ! i) (to_server (server s) ! i) (listeners (server s) ! i)"
  shows "\<forall>j<N_FACES. link_inv sg (set_client i c s) j"
proof (intro allI impI)
  fix j assume "j < N_FACES"
  then show "link_inv sg (set_client i c s) j"
    using assms by (cases "j = i") (auto simp: link_inv_def set_client_def sizes_def)
qed

lemma system_inv_client:
  assumes inv: "system_inv sg s" and i: "i < N_FACES" and step: "client_internal sg (clients s ! i) c"
  shows "system_inv sg (set_client i c s)"
proof -
  have l: "link_inv sg s i" and sz: "sizes s" using inv i by (auto simp: system_inv_def)
  have "stopped (clients s ! i) = None" using step by (rule client_internalE)
  then have "\<forall>j<N_FACES. link_inv sg (set_client i c s) j"
    using l inv down_link_client [OF _ step] up_link_outbox [OF _ client_internal_outbox [OF step]]
    by (intro link_set_client [OF sz i]) (auto simp: link_inv_def system_inv_def)
  then show ?thesis using inv by (simp add: system_inv_def set_client_def sizes_def breaks_ok_def)
qed

lemma system_inv_outside:
  assumes inv: "system_inv sg s" and step: "outside_step s s'"
  shows "system_inv sg s'"
  using step
proof (rule outside_stepE)
  fix i input
  assume s': "s' = set_client i (key_step input (clients s ! i)) s" and i: "i < N_FACES"
    and run: "stopped (clients s ! i) = None" and k: "keyer (clients s ! i) = At_Getch"
  have l: "link_inv sg s i" and sz: "sizes s" using inv i by (auto simp: system_inv_def)
  then obtain ys j where c: "client_inv sg ys j (clients s ! i)"
    by (auto simp: link_inv_def down_link_def)
  have "\<forall>j<N_FACES. link_inv sg s' j"
    unfolding s' using l inv down_link_key [OF _ k run] up_link_key [OF _ c run]
    by (intro link_set_client [OF sz i]) (auto simp: link_inv_def system_inv_def)
  then show ?thesis using inv by (simp add: s' system_inv_def set_client_def sizes_def breaks_ok_def)
next
  fix i
  let ?c = "(clients s ! i)\<lparr>stopped := Some (Signal ''SIGINT'')\<rparr>"
  assume s': "s' = set_client i ?c s" and i: "i < N_FACES" and run: "stopped (clients s ! i) = None"
  have l: "link_inv sg s i" and sz: "sizes s" using inv i by (auto simp: system_inv_def)
  have "down_link sg (to_client (server s) ! i) (pipe_readers s ! i) ?c"
    by (rule down_link_frame [of _ _ _ "clients s ! i"]) (use l in \<open>simp_all add: link_inv_def\<close>)
  moreover have "up_link ?c (socket_readers s ! i) (facing_gone s ! i) (to_server (server s) ! i)
      (listeners (server s) ! i)"
    by (rule up_link_outbox [of "clients s ! i"]) (use l run in \<open>simp_all add: link_inv_def outbox_def\<close>)
  ultimately have "\<forall>j<N_FACES. link_inv sg s' j"
    unfolding s' using inv by (intro link_set_client [OF sz i]) (auto simp: system_inv_def)
  then show ?thesis using inv by (simp add: s' system_inv_def set_client_def sizes_def breaks_ok_def)
next
  fix i e
  assume s': "s' = set_client i ((clients s ! i)\<lparr>outbox_closed := True\<rparr>) s" and i: "i < N_FACES"
    and gone: "stopped (clients s ! i) = Some e"
  let ?c = "(clients s ! i)\<lparr>outbox_closed := True\<rparr>"
  have l: "link_inv sg s i" and sz: "sizes s" using inv i by (auto simp: system_inv_def)
  have "down_link sg (to_client (server s) ! i) (pipe_readers s ! i) ?c"
    by (rule down_link_frame [of _ _ _ "clients s ! i"]) (use l in \<open>simp_all add: link_inv_def\<close>)
  moreover have "up_link ?c (socket_readers s ! i) (facing_gone s ! i) (to_server (server s) ! i)
      (listeners (server s) ! i)"
    using l gone by (auto simp: link_inv_def up_link_def carries_def outbox_def ends_ok_def)
  ultimately have "\<forall>j<N_FACES. link_inv sg s' j"
    unfolding s' using inv by (intro link_set_client [OF sz i]) (auto simp: system_inv_def)
  then show ?thesis using inv by (simp add: s' system_inv_def set_client_def sizes_def breaks_ok_def)
qed

lemma server_inv_shape: "server_inv V s \<Longrightarrow> length (to_client s) = N_FACES \<and> length (to_server s) = N_FACES"
  by (simp add: server_inv_def shape_def)

lemma system_inv_pipe_reader:
  assumes inv: "system_inv sg s" and i: "i < N_FACES" and step: "pipe_reader_step i s = Some s'"
  shows "system_inv sg s'"
proof -
  let ?c = "clients s ! i"
  obtain V where V: "server_inv V (server s)" using inv by (auto simp: system_inv_def)
  have l: "\<forall>j<N_FACES. link_inv sg s j" and sz: "sizes s" using inv by (auto simp: system_inv_def)
  then have dl: "down_link sg (to_client (server s) ! i) (pipe_readers s ! i) ?c"
    using i by (simp add: link_inv_def)
  obtain r src dst where st: "relay_step (pipe_readers s ! i) (to_client (server s) ! i) (inbox ?c) =
      Some (r, src, dst)"
    and s': "s' = set_client i (?c\<lparr>inbox := if stopped ?c = None then dst else inbox ?c\<rparr>)
      (s\<lparr>server := (server s)\<lparr>to_client := (to_client (server s))[i := src]\<rparr>,
         pipe_readers := (pipe_readers s)[i := r]\<rparr>)"
    using step by (auto simp: pipe_reader_step_def split: option.splits if_splits)
  have "server s' = server s \<or> env_step (server s) (server s')"
    using dl by (intro pipe_reader_server [OF _ i step]) (auto simp: down_link_def open_ok_def)
  then have "server_inv V (server s')" using V server_inv_env by metis
  moreover have "link_inv sg s' j" if j: "j < N_FACES" for j
  proof (cases "j = i")
    case False
    then show ?thesis using l j by (simp add: s' link_inv_def set_client_def)
  next
    case True
    have "up_link (?c\<lparr>inbox := if stopped ?c = None then dst else inbox ?c\<rparr>) (socket_readers s ! i)
        (facing_gone s ! i) (to_server (server s) ! i) (listeners (server s) ! i)"
      by (rule up_link_outbox [of ?c]) (use l i in \<open>simp_all add: link_inv_def outbox_def\<close>)
    then show ?thesis
      using True down_link_relay [OF dl st] sz i server_inv_shape [OF V]
      by (simp add: s' link_inv_def set_client_def sizes_def)
  qed
  moreover have "breaks_ok s'"
  proof (rule breaks_ok_mono [of s])
    fix j assume "broken (to_client (server s') ! j)"
    then show "broken (to_client (server s) ! j)"
      using relay_step_source(3) [OF st] i server_inv_shape [OF V]
      by (cases "j = i") (simp_all add: s' set_client_def)
  qed (use inv in \<open>simp_all add: s' set_client_def system_inv_def\<close>)
  moreover have "sizes s'" using sz by (simp add: s' set_client_def sizes_def)
  ultimately show ?thesis by (auto simp: system_inv_def)
qed

lemma system_inv_socket_reader:
  assumes inv: "system_inv sg s" and i: "i < N_FACES" and step: "socket_reader_step i s = Some s'"
  shows "system_inv sg s'"
proof -
  let ?c = "clients s ! i"
  obtain V where V: "server_inv V (server s)" using inv by (auto simp: system_inv_def)
  have l: "\<forall>j<N_FACES. link_inv sg s j" and sz: "sizes s" using inv by (auto simp: system_inv_def)
  then have ul: "up_link ?c (socket_readers s ! i) (facing_gone s ! i) (to_server (server s) ! i)
      (listeners (server s) ! i)"
    using i by (simp add: link_inv_def)
  obtain r src dst where st: "relay_step (socket_readers s ! i) (outbox ?c) (to_server (server s) ! i) =
      Some (r, src, dst)"
    and s': "s' = set_client i (?c\<lparr>outbox_taken := taken src\<rparr>)
      (s\<lparr>server := (server s)\<lparr>to_server := (to_server (server s))[i := dst]\<rparr>,
         socket_readers := (socket_readers s)[i := r]\<rparr>)"
    using step by (auto simp: socket_reader_step_def split: option.splits if_splits)
  have "server_inv V (server s')"
    using socket_reader_server [OF ul i step] V server_inv_env by metis
  moreover have "link_inv sg s' j" if j: "j < N_FACES" for j
  proof (cases "j = i")
    case False
    then show ?thesis using l j by (simp add: s' link_inv_def set_client_def)
  next
    case True
    have "down_link sg (to_client (server s) ! i) (pipe_readers s ! i) (?c\<lparr>outbox_taken := taken src\<rparr>)"
      by (rule down_link_frame [of _ _ _ ?c]) (use l i in \<open>simp_all add: link_inv_def\<close>)
    then show ?thesis
      using True up_link_relay [OF ul st] sz i server_inv_shape [OF V]
      by (simp add: s' link_inv_def set_client_def sizes_def)
  qed
  moreover have "breaks_ok s'"
    by (rule breaks_ok_mono [of s]) (use inv in \<open>simp_all add: s' set_client_def system_inv_def\<close>)
  moreover have "sizes s'" using sz by (simp add: s' set_client_def sizes_def)
  ultimately show ?thesis by (auto simp: system_inv_def)
qed

text \<open>The ends of pipes and processes.\<close>

lemma system_inv_last_writer:
  assumes inv: "system_inv sg s" and i: "i < N_FACES" and w: "no_writer i s"
  shows "system_inv sg (s\<lparr>server := close_to_server i (server s)\<rparr>)"
proof -
  let ?s = "s\<lparr>server := close_to_server i (server s)\<rparr>"
  obtain V where V: "server_inv V (server s)" using inv by (auto simp: system_inv_def)
  have "env_step (server s) (close_to_server i (server s))"
    unfolding close_to_server_def by (rule client_closes [OF i])
  then have "server_inv V (server ?s)" using server_inv_env [OF V] by simp
  moreover have "link_inv sg ?s j" if j: "j < N_FACES" for j
    using inv i j w server_inv_shape [OF V]
    by (cases "j = i")
      (auto simp: system_inv_def link_inv_def close_to_server_def up_link_def ends_ok_def no_writer_def)
  moreover have "breaks_ok ?s"
    by (rule breaks_ok_mono [of s]) (use inv in \<open>simp_all add: close_to_server_def system_inv_def\<close>)
  ultimately show ?thesis using inv by (auto simp: system_inv_def sizes_def)
qed

lemma system_inv_last_reader:
  assumes inv: "system_inv sg s" and i: "i < N_FACES" and w: "no_reader i s"
  shows "system_inv sg (s\<lparr>server := break_to_client i (server s)\<rparr>)"
proof -
  let ?s = "s\<lparr>server := break_to_client i (server s)\<rparr>"
  obtain V where V: "server_inv V (server s)" using inv by (auto simp: system_inv_def)
  have "env_step (server s) (break_to_client i (server s))"
    unfolding break_to_client_def by (rule client_goes [OF i])
  then have "server_inv V (server ?s)" using server_inv_env [OF V] by simp
  moreover have "link_inv sg ?s j" if j: "j < N_FACES" for j
    using inv i j server_inv_shape [OF V]
    by (cases "j = i")
      (auto simp: system_inv_def link_inv_def break_to_client_def down_link_def open_ok_def carries_def)
  moreover have "facing_gone s ! i"
    using w inv i by (auto simp: no_reader_def system_inv_def link_inv_def down_link_def open_ok_def)
  then have "breaks_ok ?s"
    using inv w server_inv_shape [OF V] i
    by (auto simp: breaks_ok_def system_inv_def break_to_client_def no_reader_def nth_list_update le_less)
  ultimately show ?thesis using inv by (auto simp: system_inv_def sizes_def)
qed

lemma system_inv_sigpipe:
  assumes inv: "system_inv sg s" and i: "i < N_FACES" and gone: "stopped (clients s ! i) \<noteq> None"
  shows "system_inv sg (s\<lparr>facing_gone := (facing_gone s)[i := True]\<rparr>)"
proof -
  let ?s = "s\<lparr>facing_gone := (facing_gone s)[i := True]\<rparr>"
  have sz: "sizes s" using inv by (simp add: system_inv_def)
  have "link_inv sg ?s j" if j: "j < N_FACES" for j
    using inv i j gone sz
    by (cases "j = i") (auto simp: system_inv_def link_inv_def up_link_def ends_ok_def sizes_def)
  moreover have "breaks_ok ?s"
    by (rule breaks_ok_mono [of s]) (use inv i sz in \<open>auto simp: system_inv_def sizes_def nth_list_update\<close>)
  ultimately show ?thesis using inv by (simp add: system_inv_def sizes_def)
qed

lemma system_inv_step:
  assumes inv: "system_inv sg s" and rng: "rng_ok (rand_r pf)" and step: "system_step pf sg s s'"
  shows "system_inv sg s'"
  using step by (rule system_stepE)
    (auto intro: system_inv_server [OF inv rng] system_inv_client [OF inv]
      system_inv_pipe_reader [OF inv] system_inv_socket_reader [OF inv] system_inv_last_writer [OF inv]
      system_inv_last_reader [OF inv] system_inv_sigpipe [OF inv])

lemma system_inv_start:
  assumes "cube_in h p solved_val" and "length as = N_FACES" and "\<forall>a\<in>set as. fresh_client a"
  shows "system_inv sg (system_start fds h p as)"
proof -
  have "link_inv sg (system_start fds h p as) i" if i: "i < N_FACES" for i
  proof -
    have a: "fresh_client (as ! i)" using assms(2,3) i by simp
    then have c: "client_inv sg [] 0 (client_start (as ! i))"
      by (intro client_inv_start) (simp_all add: fresh_client_def)
    have ob: "outbox (client_start (as ! i)) = fresh_pipe"
      using a by (simp add: outbox_def client_start_def fresh_client_def fresh_pipe_def)
    have op: "\<not> closed fresh_pipe" by (simp add: fresh_pipe_def)
    have "down_link sg fresh_pipe Reading (client_start (as ! i))"
      unfolding down_link_def
      by (intro conjI exI [of _ "[]"] exI [of _ 0])
        (use c in \<open>simp_all add: cubes.channel_fresh op fed_def passed_on_def open_ok_def client_start_def\<close>)
    moreover have "up_link (client_start (as ! i)) Reading False fresh_pipe Idle"
      unfolding up_link_def ob
      by (intro conjI exI [of _ "[]"] exI [of _ 0]) (simp_all add: commands.channel_fresh op passed_on_def ends_ok_def ob)
    ultimately show ?thesis using i assms(2) by (simp add: link_inv_def system_start_def server_start_def)
  qed
  then show ?thesis
    using server_inv_start [OF assms(1)] assms(2)
    by (auto simp: system_inv_def sizes_def system_start_def breaks_ok_def server_start_def fresh_pipe_def)
qed

lemma system_inv_reachable:
  assumes rng: "rng_ok (rand_r pf)" and s0: "system_inv sg s0" and r: "system_reachable pf sg s0 s"
  shows "system_inv sg s"
  using r by induction (use s0 system_inv_step [OF _ rng] system_inv_outside in blast)+

section \<open>The system refines the server\<close>

text \<open>Whatever the system does, its server moves as the server of \<open>Server_Threads\<close> in some environment.\<close>

lemma system_step_server:
  assumes inv: "system_inv sg s" and step: "system_step pf sg s s'"
  shows "server s' = server s \<or> internal_step pf (server s) (server s') \<or> env_step (server s) (server s')"
proof -
  have l: "link_inv sg s i" if "i < N_FACES" for i using inv that by (simp add: system_inv_def)
  show ?thesis
    using step
  proof (rule system_stepE)
    fix v assume "s' = s\<lparr>server := v\<rparr>" "internal_step pf (server s) v"
    then show ?thesis by simp
  next
    fix i c assume "s' = set_client i c s"
    then show ?thesis by (simp add: set_client_def)
  next
    fix i assume "i < N_FACES" "pipe_reader_step i s = Some s'"
    then show ?thesis using pipe_reader_server l by (auto simp: link_inv_def down_link_def open_ok_def)
  next
    fix i assume i: "i < N_FACES" and st: "socket_reader_step i s = Some s'"
    show ?thesis using socket_reader_server [OF _ i st] l [OF i] by (auto simp: link_inv_def)
  next
    fix i assume "i < N_FACES" "s' = s\<lparr>server := close_to_server i (server s)\<rparr>"
    then show ?thesis by (auto simp: close_to_server_def intro: client_closes)
  next
    fix i assume "i < N_FACES" "s' = s\<lparr>server := break_to_client i (server s)\<rparr>"
    then show ?thesis by (auto simp: break_to_client_def intro: client_goes)
  qed simp
qed

lemma outside_step_server: "outside_step s s' \<Longrightarrow> server s' = server s"
  by (erule outside_stepE) (simp_all add: set_client_def)

theorem system_server_reachable:
  assumes rng: "rng_ok (rand_r pf)" and s0: "system_inv sg s0" and r: "system_reachable pf sg s0 s"
  shows "reachable pf (server s0) (server s)"
  using r
proof induction
  case start
  then show ?case by (rule reachable.start)
next
  case (internal s s')
  from system_step_server [OF system_inv_reachable [OF rng s0 internal.hyps(1)] internal.hyps(2)]
  show ?case using internal.IH by (auto intro: reachable.internal reachable.env)
next
  case (outside s s')
  then show ?case using outside_step_server by metis
qed

text \<open>Clients send nothing but commands, so only a lack of memory brings the server down, or the end of the
  process of the client that was accepted first.\<close>

lemma system_crash_cause:
  assumes inv: "system_inv sg s" and rng: "rng_ok (rand_r pf)" and step: "internal_step pf (server s) v"
    and cr: "crashed v = Some e"
  shows "quota (server_mem (server s)) < 930 \<or> (facing_gone s ! 0 \<and> e = Signal ''SIGPIPE'')"
proof -
  obtain V where V: "server_inv V (server s)" using inv by (auto simp: system_inv_def)
  from crash_cause [OF V rng step cr] show ?thesis
  proof
    assume "\<exists>i<N_FACES. \<exists>l. listeners (server s) ! i = Locked l \<and>
      (command_of (signed_char pf) l = Bad \<or> quota (server_mem (server s)) < 930)"
    then obtain i l where i: "i < N_FACES" and l: "listeners (server s) ! i = Locked l"
      and c: "command_of (signed_char pf) l = Bad \<or> quota (server_mem (server s)) < 930" by blast
    have "commanding (listeners (server s) ! i)" using inv i by (auto simp: system_inv_def link_inv_def up_link_def)
    then obtain x where x: "command_key x" "l = command_line x" using l by (auto simp: commanding_def)
    obtain k f where kf: "x = (k, f)" by (cases x)
    have "command_of (signed_char pf) l = key_command k f"
      using command_of_line(1) x by (simp add: kf command_key_def)
    then have "command_of (signed_char pf) l \<noteq> Bad" using x by (auto simp: kf command_key_def key_command_def)
    with c show ?thesis by simp
  next
    assume "\<exists>k<N_FACES. \<exists>m. broadcaster (server s) = Sending m k \<and> broken (to_client (server s) ! k) \<and>
      e = Signal ''SIGPIPE''"
    then show ?thesis using inv by (auto simp: system_inv_def breaks_ok_def)
  qed
qed

section \<open>When the system is at rest\<close>

definition system_stuck :: "platform \<Rightarrow> bool \<Rightarrow> system \<Rightarrow> bool" where
  "system_stuck pf sg s \<longleftrightarrow> (\<forall>s'. \<not> system_step pf sg s s')"

lemma system_stuckD:
  assumes st: "system_stuck pf sg s"
  shows "crashed (server s) = None \<Longrightarrow> stuck pf (server s)"
    and "i < N_FACES \<Longrightarrow> stopped (clients s ! i) = None \<Longrightarrow> client_stuck sg (clients s ! i)"
    and "i < N_FACES \<Longrightarrow> pipe_reader_step i s = None"
    and "i < N_FACES \<Longrightarrow> socket_reader_step i s = None"
proof -
  show "crashed (server s) = None \<Longrightarrow> stuck pf (server s)"
    using st system_step.server [of pf s _ sg] by (auto simp: stuck_def system_stuck_def)
  show "i < N_FACES \<Longrightarrow> stopped (clients s ! i) = None \<Longrightarrow> client_stuck sg (clients s ! i)"
    using st system_step.client [of i sg s _ pf] by (auto simp: client_stuck_def system_stuck_def)
  show "i < N_FACES \<Longrightarrow> pipe_reader_step i s = None"
    using st system_step.to_socket [of i s] by (cases "pipe_reader_step i s") (auto simp: system_stuck_def)
  show "i < N_FACES \<Longrightarrow> socket_reader_step i s = None"
    using st system_step.to_pipe [of i s] by (cases "socket_reader_step i s") (auto simp: system_stuck_def)
qed

lemma cube_lines_injective:
  assumes "\<forall>V\<in>set Vs. solvable V" and "\<forall>V\<in>set Ws. solvable V"
    and "concat (map cube_line Vs) = concat (map cube_line Ws)"
  shows "Vs = Ws"
proof -
  have "lines_of (concat (map cube_line Us)) = map cube_line Us" if "\<forall>V\<in>set Us. solvable V" for Us
    using that cubes.enc_line by (intro lines_of_lines) auto
  then have "map cube_line Vs = map cube_line Ws" using assms by metis
  moreover have "inj_on cube_line (Collect solvable)"
    using cube_msg.enc_injective solvable_std solvable_plain by (auto intro!: inj_onI)
  ultimately show ?thesis
    using assms(1,2) by (intro map_inj_on [of cube_line]) (auto intro: inj_on_subset)
qed

text \<open>At rest all commands of a client have been taken by the server, and the cube it displays is the
  server's.\<close>

lemma rest_up:
  assumes inv: "system_inv sg s" and st: "system_stuck pf sg s" and cr: "crashed (server s) = None"
    and i: "i < N_FACES" and run: "stopped (clients s ! i) = None"
  shows "written (to_server (server s) ! i) = socket_out (args (clients s ! i)) \<and>
    unread (to_server (server s) ! i) = []"
proof -
  obtain V where V: "server_inv V (server s)" using inv by (auto simp: system_inv_def)
  obtain xs k ys j where ch: "commands.channel (outbox (clients s ! i)) xs k"
    and p: "passed_on command_line (socket_readers s ! i) xs k ys"
    and d: "commands.channel (to_server (server s) ! i) ys j"
    using inv i by (auto simp: system_inv_def link_inv_def up_link_def)
  have e: "ends_ok (clients s ! i) (socket_readers s ! i) (facing_gone s ! i) (to_server (server s) ! i)
      (listeners (server s) ! i)"
    using inv i by (simp add: system_inv_def link_inv_def up_link_def)
  then have g: "\<not> facing_gone s ! i" using run by (auto simp: ends_ok_def)
  then have "relay_step (socket_readers s ! i) (outbox (clients s ! i)) (to_server (server s) ! i) = None"
    using system_stuckD(4) [OF st i] by (auto simp: socket_reader_step_def split: option.splits)
  note r = relay_step_None [OF this]
  have "resting (server s)"
    using stuck_resting [OF _ system_stuckD(1) [OF st cr]] V by (simp add: server_inv_def)
  then have n: "newline \<notin> set (unread (to_server (server s) ! i))"
    using run i e by (auto simp: resting_def ends_ok_def)
  have sr: "socket_readers s ! i = Reading" and u: "newline \<notin> set (unread (outbox (clients s ! i)))"
    using r run e by (auto simp: ends_ok_def)
  have "ys = xs" using commands.relay_drained [OF ch p u] sr by simp
  moreover have "unread (to_server (server s) ! i) = []"
    using commands.channel_unread [OF d] commands.channel_drained [OF d n] by simp
  ultimately show ?thesis using ch d by (simp add: carries_def outbox_def)
qed

lemma rest_down:
  assumes V: "server_inv V (server s)" and inv: "system_inv sg s" and st: "system_stuck pf sg s"
    and cr: "crashed (server s) = None" and i: "i < N_FACES" and run: "stopped (clients s ! i) = None"
  shows "client_ok (args (clients s ! i)) V" and "\<exists>ys j. client_inv sg ys j (clients s ! i) \<and> latest ys j = V"
proof -
  let ?c = "clients s ! i"
  have rs: "resting (server s)"
    using stuck_resting [OF _ system_stuckD(1) [OF st cr]] V by (simp add: server_inv_def)
  obtain Vs k ys j where ch: "cubes.channel (to_client (server s) ! i) Vs k"
    and p: "passed_on cube_line (pipe_readers s ! i) Vs k ys" and c: "client_inv sg ys j ?c"
    and op: "open_ok (to_client (server s) ! i) (pipe_readers s ! i) ?c"
    using inv i run by (auto simp: system_inv_def link_inv_def down_link_def fed_def)
  have "\<not> facing_gone s ! i" using inv i run by (auto simp: system_inv_def link_inv_def up_link_def ends_ok_def)
  then have "relay_step (pipe_readers s ! i) (to_client (server s) ! i) (inbox ?c) = None"
    using system_stuckD(3) [OF st i] by (auto simp: pipe_reader_step_def split: option.splits)
  from relay_step_None [OF this] have "pipe_readers s ! i = Reading"
    and "newline \<notin> set (unread (to_client (server s) ! i))" using op by (auto simp: open_ok_def)
  then have ys: "ys = Vs" using cubes.relay_drained [OF ch p] by simp
  have cs: "client_stuck sg ?c" by (rule system_stuckD(2) [OF st i run])
  then have rc: "receiver ?c = At_Getline" and n: "newline \<notin> set (unread (inbox ?c))"
    using client_stuck_resting(2) op by (auto simp: open_ok_def)
  have j: "j = length ys" using cubes.channel_drained [OF _ n] c by (simp add: client_inv_def)
  have ok: "\<forall>W\<in>set Vs. solvable W" and w: "written (to_client (server s) ! i) = concat (map cube_line Vs)"
    using ch by (simp_all add: carries_def)
  from resting_current [OF V rs] have "Vs = [] \<and> V = solved_val \<or> (\<exists>Ws. Vs = Ws @ [V])"
  proof
    assume "\<forall>k<N_FACES. sent V (written (to_client (server s) ! k))"
    then obtain Ws where Ws: "\<forall>W\<in>set Ws. solvable W"
      "written (to_client (server s) ! i) = concat (map cube_line (Ws @ [V]))"
      using i unfolding sent_def by blast
    moreover have "solvable V" using V by (simp add: server_inv_def holds_def)
    ultimately have "Vs = Ws @ [V]" using ok w by (intro cube_lines_injective) auto
    then show ?thesis by blast
  next
    assume "V = solved_val \<and> (\<forall>k<N_FACES. written (to_client (server s) ! k) = [])"
    then have "concat (map cube_line Vs) = []" and V: "V = solved_val" using w i by auto
    then have "Vs = []" by (cases Vs) (simp_all add: cube_line_def)
    with V show ?thesis by blast
  qed
  then have l: "latest ys j = V" by (auto simp: latest_def j ys)
  then show "\<exists>ys j. client_inv sg ys j ?c \<and> latest ys j = V" using c by blast
  show "client_ok (args ?c) V" using c rc l by (simp add: client_inv_parts)
qed

section \<open>The system comes to rest\<close>

definition relay_up_work :: "relay \<Rightarrow> nat" where
  "relay_up_work r = (case r of Reading \<Rightarrow> 1 | Carrying l \<Rightarrow> 2 | Finished \<Rightarrow> 0)"

definition relay_down_work :: "relay \<Rightarrow> nat" where
  "relay_down_work r = (case r of Reading \<Rightarrow> 1 | Carrying l \<Rightarrow> 72 * length l + 2 | Finished \<Rightarrow> 0)"

definition up_work :: "system \<Rightarrow> nat" where
  "up_work s = (\<Sum>i<N_FACES. relay_up_work (socket_readers s ! i) + 3 * length (unread (outbox (clients s ! i))))"

definition down_work :: "system \<Rightarrow> nat" where
  "down_work s = (\<Sum>i<N_FACES. relay_down_work (pipe_readers s ! i) +
     74 * length (unread (to_client (server s) ! i)) + client_work (clients s ! i))"

definition ends_left :: "system \<Rightarrow> nat" where
  "ends_left s = (\<Sum>i<N_FACES. of_bool (\<not> closed (to_server (server s) ! i)) +
     of_bool (\<not> broken (to_client (server s) ! i)) + of_bool (\<not> facing_gone s ! i))"

text \<open>Every step uses up work on the way to the server, or work of the server, or work on the way
  from the server, or ends something, without adding any to what comes before.\<close>

definition less_work :: "(system \<times> system) set" where
  "less_work = measures [up_work, \<lambda>s. work (server s), down_work, ends_left]"

lemma wf_less_work: "wf less_work"
  by (simp add: less_work_def)

lemma less_workI:
  "up_work s' < up_work s \<Longrightarrow> (s', s) \<in> less_work"
  "up_work s' = up_work s \<Longrightarrow> work (server s') < work (server s) \<Longrightarrow> (s', s) \<in> less_work"
  "up_work s' = up_work s \<Longrightarrow> work (server s') = work (server s) \<Longrightarrow> down_work s' < down_work s \<Longrightarrow>
     (s', s) \<in> less_work"
  "up_work s' = up_work s \<Longrightarrow> work (server s') = work (server s) \<Longrightarrow> down_work s' = down_work s \<Longrightarrow>
     ends_left s' < ends_left s \<Longrightarrow> (s', s) \<in> less_work"
  by (simp_all add: less_work_def)

lemma relay_unread:
  assumes "relay_step r src dst = Some (r', src', dst')"
  shows "relay_up_work r' + 3 * length (unread src') < relay_up_work r + 3 * length (unread src)"
    and "relay_down_work r' + 74 * length (unread src') + 71 * length (unread dst') <
      relay_down_work r + 74 * length (unread src) + 71 * length (unread dst)"
proof -
  consider (takes) l where "r = Reading" "pipe_getline src = Some (l, src')" "r' = Carrying l" "dst' = dst"
    | (ends) "r = Reading" "r' = Finished" "src' = src" "dst' = dst"
    | (gives) l where "r = Carrying l" "r' = Reading" "src' = src"
        "dst' = pipe_write (takeWhile (\<lambda>c. c \<noteq> nul) l) dst"
    using assms by (auto simp: relay_step_def c_string_line_buffer split: relay.splits option.splits if_splits)
  then have "relay_up_work r' + 3 * length (unread src') < relay_up_work r + 3 * length (unread src) \<and>
    relay_down_work r' + 74 * length (unread src') + 71 * length (unread dst') <
      relay_down_work r + 74 * length (unread src) + 71 * length (unread dst)"
  proof cases
    case takes
    have "length (unread src) = length l + length (unread src')" and "l \<noteq> []"
      using pipe_getline_unread [OF takes(2)] pipe_getline_nonempty [OF takes(2)] by simp_all
    moreover from this obtain m where "length l = Suc m" by (cases l) auto
    ultimately show ?thesis using takes by (simp add: relay_up_work_def relay_down_work_def)
  next
    case ends
    then show ?thesis by (simp add: relay_up_work_def relay_down_work_def unread_def)
  next
    case gives
    have "length (unread dst') \<le> length (unread dst) + length l"
      using length_takeWhile_le [of "\<lambda>c. c \<noteq> nul" l]
      by (simp add: gives unread_def pipe_write_def fputs_def)
    then show ?thesis using gives by (simp add: relay_up_work_def relay_down_work_def)
  qed
  then show "relay_up_work r' + 3 * length (unread src') < relay_up_work r + 3 * length (unread src)"
    and "relay_down_work r' + 74 * length (unread src') + 71 * length (unread dst') <
      relay_down_work r + 74 * length (unread src) + 71 * length (unread dst)" by simp_all
qed

lemma system_step_less:
  assumes inv: "system_inv sg s" and step: "system_step pf sg s s'"
  shows "(s', s) \<in> less_work"
proof -
  obtain V where V: "server_inv V (server s)" using inv by (auto simp: system_inv_def)
  have sz: "sizes s" using inv by (simp add: system_inv_def)
  show ?thesis
    using step
  proof (rule system_stepE)
    fix v assume s': "s' = s\<lparr>server := v\<rparr>" and st: "internal_step pf (server s) v"
    have "work v < work (server s)" using V st by (intro work_less) (simp_all add: server_inv_def)
    moreover have "up_work s' = up_work s" by (simp add: up_work_def s')
    ultimately show ?thesis by (intro less_workI(2)) (simp_all add: s')
  next
    fix i c assume s': "s' = set_client i c s" and i: "i < N_FACES" and st: "client_internal sg (clients s ! i) c"
    obtain ys j where c: "client_inv sg ys j (clients s ! i)"
      using inv i by (auto simp: system_inv_def link_inv_def down_link_def)
    have o: "clients s' ! j = (if j = i then c else clients s ! j)" for j
      using i sz by (simp add: s' set_client_def sizes_def)
    have "up_work s' = up_work s"
      using client_internal_outbox [OF st] unfolding up_work_def
      by (intro sum.cong) (auto simp: o, simp_all add: s' set_client_def)
    moreover have "down_work s' + 0 < down_work s + 0"
      unfolding down_work_def
      by (rule sum_change [OF i]) (use client_work_less [OF c st] o in \<open>simp_all add: s' set_client_def\<close>)
    ultimately show ?thesis by (intro less_workI(3)) (simp_all add: s' set_client_def)
  next
    fix i assume i: "i < N_FACES" and st: "pipe_reader_step i s = Some s'"
    let ?c = "clients s ! i"
    obtain r src dst where rs: "relay_step (pipe_readers s ! i) (to_client (server s) ! i) (inbox ?c) =
        Some (r, src, dst)"
      and s': "s' = set_client i (?c\<lparr>inbox := if stopped ?c = None then dst else inbox ?c\<rparr>)
        (s\<lparr>server := (server s)\<lparr>to_client := (to_client (server s))[i := src]\<rparr>,
           pipe_readers := (pipe_readers s)[i := r]\<rparr>)"
      using st by (auto simp: pipe_reader_step_def split: option.splits if_splits)
    obtain b where b: "b = (if stopped ?c = None then dst else inbox ?c)" by blast
    have le: "length (unread b) \<le> length (unread dst)" using relay_step_source(6) [OF rs] by (simp add: b)
    have o: "clients s' ! j = (if j = i then ?c\<lparr>inbox := b\<rparr> else clients s ! j)"
      "pipe_readers s' ! j = (if j = i then r else pipe_readers s ! j)"
      "to_client (server s') ! j = (if j = i then src else to_client (server s) ! j)" for j
      using i sz server_inv_shape [OF V] by (simp_all add: s' b set_client_def sizes_def)
    have "up_work s' = up_work s"
      by (auto simp: up_work_def o outbox_def intro!: sum.cong) (simp_all add: s' set_client_def)
    moreover have "work (server s') = work (server s)"
      by (simp add: s' set_client_def work_def channel_work_def)
    moreover have "down_work s' + 0 < down_work s + 0"
      unfolding down_work_def
      by (rule sum_change [OF i]) (use relay_unread(2) [OF rs] le o in \<open>simp_all add: client_work_def\<close>)
    ultimately show ?thesis by (intro less_workI(3)) simp_all
  next
    fix i assume i: "i < N_FACES" and st: "socket_reader_step i s = Some s'"
    obtain r src dst where rs: "relay_step (socket_readers s ! i) (outbox (clients s ! i)) (to_server (server s) ! i) =
        Some (r, src, dst)"
      and s': "s' = set_client i ((clients s ! i)\<lparr>outbox_taken := taken src\<rparr>)
        (s\<lparr>server := (server s)\<lparr>to_server := (to_server (server s))[i := dst]\<rparr>,
           socket_readers := (socket_readers s)[i := r]\<rparr>)"
      using st by (auto simp: socket_reader_step_def split: option.splits if_splits)
    have o: "clients s' ! j = (if j = i then (clients s ! i)\<lparr>outbox_taken := taken src\<rparr> else clients s ! j)"
      "socket_readers s' ! j = (if j = i then r else socket_readers s ! j)" for j
      using i sz by (simp_all add: s' set_client_def sizes_def)
    have ob: "outbox ((clients s ! i)\<lparr>outbox_taken := taken src\<rparr>) = src"
      using relay_step_source [OF rs] by (cases src) (simp add: outbox_def)
    have "up_work s' + 0 < up_work s + 0"
      unfolding up_work_def
      by (rule sum_change [OF i]) (use relay_unread(1) [OF rs] o ob in \<open>simp_all\<close>)
    then show ?thesis by (intro less_workI(1)) simp
  next
    fix i assume i: "i < N_FACES" and s': "s' = s\<lparr>server := close_to_server i (server s)\<rparr>"
      and unclosed: "\<not> closed (to_server (server s) ! i)"
    have o: "to_server (server s') ! j = (if j = i then (to_server (server s) ! i)\<lparr>closed := True\<rparr>
        else to_server (server s) ! j)" for j
      using i server_inv_shape [OF V] by (simp add: s' close_to_server_def)
    have "ends_left s' + 0 < ends_left s + 0"
      unfolding ends_left_def
      by (rule sum_change [OF i]) (use unclosed o in \<open>simp_all add: s' close_to_server_def\<close>)
    moreover have "unread (to_server (server s') ! j) = unread (to_server (server s) ! j)" for j
      by (simp add: o unread_def)
    then have "channel_work (server s') = channel_work (server s)"
      by (intro ext) (simp add: channel_work_def, simp add: s' close_to_server_def)
    then have "work (server s') = work (server s)" by (simp add: work_def) (simp add: s' close_to_server_def)
    ultimately show ?thesis
      by (intro less_workI(4)) (simp_all add: s' up_work_def down_work_def close_to_server_def)
  next
    fix i assume i: "i < N_FACES" and s': "s' = s\<lparr>server := break_to_client i (server s)\<rparr>"
      and whole: "\<not> broken (to_client (server s) ! i)"
    have o: "to_client (server s') ! j = (if j = i then (to_client (server s) ! i)\<lparr>broken := True\<rparr>
        else to_client (server s) ! j)" for j
      using i server_inv_shape [OF V] by (simp add: s' break_to_client_def)
    have "ends_left s' + 0 < ends_left s + 0"
      unfolding ends_left_def
      by (rule sum_change [OF i]) (use whole o in \<open>simp_all add: s' break_to_client_def\<close>)
    moreover have "unread (to_client (server s') ! j) = unread (to_client (server s) ! j)" for j
      by (simp add: o unread_def)
    then have "down_work s' = down_work s" by (simp add: down_work_def) (simp add: s')
    ultimately show ?thesis
      by (intro less_workI(4)) (simp_all add: s' up_work_def work_def channel_work_def break_to_client_def)
  next
    fix i assume i: "i < N_FACES" and s': "s' = s\<lparr>facing_gone := (facing_gone s)[i := True]\<rparr>"
      and there: "\<not> facing_gone s ! i"
    have "ends_left s' + 0 < ends_left s + 0"
      unfolding ends_left_def
      by (rule sum_change [OF i]) (use there i sz in \<open>simp_all add: s' sizes_def\<close>)
    then show ?thesis by (intro less_workI(4)) (simp_all add: s' up_work_def down_work_def)
  qed
qed

theorem system_terminates:
  assumes rng: "rng_ok (rand_r pf)" and "system_inv sg (run 0)"
    and "\<And>n. system_step pf sg (run n) (run (Suc n))"
  shows False
proof -
  have inv: "system_inv sg (run n)" for n
    by (induction n) (use assms system_inv_step [OF _ rng] in blast)+
  have "(run (Suc n), run n) \<in> less_work" for n using system_step_less [OF inv assms(3)] .
  then show False using wf_less_work unfolding wf_iff_no_infinite_down_chain by blast
qed

theorem system_settles:
  assumes rng: "rng_ok (rand_r pf)" and inv: "system_inv sg s"
  shows "\<exists>s'. (system_step pf sg)\<^sup>*\<^sup>* s s' \<and> system_inv sg s' \<and> system_stuck pf sg s'"
  using inv
proof (induction s rule: wf_induct_rule [OF wf_less_work])
  case (1 s)
  show ?case
  proof (cases "system_stuck pf sg s")
    case True
    with 1 show ?thesis by blast
  next
    case False
    then obtain t where t: "system_step pf sg s t" by (auto simp: system_stuck_def)
    from 1(1) [OF system_step_less [OF 1(2) t] system_inv_step [OF 1(2) rng t]] t
    show ?thesis by (meson converse_rtranclp_into_rtranclp)
  qed
qed

section \<open>Runs of the system\<close>

definition start_ok :: "mem \<Rightarrow> addr \<Rightarrow> client_thread_args list \<Rightarrow> bool" where
  "start_ok h p as \<longleftrightarrow> cube_in h p solved_val \<and> length as = N_FACES \<and> (\<forall>a\<in>set as. fresh_client a)"

lemma start_ok_inv:
  assumes "rng_ok (rand_r pf)" and "start_ok h p as" and "system_reachable pf sg (system_start fds h p as) s"
  shows "system_inv sg s"
  using system_inv_reachable [OF assms(1) system_inv_start assms(3)] assms(2) by (simp add: start_ok_def)

text \<open>What has arrived at the end of a direction is the beginning of what was sent, in whole messages.\<close>

lemma messages_in_order:
  assumes inv: "system_inv sg s" and i: "i < N_FACES"
  shows "\<exists>Vs Ws. prefix Ws Vs \<and> (\<forall>V\<in>set Vs. solvable V) \<and>
      written (to_client (server s) ! i) = concat (map cube_line Vs) \<and>
      written (inbox (clients s ! i)) = concat (map cube_line Ws)"
    and "\<exists>xs ys. prefix ys xs \<and> (\<forall>x\<in>set xs. command_key x) \<and>
      socket_out (args (clients s ! i)) = concat (map command_line xs) \<and>
      written (to_server (server s) ! i) = concat (map command_line ys)"
proof -
  have l: "link_inv sg s i" using inv i by (simp add: system_inv_def)
  then obtain Vs k Ws j where d: "cubes.channel (to_client (server s) ! i) Vs k"
    and p: "fed (clients s ! i) (pipe_readers s ! i) Vs k Ws" and c: "client_inv sg Ws j (clients s ! i)"
    by (auto simp: link_inv_def down_link_def)
  have "cubes.channel (inbox (clients s ! i)) Ws j" using c by (simp add: client_inv_def)
  with d fed_prefix [OF p] show "\<exists>Vs Ws. prefix Ws Vs \<and> (\<forall>V\<in>set Vs. solvable V) \<and>
      written (to_client (server s) ! i) = concat (map cube_line Vs) \<and>
      written (inbox (clients s ! i)) = concat (map cube_line Ws)"
    by (intro exI [of _ Vs] exI [of _ Ws]) (simp add: carries_def)
  obtain xs k ys j where u: "commands.channel (outbox (clients s ! i)) xs k"
    and q: "passed_on command_line (socket_readers s ! i) xs k ys"
    and v: "commands.channel (to_server (server s) ! i) ys j"
    using l by (auto simp: link_inv_def up_link_def)
  from u v passed_on_prefix [OF q] show "\<exists>xs ys. prefix ys xs \<and> (\<forall>x\<in>set xs. command_key x) \<and>
      socket_out (args (clients s ! i)) = concat (map command_line xs) \<and>
      written (to_server (server s) ! i) = concat (map command_line ys)"
    by (intro exI [of _ xs] exI [of _ ys]) (simp add: carries_def outbox_def)
qed

text \<open>Unless its user ends it, a client process faults only by its use of the face number before one has been
  chosen.\<close>

lemma clients_set_client:
  "i < N_FACES \<Longrightarrow> sizes s \<Longrightarrow> clients (set_client j c s) ! i = (if i = j then c else clients s ! i)"
  by (simp add: set_client_def sizes_def)

lemma pipe_reader_clients:
  "pipe_reader_step j s = Some s' \<Longrightarrow> sizes s \<Longrightarrow> i < N_FACES \<Longrightarrow> stopped (clients s' ! i) = stopped (clients s ! i)"
  by (auto simp: pipe_reader_step_def set_client_def sizes_def split: option.splits if_splits)
    (cases "i = j"; simp)

lemma socket_reader_clients:
  "socket_reader_step j s = Some s' \<Longrightarrow> sizes s \<Longrightarrow> i < N_FACES \<Longrightarrow> stopped (clients s' ! i) = stopped (clients s ! i)"
  by (auto simp: socket_reader_step_def set_client_def sizes_def split: option.splits if_splits)
    (cases "i = j"; simp)

lemma client_fault_cause:
  assumes inv: "system_inv sg s" and step: "system_step pf sg s s' \<or> outside_step s s'"
    and i: "i < N_FACES" and s: "stopped (clients s ! i) = None" and e: "stopped (clients s' ! i) = Some e"
  shows "(cube_face_id (args (clients s ! i)) = None \<and> e = Indeterminate) \<or> e = Signal ''SIGINT''"
proof -
  have sz: "sizes s" using inv by (simp add: system_inv_def)
  obtain ys j where c: "client_inv sg ys j (clients s ! i)"
    using inv i by (auto simp: system_inv_def link_inv_def down_link_def)
  from step show ?thesis
  proof
    assume "system_step pf sg s s'"
    then show ?thesis
    proof (rule system_stepE)
      fix k d assume "s' = set_client k d s" "k < N_FACES" "client_internal sg (clients s ! k) d"
      then show ?thesis using client_internal_stops [OF c] s e clients_set_client [OF i sz]
        by (auto split: if_splits)
    qed (use s e i sz pipe_reader_clients socket_reader_clients in auto)
  next
    assume "outside_step s s'"
    then show ?thesis
    proof (rule outside_stepE)
      fix k input assume "s' = set_client k (key_step input (clients s ! k)) s" "k < N_FACES"
      then show ?thesis using key_stops [OF c s] s e clients_set_client [OF i sz]
        by (auto split: if_splits)
    next
      fix k assume "s' = set_client k ((clients s ! k)\<lparr>stopped := Some (Signal ''SIGINT'')\<rparr>) s"
      then show ?thesis using s e clients_set_client [OF i sz] by (auto split: if_splits)
    next
      fix k assume "s' = set_client k ((clients s ! k)\<lparr>outbox_closed := True\<rparr>) s"
      then show ?thesis using s e clients_set_client [OF i sz] by (auto split: if_splits)
    qed
  qed
qed

text \<open>What a client that runs shows when the system is at rest.\<close>

lemma rest_shown:
  assumes V: "server_inv V (server s)" and inv: "system_inv sg s" and st: "system_stuck pf sg s"
    and cr: "crashed (server s) = None" and i: "i < N_FACES" and run: "stopped (clients s ! i) = None"
    and k: "keyer (clients s ! i) \<noteq> Left" and f: "cube_face_id (args (clients s ! i)) = Some f"
  shows "ends_with (client_screen (args (clients s ! i))) (drawing True (\<lambda>k. view V (nat f, k)) 9)"
  using rest_down(2) [OF V inv st cr i run] client_at_rest [OF _ system_stuckD(2) [OF st i run] k f] by auto

end
