(* ===== verification/Lost_Client.thy ===== *)
theory Lost_Client
  imports System
begin

text \<open>
  Longer runs of the system, put together from pieces: a line that passes from a client to the
  server, a command that is obeyed, a broadcast, a message that is taken by a relay; and at the
  end the run in which a client is ended by its user and the server is ended by that.
\<close>

section \<open>Runs\<close>

lemma system_reachable_steps:
  "(system_step pf sg)\<^sup>*\<^sup>* s s' \<Longrightarrow> system_reachable pf sg s0 s \<Longrightarrow> system_reachable pf sg s0 s'"
  by (induction rule: rtranclp_induct) (auto intro: system_reachable.internal)

lemma server_runs:
  assumes "(internal_step pf)\<^sup>*\<^sup>* v v'" and "server s = v"
  shows "(system_step pf sg)\<^sup>*\<^sup>* s (s\<lparr>server := v'\<rparr>)"
  using assms(1)
proof (induction rule: rtranclp_induct)
  case base
  have "s\<lparr>server := v\<rparr> = s" using assms(2) by simp
  then show ?case by simp
next
  case (step w w')
  have "system_step pf sg (s\<lparr>server := w\<rparr>) ((s\<lparr>server := w\<rparr>)\<lparr>server := w'\<rparr>)"
    by (rule system_step.server) (use step.hyps(2) in simp)
  with step.IH show ?case by (simp add: rtranclp.rtrancl_into_rtrancl)
qed

lemma server_inv_runs:
  assumes "(internal_step pf)\<^sup>*\<^sup>* v v'" and "server_inv V v" and "rng_ok (rand_r pf)"
  shows "\<exists>V'. server_inv V' v'"
  using assms(1)
proof (induction rule: rtranclp_induct)
  case base
  with assms(2) show ?case by blast
next
  case (step w w')
  then obtain W where W: "server_inv W w" by blast
  from step.hyps(2) show ?case
    by (rule internal_stepE)
      (blast intro: server_inv_listener [OF W assms(3)], blast intro: server_inv_broadcast [OF W])
qed

section \<open>What the server does with a command\<close>

lemma listener_obeys:
  assumes inv: "server_inv V' v" and h: "holds V v" and rng: "rng_ok (rand_r pf)" and cr: "crashed v = None" and i: "i < N_FACES"
    and idle: "listeners v ! i = Idle" and lock: "global_cube_state_lock v = None"
    and g: "pipe_getline (to_server v ! i) = Some (l, q)"
    and c: "command_of (signed_char pf) l \<noteq> Bad" and quota: "930 \<le> quota (server_mem v)"
  shows "\<exists>h W. (internal_step pf)\<^sup>*\<^sup>* v (v\<lparr>to_server := (to_server v)[i := q], server_mem := h,
      broadcast_message_ready := broadcast_message_ready v + 1\<rparr>) \<and> quota (server_mem v) \<le> quota h + 930 \<and>
    obeys (command_of (signed_char pf) l) V W \<and> cube_in h (global_cube_state v) W \<and> solvable W"
proof -
  let ?V = "\<lambda>pc h lk. v\<lparr>to_server := (to_server v)[i := q], listeners := (listeners v)[i := pc],
    server_mem := h, global_cube_state_lock := lk\<rparr>"
  let ?h = "printed (''Interpreting line: '' @ l) (server_mem v)"
  have len: "i < length (listeners v)" using inv i by (simp add: server_inv_def shape_def)
  have sv: "solvable V" and "cube_in (server_mem v) (global_cube_state v) V" using h by (simp_all add: holds_def)
  then have "cube_in ?h (global_cube_state v) V" by simp
  from decode_user_input_wp [OF rng pipe_getline_nonempty [OF g] this _ c, of 0 "[]"] quota
  have "runs_to (decode_user_input pf 0 (line_buffer l []) (global_cube_state v)) ?h
      (\<lambda>_ h'. (\<exists>W. obeys (command_of (signed_char pf) l) V W \<and> cube_in h' (global_cube_state v) W) \<and>
        quota (server_mem v) \<le> quota h' + 930)"
    by (simp add: printed_def)
  then obtain u h W where h: "decode_user_input pf 0 (line_buffer l []) (global_cube_state v) ?h = Inr (u, h)"
    "quota (server_mem v) \<le> quota h + 930" and W: "obeys (command_of (signed_char pf) l) V W" "cube_in h (global_cube_state v) W"
    by (rule runs_toE) blast
  have "solvable W" by (rule obeys_solvable [OF W(1) sv command_face])
  note step = internal_step.listener [of _ i pf 0]
  have "internal_step pf v (?V (Got l) ?h None)"
    by (rule step) (use idle i cr g lock in \<open>simp_all add: listener_step_def listener_read_def set_listener_def
      server_print_def\<close>)
  moreover have "internal_step pf (?V (Got l) ?h None) (?V (Locked l) ?h (Some (Listener i)))"
    by (rule step) (use i cr len in \<open>simp_all add: listener_step_def listener_lock_def set_listener_def\<close>)
  moreover have "internal_step pf (?V (Locked l) ?h (Some (Listener i))) (?V Applied h (Some (Listener i)))"
    by (rule step) (use i cr len h in \<open>simp_all add: listener_step_def listener_apply_def set_listener_def\<close>)
  moreover have "internal_step pf (?V Applied h (Some (Listener i))) (?V Posting h None)"
    by (rule step) (use i cr len in \<open>simp_all add: listener_step_def listener_unlock_def set_listener_def\<close>)
  moreover have "internal_step pf (?V Posting h None) ((?V Idle h None)\<lparr>broadcast_message_ready :=
      broadcast_message_ready v + 1\<rparr>)"
    by (rule step) (use i cr len in \<open>simp_all add: listener_step_def listener_post_def set_listener_def\<close>)
  moreover have "(?V Idle h None)\<lparr>broadcast_message_ready := broadcast_message_ready v + 1\<rparr> =
      v\<lparr>to_server := (to_server v)[i := q], server_mem := h,
        broadcast_message_ready := broadcast_message_ready v + 1\<rparr>"
    using idle lock len by (cases v) (auto simp: list_update_same_conv)
  ultimately have "(internal_step pf)\<^sup>*\<^sup>* v (v\<lparr>to_server := (to_server v)[i := q], server_mem := h,
      broadcast_message_ready := broadcast_message_ready v + 1\<rparr>)"
    by (simp add: converse_rtranclp_into_rtranclp)
  with h(2) W \<open>solvable W\<close> show ?thesis by blast
qed

section \<open>A broadcast\<close>

lemma broadcast_starts:
  assumes h: "holds V v" and cr: "crashed v = None" and w: "broadcaster v = Waiting"
    and lock: "global_cube_state_lock v = None" and m: "0 < broadcast_message_ready v"
  shows "\<exists>t. (internal_step pf)\<^sup>*\<^sup>* v (v\<lparr>broadcast_message_ready := broadcast_message_ready v - 1,
    server_mem := printed t (server_mem v), broadcaster := Sending (cube_line V) 0\<rparr>)"
proof -
  let ?v1 = "v\<lparr>broadcast_message_ready := broadcast_message_ready v - 1, broadcaster := Woken\<rparr>"
  let ?v2 = "?v1\<lparr>global_cube_state_lock := Some Broadcaster, broadcaster := Holding\<rparr>"
  note step = internal_step.broadcast [of _ _ pf]
  have "holds V ?v2" using h by (simp add: holds_def)
  from broadcast_encode_eq [OF this] obtain t where
    t: "broadcast_encode ?v2 = Some (?v2\<lparr>server_mem := printed t (server_mem v), broadcaster := Encoded (cube_line V)\<rparr>)"
    by auto
  let ?v3 = "?v2\<lparr>server_mem := printed t (server_mem v), broadcaster := Encoded (cube_line V)\<rparr>"
  let ?v4 = "server_print ''Broadcasting message.'' (?v3\<lparr>global_cube_state_lock := None,
    broadcaster := Sending (cube_line V) 0\<rparr>)"
  have "internal_step pf v ?v1" by (rule step) (use cr w m in \<open>simp_all add: broadcast_step_def\<close>)
  moreover have "internal_step pf ?v1 ?v2" by (rule step) (use cr lock in \<open>simp_all add: broadcast_step_def\<close>)
  moreover have "internal_step pf ?v2 ?v3" by (rule step) (use cr t in \<open>simp_all add: broadcast_step_def\<close>)
  moreover have "internal_step pf ?v3 ?v4" by (rule step) (use cr in \<open>simp_all add: broadcast_step_def\<close>)
  moreover have "?v4 = v\<lparr>broadcast_message_ready := broadcast_message_ready v - 1,
      server_mem := printed (t @ ''Broadcasting message.'') (server_mem v), broadcaster := Sending (cube_line V) 0\<rparr>"
    using lock by (cases v) (simp add: server_print_def printed_def)
  ultimately show ?thesis
    by (intro exI [of _ "t @ ''Broadcasting message.''"]) (simp add: converse_rtranclp_into_rtranclp)
qed

lemma broadcast_finishes:
  assumes "crashed v = None" and "broadcaster v = Sending m k" and "k \<le> N_FACES"
    and "\<forall>j<N_FACES. \<not> broken (to_client v ! j)" and "length (to_client v) = N_FACES"
  shows "\<exists>t qs. (internal_step pf)\<^sup>*\<^sup>* v (v\<lparr>server_mem := printed t (server_mem v), to_client := qs,
      broadcaster := Waiting\<rparr>) \<and> length qs = N_FACES \<and>
    (\<forall>j<N_FACES. qs ! j = (if k \<le> j then pipe_write m (to_client v ! j) else to_client v ! j))"
  using assms
proof (induction "N_FACES - k" arbitrary: v k)
  case 0
  then have k: "k = N_FACES" by simp
  have "internal_step pf v (v\<lparr>broadcaster := Waiting\<rparr>)"
    by (rule internal_step.broadcast) (use 0 k in \<open>simp_all add: broadcast_step_def\<close>)
  moreover have "v\<lparr>broadcaster := Waiting\<rparr> =
      v\<lparr>server_mem := printed [] (server_mem v), to_client := to_client v, broadcaster := Waiting\<rparr>"
    by (simp add: printed_def)
  ultimately show ?case
    using 0 k by (intro exI [of _ "[]"] exI [of _ "to_client v"]) auto
next
  case (Suc d)
  then have k: "k < N_FACES" by simp
  let ?note = "broadcast_note k (out_fds v ! k)"
  let ?w = "server_print ?note (v\<lparr>to_client := (to_client v)[k := pipe_write m (to_client v ! k)],
    broadcaster := Sending m (k + 1)\<rparr>)"
  have st: "internal_step pf v ?w"
    by (rule internal_step.broadcast) (use Suc.prems k in \<open>simp_all add: broadcast_step_def\<close>)
  have "\<exists>t qs. (internal_step pf)\<^sup>*\<^sup>* ?w (?w\<lparr>server_mem := printed t (server_mem ?w), to_client := qs,
      broadcaster := Waiting\<rparr>) \<and> length qs = N_FACES \<and>
    (\<forall>j<N_FACES. qs ! j = (if k + 1 \<le> j then pipe_write m (to_client ?w ! j) else to_client ?w ! j))"
    by (rule Suc.hyps(1)) (use Suc.hyps(2) Suc.prems k in
      \<open>simp_all add: server_print_def nth_list_update pipe_write_def\<close>)
  then obtain t qs where run: "(internal_step pf)\<^sup>*\<^sup>* ?w (?w\<lparr>server_mem := printed t (server_mem ?w),
      to_client := qs, broadcaster := Waiting\<rparr>)" and len: "length qs = N_FACES"
    and qs: "\<forall>j<N_FACES. qs ! j = (if k + 1 \<le> j then pipe_write m (to_client ?w ! j) else to_client ?w ! j)"
    by blast
  have "?w\<lparr>server_mem := printed t (server_mem ?w), to_client := qs, broadcaster := Waiting\<rparr> =
      v\<lparr>server_mem := printed (?note @ t) (server_mem v), to_client := qs, broadcaster := Waiting\<rparr>"
    by (simp add: server_print_def printed_def)
  moreover have "qs ! j = (if k \<le> j then pipe_write m (to_client v ! j) else to_client v ! j)" if "j < N_FACES" for j
    using qs that k Suc.prems(5) by (cases j k rule: linorder_cases) (auto simp: server_print_def)
  ultimately show ?case
    using converse_rtranclp_into_rtranclp [OF st run] len
    by (intro exI [of _ "?note @ t"] exI [of _ qs]) simp
qed

section \<open>Relays\<close>

text \<open>A line goes from the socket to the server's pipe in two steps of the relay.\<close>

definition passes_up :: "nat \<Rightarrow> string \<Rightarrow> pipe \<Rightarrow> system \<Rightarrow> system" where
  "passes_up i l q s = set_client i ((clients s ! i)\<lparr>outbox_taken := taken q\<rparr>)
     (s\<lparr>server := (server s)\<lparr>to_server := (to_server (server s))[i := pipe_write l (to_server (server s) ! i)]\<rparr>\<rparr>)"

lemma line_passes_up:
  assumes i: "i < N_FACES" and sz: "sizes s" and g: "\<not> facing_gone s ! i" and r: "socket_readers s ! i = Reading"
    and l: "pipe_getline (outbox (clients s ! i)) = Some (l, q)" and nul: "nul \<notin> set l"
    and len: "length (to_server (server s)) = N_FACES"
  shows "(system_step pf sg)\<^sup>*\<^sup>* s (passes_up i l q s)"
proof -
  let ?c = "(clients s ! i)\<lparr>outbox_taken := taken q\<rparr>"
  let ?s1 = "set_client i ?c (s\<lparr>socket_readers := (socket_readers s)[i := Carrying l]\<rparr>)"
  have same: "(server s)\<lparr>to_server := (to_server (server s))[i := to_server (server s) ! i]\<rparr> = server s" by simp
  have "socket_reader_step i s = Some ?s1"
    using g r l same by (simp add: socket_reader_step_def relay_step_def)
  then have st1: "system_step pf sg s ?s1" by (rule system_step.to_pipe [OF i])
  have ob: "taken (outbox ?c) = taken q" by (simp add: outbox_def)
  have tw: "takeWhile (\<lambda>c. c \<noteq> nul) l = l" using nul by (auto simp: takeWhile_eq_all_conv)
  have cl: "clients ?s1 ! i = ?c" using sz i by (simp add: set_client_def sizes_def)
  have "socket_reader_step i ?s1 = Some (passes_up i l q s)"
    using g r sz i
    by (simp add: socket_reader_step_def cl relay_step_def c_string_line_buffer tw ob)
      (simp add: set_client_def sizes_def passes_up_def relay_step_def c_string_line_buffer tw ob list_update_same_conv)
  then have "system_step pf sg ?s1 (passes_up i l q s)" by (rule system_step.to_pipe [OF i])
  with st1 show ?thesis by (simp add: converse_rtranclp_into_rtranclp)
qed

section \<open>From a command to a broadcast\<close>

lemma quota_printed: "quota (printed t h) = quota h"
  by (simp add: printed_def)

definition awaits :: "platform \<Rightarrow> string \<Rightarrow> pipe \<Rightarrow> echo_server \<Rightarrow> bool" where
  "awaits pf l q v \<longleftrightarrow> crashed v = None \<and> listeners v ! 0 = Idle \<and> global_cube_state_lock v = None \<and>
     broadcaster v = Waiting \<and> (\<forall>j<N_FACES. \<not> broken (to_client v ! j)) \<and>
     pipe_getline (to_server v ! 0) = Some (l, q) \<and> command_of (signed_char pf) l \<noteq> Bad"

lemma command_broadcast:
  assumes inv: "server_inv V' v" and h: "holds V v" and rng: "rng_ok (rand_r pf)" and a: "awaits pf l q v"
    and quota: "930 \<le> quota (server_mem v)"
  shows "\<exists>h W. (internal_step pf)\<^sup>*\<^sup>* v (v\<lparr>to_server := (to_server v)[0 := q], server_mem := h,
      broadcaster := Sending (cube_line W) 0\<rparr>) \<and> obeys (command_of (signed_char pf) l) V W \<and> solvable W \<and>
    cube_in h (global_cube_state v) W \<and> quota (server_mem v) \<le> quota h + 930"
proof -
  have l: "pipe_getline (to_server v ! 0) = Some (l, q)" "command_of (signed_char pf) l \<noteq> Bad"
    using a by (auto simp: awaits_def)
  obtain h W where run: "(internal_step pf)\<^sup>*\<^sup>* v (v\<lparr>to_server := (to_server v)[0 := q], server_mem := h,
      broadcast_message_ready := broadcast_message_ready v + 1\<rparr>)"
    and h: "quota (server_mem v) \<le> quota h + 930"
    and W: "obeys (command_of (signed_char pf) l) V W" "cube_in h (global_cube_state v) W" "solvable W"
    using listener_obeys [OF inv h rng _ _ _ _ l quota] a by (auto simp: awaits_def)
  let ?v1 = "v\<lparr>to_server := (to_server v)[0 := q], server_mem := h,
      broadcast_message_ready := broadcast_message_ready v + 1\<rparr>"
  have "holds W ?v1" using W by (simp add: holds_def)
  from broadcast_starts [OF this, of pf] a obtain t where
    "(internal_step pf)\<^sup>*\<^sup>* ?v1 (?v1\<lparr>broadcast_message_ready := broadcast_message_ready v,
      server_mem := printed t h, broadcaster := Sending (cube_line W) 0\<rparr>)"
    by (auto simp: awaits_def)
  with run have "(internal_step pf)\<^sup>*\<^sup>* v (?v1\<lparr>broadcast_message_ready := broadcast_message_ready v,
      server_mem := printed t h, broadcaster := Sending (cube_line W) 0\<rparr>)" by (rule rtranclp_trans)
  then show ?thesis
    using h W quota_printed by (intro exI [of _ "printed t h"] exI [of _ W]) simp
qed

text \<open>A whole broadcast, and what is then in the clients' pipes.\<close>

lemma command_broadcast_done:
  assumes inv: "server_inv V' v" and h: "holds V v" and rng: "rng_ok (rand_r pf)" and a: "awaits pf l q v"
    and quota: "930 \<le> quota (server_mem v)"
  shows "\<exists>h W qs. (internal_step pf)\<^sup>*\<^sup>* v (v\<lparr>to_server := (to_server v)[0 := q], server_mem := h, to_client := qs\<rparr>) \<and>
    obeys (command_of (signed_char pf) l) V W \<and> solvable W \<and> cube_in h (global_cube_state v) W \<and>
    length qs = N_FACES \<and> (\<forall>j<N_FACES. qs ! j = pipe_write (cube_line W) (to_client v ! j)) \<and>
    quota (server_mem v) \<le> quota h + 930"
proof -
  obtain h W where run: "(internal_step pf)\<^sup>*\<^sup>* v (v\<lparr>to_server := (to_server v)[0 := q], server_mem := h,
      broadcaster := Sending (cube_line W) 0\<rparr>)"
    and W: "obeys (command_of (signed_char pf) l) V W" "solvable W" "cube_in h (global_cube_state v) W"
      "quota (server_mem v) \<le> quota h + 930"
    using command_broadcast [OF assms] by blast
  let ?v1 = "v\<lparr>to_server := (to_server v)[0 := q], server_mem := h, broadcaster := Sending (cube_line W) 0\<rparr>"
  have len: "length (to_client v) = N_FACES" using inv by (simp add: server_inv_def shape_def)
  obtain t qs where fin: "(internal_step pf)\<^sup>*\<^sup>* ?v1 (?v1\<lparr>server_mem := printed t (server_mem ?v1), to_client := qs,
      broadcaster := Waiting\<rparr>)" and qs: "length qs = N_FACES"
      "\<forall>j<N_FACES. qs ! j = pipe_write (cube_line W) (to_client v ! j)"
    using broadcast_finishes [of ?v1 "cube_line W" 0 pf] a len by (auto simp: awaits_def)
  have "?v1\<lparr>server_mem := printed t (server_mem ?v1), to_client := qs, broadcaster := Waiting\<rparr> =
      v\<lparr>to_server := (to_server v)[0 := q], server_mem := printed t h, to_client := qs\<rparr>"
    using a by (cases v) (simp add: awaits_def)
  then have "(internal_step pf)\<^sup>*\<^sup>* v (v\<lparr>to_server := (to_server v)[0 := q], server_mem := printed t h, to_client := qs\<rparr>)"
    using rtranclp_trans [OF run fin] by simp
  then show ?thesis using W qs quota_printed
    by (intro exI [of _ "printed t h"] exI [of _ W] exI [of _ qs]) simp
qed

section \<open>The end of the first client\<close>

text \<open>The first client is ended while its relay has a message in its hands: the relay's process ends on
  writing it, the pipe from the server has lost its only reader, and the server ends on its next write.\<close>

definition ended_by_user :: "system \<Rightarrow> system" where
  "ended_by_user s = set_client 0 ((clients s ! 0)\<lparr>stopped := Some (Signal ''SIGINT'')\<rparr>) s"

lemma lost_client:
  assumes sz: "sizes s" and run: "stopped (clients s ! 0) = None" and g: "\<not> facing_gone s ! 0"
    and r: "pipe_readers s ! 0 = Carrying l" and sr: "socket_readers s ! 0 \<noteq> Finished"
    and cr: "crashed (server s) = None" and b: "broadcaster (server s) = Sending m 0"
    and whole: "\<not> broken (to_client (server s) ! 0)" and len: "length (to_client (server s)) = N_FACES"
  shows "outside_step s (ended_by_user s) \<and> (\<exists>s'. (system_step pf sg)\<^sup>*\<^sup>* (ended_by_user s) s' \<and>
    facing_gone s' = (facing_gone s)[0 := True] \<and> crashed (server s') = Some (Signal ''SIGPIPE'') \<and>
    clients s' = clients (ended_by_user s))"
proof -
  let ?t = "ended_by_user s"
  note set_client_def [simp] ended_by_user_def [simp]
  let ?u = "?t\<lparr>facing_gone := (facing_gone ?t)[0 := True]\<rparr>"
  let ?v = "break_to_client 0 (server s)"
  let ?w = "?u\<lparr>server := ?v\<rparr>"
  let ?x = "?w\<lparr>server := ?v\<lparr>crashed := Some (Signal ''SIGPIPE'')\<rparr>\<rparr>"
  have "outside_step s ?t" unfolding ended_by_user_def by (rule outside_step.killed) (simp_all add: run)
  moreover have "system_step pf sg ?t ?u"
    by (rule system_step.sigpipe [of 0 _ l]) (use sz g r sr in \<open>simp_all add: set_client_def sizes_def\<close>)
  moreover have "system_step pf sg ?u ?w"
  proof -
    have "system_step pf sg ?u (?u\<lparr>server := break_to_client 0 (server ?u)\<rparr>)"
      by (rule system_step.last_reader) (use sz whole in \<open>simp_all add: set_client_def sizes_def no_reader_def\<close>)
    then show ?thesis by (simp add: set_client_def)
  qed
  moreover have "system_step pf sg ?w ?x"
  proof -
    have "broken (to_client ?v ! 0)" using len by (simp add: break_to_client_def)
    then have "internal_step pf ?v (?v\<lparr>crashed := Some (Signal ''SIGPIPE'')\<rparr>)"
      using cr b by (intro internal_step.broadcast) (simp_all add: broadcast_step_def break_to_client_def)
    then show ?thesis using system_step.server [of pf ?w _ sg] by simp
  qed
  ultimately show ?thesis
    by (intro conjI exI [of _ ?x]) (simp_all add: converse_rtranclp_into_rtranclp)
qed

section \<open>The whole run\<close>

lemma command_not_bad:
  assumes "command_key x"
  shows "command_of sg (command_line x) \<noteq> Bad"
proof -
  obtain k f where kf: "x = (k, f)" by (cases x)
  have "command_of sg (command_line x) = key_command k f"
    using command_of_line(1) assms by (simp add: kf command_key_def)
  then show ?thesis using assms by (auto simp: kf command_key_def key_command_def)
qed

lemma system_inv_steps:
  assumes "(system_step pf sg)\<^sup>*\<^sup>* s s'" and "system_inv sg s" and "rng_ok (rand_r pf)"
  shows "system_inv sg s'"
  using assms(1) by (induction rule: rtranclp_induct) (use assms system_inv_step in blast)+

text \<open>Two commands of the first client reach the server.\<close>

definition two_up :: "system \<Rightarrow> (int \<times> nat) \<Rightarrow> (int \<times> nat) \<Rightarrow> system" where
  "two_up s x y = set_client 0 ((clients s ! 0)\<lparr>outbox_taken := 6\<rparr>)
     (s\<lparr>server := (server s)\<lparr>to_server := (to_server (server s))[0 :=
        pipe_write (command_line y) (pipe_write (command_line x) (to_server (server s) ! 0))]\<rparr>\<rparr>)"

lemma two_lines_pass_up:
  assumes sz: "sizes s" and g: "\<not> facing_gone s ! 0" and r: "socket_readers s ! 0 = Reading"
    and ch: "commands.channel (outbox (clients s ! 0)) [x, y] 0" and len: "length (to_server (server s)) = N_FACES"
  shows "(system_step pf sg)\<^sup>*\<^sup>* s (two_up s x y)"
proof -
  have ok: "command_key x" "command_key y" using ch by (simp_all add: carries_def)
  note nul = commands.enc_ends [OF ok(1)] commands.enc_ends [OF ok(2)]
  let ?c1 = "(clients s ! 0)\<lparr>outbox_taken := 3\<rparr>"
  have g1: "pipe_getline (outbox (clients s ! 0)) = Some (command_line x, (outbox (clients s ! 0))\<lparr>taken := 3\<rparr>)"
    using commands.channel_getline(1) [OF ch] by simp
  have ob: "outbox ?c1 = (outbox (clients s ! 0))\<lparr>taken := 3\<rparr>" by (simp add: outbox_def)
  have "commands.channel (outbox ?c1) [x, y] 1" using commands.channel_getline(2) [OF ch] by (simp add: ob)
  then have g2: "pipe_getline (outbox ?c1) = Some (command_line y, (outbox ?c1)\<lparr>taken := 6\<rparr>)"
    using commands.channel_getline(1) [of "outbox ?c1" "[x, y]" 1] by simp
  let ?s1 = "passes_up 0 (command_line x) ((outbox (clients s ! 0))\<lparr>taken := 3\<rparr>) s"
  have c1: "clients ?s1 ! 0 = ?c1" using sz by (simp add: passes_up_def set_client_def sizes_def)
  have "(system_step pf sg)\<^sup>*\<^sup>* s ?s1" by (rule line_passes_up) (use assms g1 nul in simp_all)
  moreover have "(system_step pf sg)\<^sup>*\<^sup>* ?s1 (passes_up 0 (command_line y) ((outbox ?c1)\<lparr>taken := 6\<rparr>) ?s1)"
  proof (rule line_passes_up)
    show "pipe_getline (outbox (clients ?s1 ! 0)) = Some (command_line y, (outbox ?c1)\<lparr>taken := 6\<rparr>)"
      unfolding c1 by (rule g2)
  qed (use assms nul in \<open>simp_all add: passes_up_def set_client_def sizes_def\<close>)
  moreover have "passes_up 0 (command_line y) ((outbox ?c1)\<lparr>taken := 6\<rparr>) ?s1 = two_up s x y"
    unfolding passes_up_def [of 0 "command_line y"] c1
    using sz len by (simp add: passes_up_def two_up_def set_client_def sizes_def)
  ultimately show ?thesis by (metis rtranclp_trans)
qed

definition calm :: "system \<Rightarrow> bool" where
  "calm s \<longleftrightarrow> crashed (server s) = None \<and> listeners (server s) ! 0 = Idle \<and>
     global_cube_state_lock (server s) = None \<and> broadcaster (server s) = Waiting \<and>
     to_server (server s) ! 0 = fresh_pipe \<and> to_client (server s) = replicate N_FACES fresh_pipe \<and>
     pipe_readers s ! 0 = Reading \<and> socket_readers s ! 0 = Reading \<and> \<not> facing_gone s ! 0 \<and>
     stopped (clients s ! 0) = None"

text \<open>A message for the first client is taken from the pipe by its relay.\<close>

lemma message_taken:
  assumes inv: "system_inv sg s" and run: "stopped (clients s ! 0) = None" and g: "\<not> facing_gone s ! 0"
    and r: "pipe_readers s ! 0 = Reading" and q: "to_client (server s) ! 0 = pipe_write (cube_line W) fresh_pipe"
    and W: "solvable W"
  shows "\<exists>s'. system_step pf sg s s' \<and> clients s' = clients s \<and> socket_readers s' = socket_readers s \<and>
    facing_gone s' = facing_gone s \<and> pipe_readers s' ! 0 = Carrying (cube_line W) \<and>
    server s' = (server s)\<lparr>to_client := (to_client (server s))[0 :=
      (pipe_write (cube_line W) fresh_pipe)\<lparr>taken := 55\<rparr>]\<rparr>"
proof -
  have "cubes.channel (pipe_write (cube_line W) fresh_pipe) [W] 0"
    using cubes.channel_write [OF cubes.channel_fresh W] by simp
  then have gl: "pipe_getline (to_client (server s) ! 0) =
      Some (cube_line W, (pipe_write (cube_line W) fresh_pipe)\<lparr>taken := 55\<rparr>)"
    using cubes.channel_getline(1) [of _ "[W]" 0] by (simp add: q)
  have sz: "sizes s" using inv by (simp add: system_inv_def)
  obtain s' where "pipe_reader_step 0 s = Some s'" and
    "clients s' = clients s \<and> socket_readers s' = socket_readers s \<and> facing_gone s' = facing_gone s \<and>
     pipe_readers s' ! 0 = Carrying (cube_line W) \<and>
     server s' = (server s)\<lparr>to_client := (to_client (server s))[0 :=
      (pipe_write (cube_line W) fresh_pipe)\<lparr>taken := 55\<rparr>]\<rparr>"
    using g r gl run sz by (simp add: pipe_reader_step_def relay_step_def set_client_def sizes_def)
  then show ?thesis using system_step.to_socket [of 0 s s'] by auto
qed

lemma lost_client_run:
  assumes inv: "system_inv sg s" and rng: "rng_ok (rand_r pf)" and calm: "calm s"
    and ch: "commands.channel (outbox (clients s ! 0)) [x, y] 0" and quota: "1860 \<le> quota (server_mem (server s))"
    and hold: "holds V0 (server s)"
  shows "\<exists>V W s1 s2 s3. obeys (command_of (signed_char pf) (command_line x)) V0 V \<and>
    obeys (command_of (signed_char pf) (command_line y)) V W \<and>
    (system_step pf sg)\<^sup>*\<^sup>* s s1 \<and> map written (to_client (server s1)) = replicate N_FACES (cube_line V) \<and>
    pipe_readers s1 ! 0 = Carrying (cube_line V) \<and>
    (system_step pf sg)\<^sup>*\<^sup>* s1 s2 \<and> broadcaster (server s2) = Sending (cube_line W) 0 \<and>
    pipe_readers s2 ! 0 = Carrying (cube_line V) \<and> outside_step s2 (ended_by_user s2) \<and>
    (system_step pf sg)\<^sup>*\<^sup>* (ended_by_user s2) s3 \<and> facing_gone s3 = (facing_gone s2)[0 := True] \<and>
    crashed (server s3) = Some (Signal ''SIGPIPE'') \<and> clients s3 = (clients s)[0 := clients s3 ! 0] \<and>
    stopped (clients s3 ! 0) = Some (Signal ''SIGINT'')"
proof -
  have sz: "sizes s" and len: "length (to_server (server s)) = N_FACES"
    using inv server_inv_shape by (auto simp: system_inv_def)
  have ok: "command_key x" "command_key y" using ch by (simp_all add: carries_def)
  let ?q = "pipe_write (command_line y) (pipe_write (command_line x) fresh_pipe)"
  have cq: "commands.channel ?q [x, y] 0"
    using commands.channel_write [OF commands.channel_write [OF commands.channel_fresh ok(1)] ok(2)] by simp
  have g1: "pipe_getline ?q = Some (command_line x, ?q\<lparr>taken := 3\<rparr>)"
    using commands.channel_getline(1) [OF cq] by simp
  have g2: "pipe_getline (?q\<lparr>taken := 3\<rparr>) = Some (command_line y, ?q\<lparr>taken := 6\<rparr>)"
    using commands.channel_getline [OF cq] commands.channel_getline(1) [of "?q\<lparr>taken := 3\<rparr>" "[x, y]" 1] by simp
  let ?a = "two_up s x y"
  have up: "(system_step pf sg)\<^sup>*\<^sup>* s ?a"
    by (rule two_lines_pass_up) (use sz ch len calm in \<open>simp_all add: calm_def\<close>)
  let ?v = "server ?a"
  have v: "?v = (server s)\<lparr>to_server := (to_server (server s))[0 := ?q]\<rparr>"
    using calm by (simp add: two_up_def set_client_def calm_def)
  obtain V where V: "server_inv V ?v" using system_inv_steps [OF up inv rng] by (auto simp: system_inv_def)
  have hv: "holds V0 ?v" using hold by (simp add: v holds_def)
  have "awaits pf (command_line x) (?q\<lparr>taken := 3\<rparr>) ?v"
    using calm g1 command_not_bad [OF ok(1)] len by (simp add: awaits_def v calm_def fresh_pipe_def)
  then obtain h W qs where run: "(internal_step pf)\<^sup>*\<^sup>* ?v (?v\<lparr>to_server := (to_server ?v)[0 := ?q\<lparr>taken := 3\<rparr>],
      server_mem := h, to_client := qs\<rparr>)" and W: "solvable W" and qs: "length qs = N_FACES"
      "\<forall>j<N_FACES. qs ! j = pipe_write (cube_line W) fresh_pipe" and h: "930 \<le> quota h"
      and obW: "obeys (command_of (signed_char pf) (command_line x)) V0 W" "cube_in h (global_cube_state ?v) W"
    using command_broadcast_done [OF V hv rng, of "command_line x" "?q\<lparr>taken := 3\<rparr>"] quota calm
    by (auto simp: v calm_def)
  let ?w = "?v\<lparr>to_server := (to_server ?v)[0 := ?q\<lparr>taken := 3\<rparr>], server_mem := h, to_client := qs\<rparr>"
  let ?b = "?a\<lparr>server := ?w\<rparr>"
  have sb: "(system_step pf sg)\<^sup>*\<^sup>* s ?b" using up server_runs [OF run refl] by (rule rtranclp_trans)
  have cl: "clients ?a ! 0 = (clients s ! 0)\<lparr>outbox_taken := 6\<rparr>" "\<And>i. 0 < i \<Longrightarrow> clients ?a ! i = clients s ! i"
    using sz by (simp_all add: two_up_def set_client_def sizes_def)
  obtain c where st: "system_step pf sg ?b c" and c: "clients c = clients ?a" "socket_readers c = socket_readers ?a"
      "facing_gone c = facing_gone ?a" "pipe_readers c ! 0 = Carrying (cube_line W)"
    and vc: "server c = ?w\<lparr>to_client := qs[0 := (pipe_write (cube_line W) fresh_pipe)\<lparr>taken := 55\<rparr>]\<rparr>"
  proof -
    have "\<exists>s'. system_step pf sg ?b s' \<and> clients s' = clients ?b \<and> socket_readers s' = socket_readers ?b \<and>
      facing_gone s' = facing_gone ?b \<and> pipe_readers s' ! 0 = Carrying (cube_line W) \<and>
      server s' = (server ?b)\<lparr>to_client := (to_client (server ?b))[0 :=
        (pipe_write (cube_line W) fresh_pipe)\<lparr>taken := 55\<rparr>]\<rparr>"
      by (rule message_taken [OF system_inv_steps [OF sb inv rng]])
        (use calm qs W cl in \<open>simp_all add: calm_def, simp_all add: two_up_def set_client_def\<close>)
    with that show thesis by auto
  qed
  have sc: "(system_step pf sg)\<^sup>*\<^sup>* s c" using sb st by (rule rtranclp.rtrancl_into_rtrancl)
  obtain V' where V': "server_inv V' (server c)" using system_inv_steps [OF sc inv rng] by (auto simp: system_inv_def)
  have hc: "holds W (server c)" using W obW(2) by (simp add: vc holds_def)
  have "awaits pf (command_line y) (?q\<lparr>taken := 6\<rparr>) (server c)"
    using calm g2 command_not_bad [OF ok(2)] len qs
    by (auto simp: awaits_def vc v calm_def fresh_pipe_def pipe_write_def nth_list_update)
  then obtain h' W' where run': "(internal_step pf)\<^sup>*\<^sup>* (server c) ((server c)\<lparr>to_server := (to_server (server c))[0 :=
      ?q\<lparr>taken := 6\<rparr>], server_mem := h', broadcaster := Sending (cube_line W') 0\<rparr>)"
      and obW': "obeys (command_of (signed_char pf) (command_line y)) W W'"
    using command_broadcast [OF V' hc rng, of "command_line y" "?q\<lparr>taken := 6\<rparr>"] h by (auto simp: vc)
  let ?d = "c\<lparr>server := (server c)\<lparr>to_server := (to_server (server c))[0 := ?q\<lparr>taken := 6\<rparr>], server_mem := h',
      broadcaster := Sending (cube_line W') 0\<rparr>\<rparr>"
  have cd: "(system_step pf sg)\<^sup>*\<^sup>* c ?d" using server_runs [OF run' refl] .
  have sd: "(system_step pf sg)\<^sup>*\<^sup>* s ?d" using sc cd by (rule rtranclp_trans)
  have fin: "outside_step ?d (ended_by_user ?d) \<and> (\<exists>s'. (system_step pf sg)\<^sup>*\<^sup>* (ended_by_user ?d) s' \<and>
      facing_gone s' = (facing_gone ?d)[0 := True] \<and> crashed (server s') = Some (Signal ''SIGPIPE'') \<and>
      clients s' = clients (ended_by_user ?d))"
    by (rule lost_client [where l = "cube_line W" and m = "cube_line W'"])
      (use calm c cl qs sz system_inv_steps [OF sd inv rng] in
        \<open>simp_all add: calm_def system_inv_def vc fresh_pipe_def pipe_write_def,
         simp_all add: two_up_def set_client_def v\<close>)
  then obtain s' where t: "outside_step ?d (ended_by_user ?d)" "(system_step pf sg)\<^sup>*\<^sup>* (ended_by_user ?d) s'"
      "facing_gone s' = (facing_gone ?d)[0 := True]" "crashed (server s') = Some (Signal ''SIGPIPE'')"
      and cs: "clients s' = (clients ?d)[0 := (clients ?d ! 0)\<lparr>stopped := Some (Signal ''SIGINT'')\<rparr>]"
    by (auto simp: ended_by_user_def set_client_def)
  have n: "length (clients s) = N_FACES" using sz by (simp add: sizes_def)
  obtain k where k: "clients ?a = (clients s)[0 := k]" by (simp add: two_up_def set_client_def)
  have "clients s' = (clients s)[0 := k\<lparr>stopped := Some (Signal ''SIGINT'')\<rparr>]"
    using n by (simp add: cs c(1) k)
  then have cl': "clients s' = (clients s)[0 := clients s' ! 0]" "stopped (clients s' ! 0) = Some (Signal ''SIGINT'')"
    using n by simp_all
  have wr: "map written (to_client (server c)) = replicate N_FACES (cube_line W)"
    using qs by (intro nth_equalityI) (auto simp: vc nth_list_update pipe_write_def fputs_def fresh_pipe_def)
  have "pipe_readers ?d ! 0 = Carrying (cube_line W)" "broadcaster (server ?d) = Sending (cube_line W') 0"
    using c(4) by simp_all
  then show ?thesis using obW(1) obW' sc wr c(4) cd t cl' by blast
qed

end
