(* ===== verification/History.thy ===== *)
theory History
  imports System
begin

text \<open>
  The one cube of the whole system. A run with the keys that were pressed in it has a history: the commands
  the server has carried out, in the order in which the listeners had the lock, the cubes that this
  gives one after the other, and the places in that sequence of the cubes the broadcaster has encoded. The commands of
  each client are the first ones its keys stand for, and every client is sent the cubes at those places.
\<close>

section \<open>Runs with their keys\<close>

inductive system_run :: "platform \<Rightarrow> bool \<Rightarrow> system \<Rightarrow> (nat \<times> int) list \<Rightarrow> system \<Rightarrow> bool" for pf sg s0 where
  run_start: "system_run pf sg s0 [] s0"
| run_step: "system_run pf sg s0 ks s \<Longrightarrow> system_step pf sg s s' \<Longrightarrow> system_run pf sg s0 ks s'"
| run_key: "system_run pf sg s0 ks s \<Longrightarrow> i < N_FACES \<Longrightarrow> stopped (clients s ! i) = None \<Longrightarrow>
     keyer (clients s ! i) = At_Getch \<Longrightarrow>
     system_run pf sg s0 (ks @ [(i, input)]) (set_client i (key_step input (clients s ! i)) s)"
| run_killed: "system_run pf sg s0 ks s \<Longrightarrow> i < N_FACES \<Longrightarrow> stopped (clients s ! i) = None \<Longrightarrow>
     system_run pf sg s0 ks (set_client i ((clients s ! i)\<lparr>stopped := Some (Signal ''SIGINT'')\<rparr>) s)"
| run_ends: "system_run pf sg s0 ks s \<Longrightarrow> i < N_FACES \<Longrightarrow> stopped (clients s ! i) \<noteq> None \<Longrightarrow>
     system_run pf sg s0 ks (set_client i ((clients s ! i)\<lparr>outbox_closed := True\<rparr>) s)"

lemma run_reachable: "system_run pf sg s0 ks s \<Longrightarrow> system_reachable pf sg s0 s"
  by (induction rule: system_run.induct)
    (auto intro: system_reachable.intros system_reachable.outside [OF _ outside_step.key]
      system_reachable.outside [OF _ outside_step.killed] system_reachable.outside [OF _ outside_step.ends])

lemma run_steps: "(system_step pf sg)\<^sup>*\<^sup>* s s' \<Longrightarrow> system_run pf sg s0 ks s \<Longrightarrow> system_run pf sg s0 ks s'"
  by (induction rule: rtranclp_induct) (auto intro: run_step)

text \<open>What the keys of one client stand for: the face on the screen, and the commands.\<close>

fun key_effect :: "nat option \<times> (int \<times> nat) list \<Rightarrow> int \<Rightarrow> nat option \<times> (int \<times> nat) list" where
  "key_effect (f, xs) k =
     (if KEY_0 \<le> k \<and> k \<le> KEY_5 then (Some (nat (k - KEY_0)), xs)
      else if k = KEY_a \<or> k = KEY_d \<or> k = KEY_space then
        (case f of None \<Rightarrow> (f, xs) | Some g \<Rightarrow> (f, xs @ [(k, g)]))
      else (f, xs))"

definition keys_of :: "nat \<Rightarrow> (nat \<times> int) list \<Rightarrow> int list" where
  "keys_of i ks = map snd (filter (\<lambda>k. fst k = i) ks)"

definition commands_of :: "int list \<Rightarrow> (int \<times> nat) list" where
  "commands_of keys = snd (foldl key_effect (None, []) keys)"

lemma keys_of_snoc: "keys_of i (ks @ [(j, k)]) = keys_of i ks @ (if j = i then [k] else [])"
  by (simp add: keys_of_def)

section \<open>The keys of a client\<close>

definition typed :: "int list \<Rightarrow> client_thread_args \<Rightarrow> bool" where
  "typed keys a \<longleftrightarrow> (case foldl key_effect (None, []) keys of (f, xs) \<Rightarrow>
     cube_face_id a = map_option int f \<and> socket_out a = concat (map command_line xs) \<and> (\<forall>x\<in>set xs. command_key x))"

lemma typed_key:
  assumes ok: "client_ok (args c) V" and t: "typed keys (args c)"
  shows "typed (keys @ [k]) (args (key_step k c))"
proof -
  obtain f xs where fx: "foldl key_effect (None, []) keys = (f, xs)" by (cases "foldl key_effect (None, []) keys")
  have a: "cube_face_id (args c) = map_option int f" "socket_out (args c) = concat (map command_line xs)"
    "\<forall>x\<in>set xs. command_key x" using t by (simp_all add: typed_def fx)
  consider (digit) "KEY_0 \<le> k \<and> k \<le> KEY_5" | (command) "k = KEY_a \<or> k = KEY_d \<or> k = KEY_space"
    | (other) "\<not> (k = KEY_a \<or> k = KEY_d \<or> k = KEY_space)" "\<not> (KEY_0 \<le> k \<and> k \<le> KEY_5)" by blast
  then show ?thesis
  proof cases
    case digit
    then show ?thesis
      using a by (simp add: typed_def fx key_step_def run_args_def choose_face_def prog_simps)
  next
    case command
    then have d: "\<not> (KEY_0 \<le> k \<and> k \<le> KEY_5)" by auto
    show ?thesis
    proof (cases f)
      case None
      have "press_key k (args c) = Inl Indeterminate"
        by (rule press_key_indeterminate) (use a None command in simp_all)
      then have "args (key_step k c) = args c" using d by (simp only: key_step_def run_args_def if_False) simp
      moreover have "key_effect (f, xs) k = (f, xs)" using command d None by simp
      ultimately show ?thesis using a by (simp add: typed_def fx)
    next
      case (Some g)
      have g: "g < N_FACES" using ok a(1) Some by (simp add: client_ok_def)
      have "press_key k (args c) = Inr (False, (args c)\<lparr>msg := map Some (command_line (k, g)) @ [Some nul],
          socket_out := fputs (command_line (k, g)) (socket_out (args c))\<rparr>)"
        by (rule press_key_command [OF ok _ command]) (use a Some in simp)
      then have "cube_face_id (args (key_step k c)) = cube_face_id (args c) \<and>
          socket_out (args (key_step k c)) = socket_out (args c) @ command_line (k, g)"
        using d by (simp only: key_step_def run_args_def if_False) (simp add: fputs_def)
      moreover have "key_effect (f, xs) k = (f, xs @ [(k, g)])" using command d Some by auto
      moreover have "command_key (k, g)" using command g by (simp add: command_key_def)
      ultimately show ?thesis using a by (simp add: typed_def fx)
    qed
  next
    case other
    have "key_effect (f, xs) k = (f, xs)" using other by (auto simp del: de_Morgan_conj)
    moreover have "cube_face_id (args (key_step k c)) = cube_face_id (args c) \<and>
        socket_out (args (key_step k c)) = socket_out (args c)"
      using press_key_other [OF other, of "args c"] other(2)
      by (simp only: key_step_def run_args_def if_False) simp
    ultimately show ?thesis using a by (simp add: typed_def fx del: key_effect.simps)
  qed
qed

lemma typed_cong:
  "cube_face_id a' = cube_face_id a \<Longrightarrow> socket_out a' = socket_out a \<Longrightarrow> typed keys a' \<longleftrightarrow> typed keys a"
  by (simp add: typed_def)

text \<open>No other step touches the face or what has been sent.\<close>

lemma client_internal_typed:
  assumes "client_internal sg c c'"
  shows "cube_face_id (args c') = cube_face_id (args c)" and "socket_out (args c') = socket_out (args c)"
proof -
  show "socket_out (args c') = socket_out (args c)"
    using client_internal_outbox [OF assms] by (simp add: outbox_def)
  note defs = run_args_def sem_post_def wait_one_def read_face_def decode_one_def draw_one_def
    with_client_def on_client_def prog_simps
  show "cube_face_id (args c') = cube_face_id (args c)"
    using assms
  proof (rule client_internalE)
    assume "post_step c = Some c'"
    then show ?thesis by (auto simp: post_step_def defs split: if_splits)
  next
    assume "receiver_step sg c = Some c'"
    then show ?thesis
      by (auto simp: receiver_step_def defs split: receiver.splits option.splits if_splits sum.splits)
  next
    assume "viewer_step c = Some c'"
    then show ?thesis
      by (auto simp: viewer_step_def defs split: viewer.splits if_splits sum.splits)
  qed
qed

lemma system_step_typed:
  assumes sz: "sizes s" and step: "system_step pf sg s s'" and j: "j < N_FACES"
  shows "cube_face_id (args (clients s' ! j)) = cube_face_id (args (clients s ! j)) \<and>
    socket_out (args (clients s' ! j)) = socket_out (args (clients s ! j))"
  using step
proof (rule system_stepE)
  fix i c assume "s' = set_client i c s" "i < N_FACES" "client_internal sg (clients s ! i) c"
  then show ?thesis using sz client_internal_typed [of sg "clients s ! i" c]
    by (auto simp: set_client_def sizes_def nth_list_update)
next
  fix i assume "i < N_FACES" "pipe_reader_step i s = Some s'"
  then show ?thesis using sz
    by (auto simp: pipe_reader_step_def set_client_def sizes_def nth_list_update split: if_splits option.splits)
next
  fix i assume "i < N_FACES" "socket_reader_step i s = Some s'"
  then show ?thesis using sz
    by (auto simp: socket_reader_step_def set_client_def sizes_def nth_list_update split: if_splits option.splits)
qed simp_all

lemma system_run_typed:
  assumes rng: "rng_ok (rand_r pf)" and s0: "system_inv sg s0" "\<forall>i<N_FACES. typed [] (args (clients s0 ! i))"
    and run: "system_run pf sg s0 ks s"
  shows "\<forall>i<N_FACES. typed (keys_of i ks) (args (clients s ! i))"
  using run
proof induction
  case run_start
  then show ?case using s0(2) by (simp add: keys_of_def)
next
  case (run_step ks s s')
  have "sizes s" using system_inv_reachable [OF rng s0(1) run_reachable [OF run_step.hyps(1)]] by (simp add: system_inv_def)
  then show ?case using system_step_typed [OF _ run_step.hyps(2)] run_step.IH typed_cong by metis
next
  case (run_key ks s i input)
  have inv: "system_inv sg s" by (rule system_inv_reachable [OF rng s0(1) run_reachable [OF run_key.hyps(1)]])
  then have sz: "length (clients s) = N_FACES" by (simp add: system_inv_def sizes_def)
  obtain V where "client_ok (args (clients s ! i)) V"
    using inv run_key.hyps(2) by (auto simp: system_inv_def link_inv_def down_link_def client_inv_def)
  from typed_key [OF this] run_key show ?case
    by (auto simp: keys_of_snoc set_client_def nth_list_update sz)
next
  case (run_killed ks s i)
  have "sizes s" using system_inv_reachable [OF rng s0(1) run_reachable [OF run_killed.hyps(1)]] by (simp add: system_inv_def)
  then show ?case using run_killed by (auto simp: set_client_def sizes_def nth_list_update)
next
  case (run_ends ks s i)
  have "sizes s" using system_inv_reachable [OF rng s0(1) run_reachable [OF run_ends.hyps(1)]] by (simp add: system_inv_def)
  then show ?case using run_ends by (auto simp: set_client_def sizes_def nth_list_update)
qed

section \<open>The history of the server\<close>

text \<open>\<open>ops\<close>: the commands carried out, with the client each comes from; \<open>Vs\<close>: the cubes before and after each;
  \<open>bs\<close>: the places in \<open>Vs\<close> of the cubes that have been encoded, one broadcast after the other.\<close>

definition obeyed :: "(nat \<times> int \<times> nat) list \<Rightarrow> face_val list list \<Rightarrow> bool" where
  "obeyed ops Vs \<longleftrightarrow> length Vs = Suc (length ops) \<and> Vs ! 0 = solved_val \<and> (\<forall>V\<in>set Vs. solvable V) \<and>
     (\<forall>n<length ops. case ops ! n of (i, input, f) \<Rightarrow>
        i < N_FACES \<and> command_key (input, f) \<and> obeys (key_command input f) (Vs ! n) (Vs ! Suc n))"

definition commands_by :: "nat \<Rightarrow> (nat \<times> int \<times> nat) list \<Rightarrow> (int \<times> nat) list" where
  "commands_by i ops = map snd (filter (\<lambda>o'. fst o' = i) ops)"

definition in_hand :: "listener \<Rightarrow> string" where
  "in_hand pc = (case pc of Got l \<Rightarrow> l | Locked l \<Rightarrow> l | _ \<Rightarrow> [])"

definition carried_out :: "(nat \<times> int \<times> nat) list \<Rightarrow> echo_server \<Rightarrow> bool" where
  "carried_out ops v \<longleftrightarrow> (\<forall>i<N_FACES. taken (to_server v ! i) \<le> length (written (to_server v ! i)) \<and>
     take (taken (to_server v ! i)) (written (to_server v ! i)) =
       concat (map command_line (commands_by i ops)) @ in_hand (listeners v ! i))"

definition cubes_at :: "face_val list list \<Rightarrow> nat list \<Rightarrow> string" where
  "cubes_at Vs bs = concat (map (\<lambda>b. cube_line (Vs ! b)) bs)"

definition still_due :: "nat \<Rightarrow> broadcaster \<Rightarrow> bool" where
  "still_due i b = (case b of Sending m k \<Rightarrow> k \<le> i | _ \<Rightarrow> False)"

definition cast_of :: "face_val list list \<Rightarrow> nat list \<Rightarrow> echo_server \<Rightarrow> bool" where
  "cast_of Vs bs v \<longleftrightarrow> sorted bs \<and> (\<forall>b\<in>set bs. b < length Vs) \<and>
     (\<forall>m. broadcaster v = Encoded m \<longrightarrow> m = cube_line (last Vs)) \<and>
     (\<forall>m k. broadcaster v = Sending m k \<longrightarrow> bs \<noteq> [] \<and> m = cube_line (Vs ! last bs)) \<and>
     (\<forall>i<N_FACES. written (to_client v ! i) = cubes_at Vs (if still_due i (broadcaster v) then butlast bs else bs))"

definition history :: "(nat \<times> int \<times> nat) list \<Rightarrow> face_val list list \<Rightarrow> nat list \<Rightarrow> echo_server \<Rightarrow> bool" where
  "history ops Vs bs v \<longleftrightarrow> obeyed ops Vs \<and> holds (last Vs) v \<and> carried_out ops v \<and> cast_of Vs bs v"

lemma commands_by_snoc: "commands_by i (ops @ [(j, x)]) = commands_by i ops @ (if j = i then [x] else [])"
  by (simp add: commands_by_def)

lemma in_hand_simps [simp]:
  "in_hand Idle = []" "in_hand (Got l) = l" "in_hand (Locked l) = l" "in_hand Applied = []" "in_hand Posting = []"
  "in_hand Ended = []"
  by (simp_all add: in_hand_def)

lemma still_due_simps [simp]:
  "\<not> still_due i Waiting" "\<not> still_due i Woken" "\<not> still_due i Holding" "\<not> still_due i (Encoded m)"
  "still_due i (Sending m k) \<longleftrightarrow> k \<le> i"
  by (simp_all add: still_due_def)

lemma cubes_at_snoc: "cubes_at Vs (bs @ [b]) = cubes_at Vs bs @ cube_line (Vs ! b)"
  by (simp add: cubes_at_def)

lemma cubes_at_more: "\<forall>b\<in>set bs. b < length Vs \<Longrightarrow> cubes_at (Vs @ Ws) bs = cubes_at Vs bs"
  by (auto simp: cubes_at_def nth_append intro!: arg_cong [of _ _ concat])

lemma obeyed_ne: "obeyed ops Vs \<Longrightarrow> Vs \<noteq> [] \<and> solvable (last Vs)"
  by (cases Vs) (auto simp: obeyed_def)

lemma obeyed_more:
  assumes h: "obeyed ops Vs" and i: "i < N_FACES" and x: "command_key (input, f)"
    and ob: "obeys (key_command input f) (last Vs) W" and W: "solvable W"
  shows "obeyed (ops @ [(i, input, f)]) (Vs @ [W])"
proof -
  have len: "length Vs = Suc (length ops)" using h by (simp add: obeyed_def)
  then have "last Vs = Vs ! length ops" using obeyed_ne [OF h] by (simp add: last_conv_nth)
  then show ?thesis
    using assms len by (auto simp: obeyed_def nth_append less_Suc_eq)
qed

lemma history_cong:
  assumes "history ops Vs bs v" and "server_mem v' = server_mem v" and "global_cube_state v' = global_cube_state v"
    and "listeners v' = listeners v" and "broadcaster v' = broadcaster v"
    and "\<And>i. i < N_FACES \<Longrightarrow> written (to_client v' ! i) = written (to_client v ! i)"
    and "\<And>i. i < N_FACES \<Longrightarrow> taken (to_server v' ! i) = taken (to_server v ! i)"
    and "\<And>i. i < N_FACES \<Longrightarrow> prefix (written (to_server v ! i)) (written (to_server v' ! i))"
  shows "history ops Vs bs v'"
proof -
  have "taken (to_server v' ! i) \<le> length (written (to_server v' ! i)) \<and>
      take (taken (to_server v' ! i)) (written (to_server v' ! i)) =
        concat (map command_line (commands_by i ops)) @ in_hand (listeners v' ! i)" if i: "i < N_FACES" for i
  proof -
    have t: "taken (to_server v ! i) \<le> length (written (to_server v ! i))"
      "take (taken (to_server v ! i)) (written (to_server v ! i)) =
        concat (map command_line (commands_by i ops)) @ in_hand (listeners v ! i)"
      using assms(1) i by (simp_all add: history_def carried_out_def)
    obtain z where "written (to_server v' ! i) = written (to_server v ! i) @ z" using assms(8) [OF i] by (rule prefixE)
    then show ?thesis using t assms(4) assms(7) [OF i] by simp
  qed
  then show ?thesis using assms(1-6) by (simp add: history_def holds_def carried_out_def cast_of_def)
qed

text \<open>A line is taken: it goes from the part that is not read to the hands of the listener.\<close>

lemma getline_taken:
  assumes "pipe_getline q = Some (l, q')" and "taken q \<le> length (written q)"
  shows "taken q' \<le> length (written q') \<and> take (taken q') (written q') = take (taken q) (written q) @ l"
proof -
  obtain r where q': "q' = q\<lparr>taken := taken q + length l\<rparr>" and u: "unread q = l @ r"
    by (rule pipe_getlineE [OF assms(1)])
  have "written q = take (taken q) (written q) @ l @ r" using u by (metis append_take_drop_id unread_def)
  then obtain t where t: "written q = t @ l @ r" "length t = taken q" using assms(2) by fastforce
  then show ?thesis by (simp add: q')
qed

lemma history_listener:
  assumes h: "history ops Vs bs v" and inv: "server_inv V v" and rng: "rng_ok (rand_r pf)" and i: "i < N_FACES"
    and pc: "commanding (listeners v ! i)" and step: "listener_step pf now i v = Some v'"
  shows "\<exists>ops' Vs'. history ops' Vs' bs v'"
proof -
  have sh: "shape v" and lk: "lock_ok v" and ln: "lines_ok v" using inv by (simp_all add: server_inv_def)
  have ob: "obeyed ops Vs" and hd: "holds (last Vs) v" and co: "carried_out ops v" and ca: "cast_of Vs bs v"
    using h by (simp_all add: history_def)
  have len: "length (listeners v) = N_FACES" "length (to_server v) = N_FACES" using sh by (simp_all add: shape_def)
  note fr = listener_frame [OF step]
  have other: "to_server v' ! j = to_server v ! j \<and> listeners v' ! j = listeners v ! j" if "j \<noteq> i" for j
    using listener_step_pipes(1) [OF sh i step that] .
  have ti: "taken (to_server v ! i) \<le> length (written (to_server v ! i))"
    "take (taken (to_server v ! i)) (written (to_server v ! i)) =
      concat (map command_line (commands_by i ops)) @ in_hand (listeners v ! i)"
    using co i by (simp_all add: carried_out_def)
  show ?thesis
  proof (cases "\<exists>l. listeners v ! i = Locked l")
    case False
    then have "holds (last Vs) v'" using holds_listener [OF step _ hd] by blast
    moreover have "cast_of Vs bs v'" using ca fr(1,2) by (simp add: cast_of_def)
    moreover have "taken (to_server v' ! i) \<le> length (written (to_server v' ! i)) \<and>
        take (taken (to_server v' ! i)) (written (to_server v' ! i)) =
          concat (map command_line (commands_by i ops)) @ in_hand (listeners v' ! i)"
    proof (cases "listeners v ! i")
      case Idle
      show ?thesis
      proof (cases "pipe_getline (to_server v ! i)")
        case None
        then have "to_server v' ! i = to_server v ! i" "listeners v' ! i = Ended"
          using step Idle i len by (auto simp: listener_step_def listener_defs split: if_splits)
        then show ?thesis using ti Idle by simp
      next
        case (Some lq)
        obtain l q where lq: "lq = (l, q)" by (cases lq)
        have "to_server v' ! i = q" "listeners v' ! i = Got l"
          using step Idle Some i len by (auto simp: listener_step_def listener_defs lq)
        then show ?thesis using getline_taken [OF Some [unfolded lq] ti(1)] ti(2) Idle by simp
      qed
    qed (use step ti i len False in \<open>auto simp: listener_step_def listener_defs split: if_splits\<close>)
    then have "carried_out ops v'" using co other by (auto simp: carried_out_def) (metis)+
    ultimately show ?thesis using ob unfolding history_def by blast
  next
    case True
    then obtain l where l: "listeners v ! i = Locked l" by blast
    show ?thesis
    proof (cases "decode_user_input pf now (line_buffer l []) (global_cube_state v) (server_mem v)")
      case (Inl e)
      then have "v' = v\<lparr>crashed := Some e\<rparr>" using step l by (simp add: listener_step_def listener_apply_def)
      then have "history ops Vs bs v'" by (intro history_cong [OF h]) simp_all
      then show ?thesis by blast
    next
      case (Inr r)
      obtain u h' where r: "r = (u, h')" by (cases r)
      have v': "v' = set_listener i Applied (v\<lparr>server_mem := h'\<rparr>)"
        using step l Inr by (simp add: listener_step_def listener_apply_def r)
      obtain x where "command_key x" "l = command_line x" using pc l by (auto simp: commanding_def)
      then obtain input f where x: "command_key (input, f)" "l = command_line (input, f)" by (cases x) auto
      have cmd: "command_of (signed_char pf) l = key_command input f"
        unfolding x(2) by (rule command_of_line(1)) (use x(1) in \<open>simp_all add: command_key_def\<close>)
      have "l \<noteq> []" using ln l i by (simp add: lines_ok_def)
      moreover have "cube_in (server_mem v) (global_cube_state v) (last Vs)" and sv: "solvable (last Vs)"
        using hd by (simp_all add: holds_def)
      ultimately obtain W where W: "obeys (key_command input f) (last Vs) W" "cube_in h' (global_cube_state v) W"
        using decode_user_input_returns [OF rng _ _ Inr [unfolded r]] cmd by metis
      have "solvable W"
        by (rule obeys_solvable [OF W(1) sv]) (use x(1) in \<open>auto simp: key_command_def command_key_def split: if_splits\<close>)
      then have ob': "obeyed (ops @ [(i, input, f)]) (Vs @ [W])" using obeyed_more [OF ob i x(1) W(1)] by simp
      have "holds (last (Vs @ [W])) v'" using W(2) \<open>solvable W\<close> by (simp add: v' holds_def set_listener_def)
      moreover have "carried_out (ops @ [(i, input, f)]) v'"
        using co ti l i len by (auto simp: carried_out_def v' set_listener_def nth_list_update commands_by_snoc x(2))
      moreover have "cast_of (Vs @ [W]) bs v'"
      proof -
        have "global_cube_state_lock v = Some (Listener i)" using lk i l by (auto simp: lock_ok_def)
        then have "\<not> casting (broadcaster v)" using lk by (simp add: lock_ok_def)
        moreover have "\<forall>b\<in>set bs. b < length Vs" using ca by (simp add: cast_of_def)
        moreover have "\<forall>b\<in>set (butlast bs). b < length Vs" using \<open>\<forall>b\<in>set bs. b < length Vs\<close> by (auto dest: in_set_butlastD)
        ultimately show ?thesis
          using ca by (auto simp: cast_of_def v' set_listener_def cubes_at_more nth_append)
      qed
      ultimately show ?thesis using ob' unfolding history_def by blast
    qed
  qed
qed

lemma history_broadcast:
  assumes h: "history ops Vs bs v" and sh: "shape v" and step: "broadcast_step v = Some v'"
    and k: "\<And>m k. broadcaster v = Sending m k \<Longrightarrow> k \<le> N_FACES"
  shows "\<exists>bs'. history ops Vs bs' v'"
proof -
  have ob: "obeyed ops Vs" and hd: "holds (last Vs) v" and co: "carried_out ops v" and ca: "cast_of Vs bs v"
    using h by (simp_all add: history_def)
  have len: "length (to_client v) = N_FACES" using sh by (simp add: shape_def)
  show ?thesis
  proof (cases "broadcaster v")
    case Waiting
    then have "v' = v\<lparr>broadcast_message_ready := broadcast_message_ready v - 1, broadcaster := Woken\<rparr>"
      using step by (auto simp: broadcast_step_def split: if_splits)
    then have "history ops Vs bs v'"
      using h Waiting by (auto simp: history_def holds_def carried_out_def cast_of_def)
    then show ?thesis by blast
  next
    case Woken
    then have "v' = v\<lparr>global_cube_state_lock := Some Broadcaster, broadcaster := Holding\<rparr>"
      using step by (auto simp: broadcast_step_def split: if_splits)
    then have "history ops Vs bs v'"
      using h Woken by (auto simp: history_def holds_def carried_out_def cast_of_def)
    then show ?thesis by blast
  next
    case Holding
    obtain t where "v' = v\<lparr>server_mem := printed t (server_mem v), broadcaster := Encoded (cube_line (last Vs))\<rparr>"
      using step broadcast_encode_eq [OF hd] Holding by (auto simp: broadcast_step_def)
    then have "history ops Vs bs v'"
      using h Holding by (auto simp: history_def holds_def carried_out_def cast_of_def)
    then show ?thesis by blast
  next
    case (Encoded m)
    then have v': "v' = server_print ''Broadcasting message.''
        (v\<lparr>global_cube_state_lock := None, broadcaster := Sending m 0\<rparr>)"
      using step by (simp add: broadcast_step_def)
    have m: "m = cube_line (last Vs)" using ca Encoded by (simp add: cast_of_def)
    let ?b = "length Vs - 1"
    have ne: "Vs \<noteq> []" using obeyed_ne [OF ob] by blast
    then have "\<forall>b\<in>set bs. b \<le> ?b" using ca by (auto simp: cast_of_def)
    then have "cast_of Vs (bs @ [?b]) v'"
      using ca ne Encoded m by (auto simp: cast_of_def v' server_print_def sorted_append last_conv_nth)
    then have "history ops Vs (bs @ [?b]) v'"
      using h by (simp add: history_def holds_def carried_out_def v' server_print_def)
    then show ?thesis by blast
  next
    case (Sending m k)
    have m: "bs \<noteq> []" "m = cube_line (Vs ! last bs)" using ca Sending by (simp_all add: cast_of_def)
    have bs: "cubes_at Vs bs = cubes_at Vs (butlast bs) @ m"
      using cubes_at_snoc [of Vs "butlast bs" "last bs"] m by simp
    have "history ops Vs bs v'"
    proof (cases "k < N_FACES")
      case True
      show ?thesis
      proof (cases "broken (to_client v ! k)")
        case broken: True
        then have "v' = v\<lparr>crashed := Some (Signal ''SIGPIPE'')\<rparr>" using step Sending True by (simp add: broadcast_step_def)
        then show ?thesis by (intro history_cong [OF h]) simp_all
      next
        case False
        then have v': "v' = server_print (broadcast_note k (out_fds v ! k))
            (v\<lparr>to_client := (to_client v)[k := pipe_write m (to_client v ! k)], broadcaster := Sending m (k + 1)\<rparr>)"
          using step Sending True by (simp add: broadcast_step_def)
        have "written (to_client v' ! i) = cubes_at Vs (if k + 1 \<le> i then butlast bs else bs)" if "i < N_FACES" for i
          using ca Sending that True len bs
          by (auto simp: cast_of_def v' server_print_def nth_list_update pipe_write_def fputs_def)
        then show ?thesis
          using h Sending by (auto simp: history_def holds_def carried_out_def cast_of_def v' server_print_def)
      qed
    next
      case False
      then have k: "k = N_FACES" using k [OF Sending] by simp
      have "v' = v\<lparr>broadcaster := Waiting\<rparr>" using step Sending False by (simp add: broadcast_step_def)
      then show ?thesis
        using h Sending k by (auto simp: history_def holds_def carried_out_def cast_of_def)
    qed
    then show ?thesis by blast
  qed
qed

lemma history_start:
  assumes "cube_in h p solved_val"
  shows "history [] [solved_val] [] (server_start fds h p)"
  using assms
  by (simp add: history_def obeyed_def holds_def carried_out_def cast_of_def server_start_def fresh_pipe_def
    commands_by_def cubes_at_def)

section \<open>The history of the system\<close>

lemma history_server:
  assumes h: "history ops Vs bs v" and inv: "server_inv V v" and rng: "rng_ok (rand_r pf)"
    and pc: "\<forall>i<N_FACES. commanding (listeners v ! i)" and step: "internal_step pf v v'"
  shows "\<exists>ops Vs bs. history ops Vs bs v'"
  using step
proof (rule internal_stepE)
  fix i now assume "i < N_FACES" "listener_step pf now i v = Some v'"
  then show ?thesis using history_listener [OF h inv rng] pc by blast
next
  assume "broadcast_step v = Some v'"
  then show ?thesis using history_broadcast [OF h] inv by (auto simp: server_inv_def casts_def)
qed

lemma relay_step_writes: "relay_step r src dst = Some (r', src', dst') \<Longrightarrow> prefix (written dst) (written dst')"
  by (auto simp: relay_step_def pipe_write_def fputs_def split: relay.splits option.splits sum.splits if_splits)

lemma relay_step_takes: "relay_step r src dst = Some (r', src', dst') \<Longrightarrow> taken dst' = taken dst"
  by (auto simp: relay_step_def pipe_write_def split: relay.splits option.splits sum.splits if_splits)

lemma history_step:
  assumes h: "history ops Vs bs (server s)" and inv: "system_inv sg s" and rng: "rng_ok (rand_r pf)"
    and step: "system_step pf sg s s'"
  shows "\<exists>ops Vs bs. history ops Vs bs (server s')"
proof -
  obtain V where V: "server_inv V (server s)" using inv by (auto simp: system_inv_def)
  note len = server_inv_shape [OF V]
  show ?thesis
    using step
  proof (rule system_stepE)
    fix v assume s': "s' = s\<lparr>server := v\<rparr>" and st: "internal_step pf (server s) v"
    have "\<forall>i<N_FACES. commanding (listeners (server s) ! i)"
      using inv by (simp add: system_inv_def link_inv_def up_link_def)
    with history_server [OF h V rng _ st] show ?thesis by (simp add: s')
  next
    fix i c assume "s' = set_client i c s"
    then show ?thesis using h by (auto simp: set_client_def)
  next
    fix i assume i: "i < N_FACES" and "pipe_reader_step i s = Some s'"
    then obtain r src dst where
      st: "relay_step (pipe_readers s ! i) (to_client (server s) ! i) (inbox (clients s ! i)) = Some (r, src, dst)"
      and sv: "server s' = (server s)\<lparr>to_client := (to_client (server s))[i := src]\<rparr>"
      by (auto simp: pipe_reader_step_def set_client_def split: option.splits if_splits)
    have "history ops Vs bs (server s')"
      unfolding sv by (rule history_cong [OF h])
        (use relay_step_source(1) [OF st] i len in \<open>simp_all add: nth_list_update\<close>)
    then show ?thesis by blast
  next
    fix i assume i: "i < N_FACES" and "socket_reader_step i s = Some s'"
    then obtain r src dst where
      st: "relay_step (socket_readers s ! i) (outbox (clients s ! i)) (to_server (server s) ! i) = Some (r, src, dst)"
      and sv: "server s' = (server s)\<lparr>to_server := (to_server (server s))[i := dst]\<rparr>"
      by (auto simp: socket_reader_step_def set_client_def split: option.splits if_splits)
    have "history ops Vs bs (server s')"
      unfolding sv by (rule history_cong [OF h])
        (use relay_step_writes [OF st] relay_step_takes [OF st] i len in \<open>auto simp: nth_list_update\<close>)
    then show ?thesis by blast
  next
    fix i assume s': "s' = s\<lparr>server := close_to_server i (server s)\<rparr>" and i: "i < N_FACES"
    have "history ops Vs bs (server s')"
      unfolding s' by (rule history_cong [OF h]) (use i len in \<open>simp_all add: close_to_server_def nth_list_update\<close>)
    then show ?thesis by blast
  next
    fix i assume s': "s' = s\<lparr>server := break_to_client i (server s)\<rparr>" and i: "i < N_FACES"
    have "history ops Vs bs (server s')"
      unfolding s' by (rule history_cong [OF h]) (use i len in \<open>simp_all add: break_to_client_def nth_list_update\<close>)
    then show ?thesis by blast
  next
    fix i assume "s' = s\<lparr>facing_gone := (facing_gone s)[i := True]\<rparr>"
    then show ?thesis using h by auto
  qed
qed

lemma system_run_history:
  assumes rng: "rng_ok (rand_r pf)" and s0: "system_inv sg s0" "history ops0 Vs0 bs0 (server s0)"
    and run: "system_run pf sg s0 ks s"
  shows "\<exists>ops Vs bs. history ops Vs bs (server s)"
  using run
proof induction
  case run_start
  then show ?case using s0(2) by blast
next
  case (run_step ks s s')
  then show ?case using history_step [OF _ system_inv_reachable [OF rng s0(1) run_reachable] rng] by blast
qed (simp_all add: set_client_def)

section \<open>Whole messages\<close>

text \<open>Where all messages are equally long and no two are the same, what has been written first are the first messages.\<close>

lemma first_messages:
  assumes "\<forall>x\<in>A. length (enc x) = n" and "0 < n" and "inj_on enc A"
    and "set xs \<subseteq> A" and "set ys \<subseteq> A" and "prefix (concat (map enc ys)) (concat (map enc xs))"
  shows "prefix ys xs"
  using assms(4-6)
proof (induction ys arbitrary: xs)
  case (Cons y ys)
  show ?case
  proof (cases xs)
    case Nil
    then have "enc y = []" using Cons.prems by simp
    moreover have "length (enc y) = n" using Cons.prems(2) assms(1) by simp
    ultimately show ?thesis using assms(2) by simp
  next
    case xs: (Cons x xs')
    have xy: "x \<in> A" "y \<in> A" using Cons.prems xs by auto
    then have "length (enc x) = length (enc y)" using assms(1) by simp
    moreover have "prefix (enc y @ concat (map enc ys)) (enc x @ concat (map enc xs'))" using Cons.prems xs by simp
    ultimately have e: "enc y = enc x" "prefix (concat (map enc ys)) (concat (map enc xs'))"
      by (auto simp: prefix_def append_eq_append_conv)
    have "y = x" using inj_onD [OF assms(3) e(1)] xy by blast
    moreover have "prefix ys xs'" using Cons.IH [of xs'] Cons.prems xs e(2) by simp
    ultimately show ?thesis by (simp add: xs)
  qed
qed simp

lemma command_lines_differ: "inj_on command_line (Collect command_key)"
proof (rule inj_onI)
  fix x y assume xy: "x \<in> Collect command_key" "y \<in> Collect command_key" and e: "command_line x = command_line y"
  have "face_digit (int (snd x)) = face_digit (int (snd y))"
    using e xy face_digit_iff [of "int (snd x)"] face_digit_iff [of "int (snd y)"]
    by (auto simp: command_line_def command_key_def)
  then have "snd x = snd y" using xy by (auto simp: face_digit_def command_key_def split: if_splits)
  moreover have "fst x = fst y" using e xy by (auto simp: command_line_def command_key_def key_char_def)
  ultimately show "x = y" by (rule prod_eqI [rotated])
qed

lemma command_prefix:
  "\<forall>x\<in>set xs. command_key x \<Longrightarrow> \<forall>y\<in>set ys. command_key y \<Longrightarrow>
   prefix (concat (map command_line ys)) (concat (map command_line xs)) \<Longrightarrow> prefix ys xs"
  by (rule first_messages [OF _ _ command_lines_differ, of 3])
    (auto simp: commands.enc_size)

lemma cube_prefix:
  "\<forall>x\<in>set xs. solvable x \<Longrightarrow> \<forall>y\<in>set ys. solvable y \<Longrightarrow>
   prefix (concat (map cube_line ys)) (concat (map cube_line xs)) \<Longrightarrow> prefix ys xs"
  by (rule first_messages [of "Collect solvable" cube_line 55])
    (auto simp: cubes.enc_size intro!: inj_onI cube_lines_injective [of "[_]" "[_]", simplified])

section \<open>One cube\<close>

lemma client_receives:
  assumes inv: "system_inv sg s" and i: "i < N_FACES"
  shows "\<exists>Us Ws j. prefix Ws Us \<and> (\<forall>U\<in>set Us. solvable U) \<and> j \<le> length Ws \<and>
    written (to_client (server s) ! i) = concat (map cube_line Us) \<and>
    written (inbox (clients s ! i)) = concat (map cube_line Ws) \<and>
    client_ok (args (clients s ! i)) (displayed sg Ws j (clients s ! i))"
proof -
  have "link_inv sg s i" using inv i by (simp add: system_inv_def)
  then obtain Us k Ws j where d: "cubes.channel (to_client (server s) ! i) Us k"
    and p: "fed (clients s ! i) (pipe_readers s ! i) Us k Ws" and c: "client_inv sg Ws j (clients s ! i)"
    by (auto simp: link_inv_def down_link_def)
  have "cubes.channel (inbox (clients s ! i)) Ws j" using c by (simp add: client_inv_def)
  with d fed_prefix [OF p] c show ?thesis
    by (intro exI [of _ Us] exI [of _ Ws] exI [of _ j]) (auto simp: carries_def client_inv_def)
qed

lemma history_received:
  assumes h: "history ops Vs bs (server s)" and inv: "system_inv sg s" and i: "i < N_FACES"
  shows "\<exists>ms ns. prefix ns ms \<and> prefix ms bs \<and> length bs \<le> Suc (length ms) \<and>
    written (to_client (server s) ! i) = cubes_at Vs ms \<and> written (inbox (clients s ! i)) = cubes_at Vs ns \<and>
    ((\<forall>l k. receiver (clients s ! i) \<noteq> Decoding l k) \<longrightarrow> (\<exists>n. (n = 0 \<or> n \<in> set ns) \<and>
      cube_in (client_mem (args (clients s ! i))) (cube_state_to_display (args (clients s ! i))) (Vs ! n)))"
proof -
  let ?bs = "if still_due i (broadcaster (server s)) then butlast bs else bs"
  have ca: "cast_of Vs bs (server s)" and ob: "obeyed ops Vs" using h by (simp_all add: history_def)
  obtain Us Ws j where r: "prefix Ws Us" "\<forall>U\<in>set Us. solvable U" "j \<le> length Ws"
    "written (to_client (server s) ! i) = concat (map cube_line Us)"
    "written (inbox (clients s ! i)) = concat (map cube_line Ws)"
    "client_ok (args (clients s ! i)) (displayed sg Ws j (clients s ! i))"
    using client_receives [OF inv i] by blast
  have bs: "\<forall>b\<in>set ?bs. b < length Vs" using ca by (auto simp: cast_of_def dest: in_set_butlastD)
  then have "\<forall>U\<in>set (map ((!) Vs) ?bs). solvable U" using ob by (auto simp: obeyed_def)
  moreover have "concat (map cube_line Us) = concat (map cube_line (map ((!) Vs) ?bs))"
    using ca i r(4) by (auto simp: cast_of_def cubes_at_def o_def)
  ultimately have "Us = map ((!) Vs) ?bs" using cube_lines_injective r(2) by blast
  then obtain ns where ns: "prefix ns ?bs" "Ws = map ((!) Vs) ns" using r(1) by (auto simp: prefix_def map_eq_append_conv)
  note ns(1)
  moreover have "prefix ?bs bs \<and> length bs \<le> Suc (length ?bs)" by (cases bs) (simp_all add: prefixeq_butlast)
  moreover have "written (to_client (server s) ! i) = cubes_at Vs ?bs" using ca i by (simp add: cast_of_def)
  moreover have "written (inbox (clients s ! i)) = cubes_at Vs ns" using r(5) ns(2) by (simp add: cubes_at_def o_def)
  moreover have "\<exists>n. (n = 0 \<or> n \<in> set ns) \<and>
      cube_in (client_mem (args (clients s ! i))) (cube_state_to_display (args (clients s ! i))) (Vs ! n)"
    if "\<forall>l k. receiver (clients s ! i) \<noteq> Decoding l k"
  proof -
    have "displayed sg Ws j (clients s ! i) = latest Ws j"
      using that by (auto simp: displayed_def split: receiver.split)
    then have "cube_in (client_mem (args (clients s ! i))) (cube_state_to_display (args (clients s ! i))) (latest Ws j)"
      using r(6) by (simp add: client_ok_def)
    moreover have "latest Ws j = (if j = 0 then Vs ! 0 else Vs ! (ns ! (j - 1)))"
      using ob r(3) ns(2) by (simp add: latest_def obeyed_def)
    moreover have "j \<noteq> 0 \<Longrightarrow> ns ! (j - 1) \<in> set ns" using r(3) ns(2) by (intro nth_mem) simp
    ultimately show ?thesis by metis
  qed
  ultimately show ?thesis by (intro exI [of _ ?bs] exI [of _ ns]) blast
qed

text \<open>All lines that have been taken have been carried out, but the one in hand.\<close>

lemma history_taken:
  assumes h: "history ops Vs bs v" and i: "i < N_FACES"
  shows "taken (to_server v ! i) = 3 * length (commands_by i ops) + length (in_hand (listeners v ! i))"
proof -
  let ?q = "to_server v ! i"
  have t: "taken ?q \<le> length (written ?q)" "take (taken ?q) (written ?q) =
      concat (map command_line (commands_by i ops)) @ in_hand (listeners v ! i)"
    using h i by (simp_all add: history_def carried_out_def)
  have "length (concat (map command_line xs)) = 3 * length xs" for xs
    by (induction xs) (simp_all add: command_line_def)
  then show ?thesis using arg_cong [OF t(2), of length] t(1) by simp
qed

lemma history_commands:
  assumes h: "history ops Vs bs (server s)" and inv: "system_inv sg s" and i: "i < N_FACES"
    and t: "typed keys (args (clients s ! i))"
  shows "prefix (commands_by i ops) (commands_of keys)"
proof -
  obtain f xs where fx: "foldl key_effect (None, []) keys = (f, xs)" by (cases "foldl key_effect (None, []) keys")
  have out: "socket_out (args (clients s ! i)) = concat (map command_line xs)" "\<forall>x\<in>set xs. command_key x"
    and xs: "commands_of keys = xs" using t by (simp_all add: typed_def fx commands_of_def)
  have "prefix (concat (map command_line (commands_by i ops))) (written (to_server (server s) ! i))"
  proof -
    let ?q = "to_server (server s) ! i"
    have "take (taken ?q) (written ?q) = concat (map command_line (commands_by i ops)) @ in_hand (listeners (server s) ! i)"
      using h i by (simp add: history_def carried_out_def)
    then have "prefix (concat (map command_line (commands_by i ops))) (take (taken ?q) (written ?q))" by (simp only: prefixI)
    then show ?thesis using take_is_prefix by (rule prefix_order.trans)
  qed
  moreover obtain zs ys where "prefix ys zs" "socket_out (args (clients s ! i)) = concat (map command_line zs)"
      "written (to_server (server s) ! i) = concat (map command_line ys)"
    using messages_in_order(2) [OF inv i] by blast
  then have "prefix (written (to_server (server s) ! i)) (socket_out (args (clients s ! i)))"
    by (auto elim!: prefixE)
  ultimately have "prefix (concat (map command_line (commands_by i ops))) (concat (map command_line xs))"
    unfolding out(1) by (rule prefix_order.trans)
  moreover have "\<forall>y\<in>set (commands_by i ops). command_key y"
  proof
    fix y assume "y \<in> set (commands_by i ops)"
    then obtain n where "n < length ops" "snd (ops ! n) = y" by (auto simp: commands_by_def in_set_conv_nth)
    then show "command_key y" using h by (cases "ops ! n") (auto simp: history_def obeyed_def)
  qed
  ultimately show ?thesis unfolding xs using command_prefix [OF out(2)] by blast
qed

lemma started_history:
  assumes rng: "rng_ok (rand_r pf)" and st: "start_ok h p as"
    and run: "system_run pf sg (system_start fds h p as) ks s"
  shows "\<exists>ops Vs bs. history ops Vs bs (server s)" and "system_inv sg s"
    and "\<forall>i<N_FACES. typed (keys_of i ks) (args (clients s ! i))"
proof -
  let ?s0 = "system_start fds h p as"
  have inv: "system_inv sg ?s0" using st by (simp add: start_ok_def system_inv_start)
  have "history [] [solved_val] [] (server ?s0)" using st by (simp add: system_start_def start_ok_def history_start)
  with system_run_history [OF rng inv _ run] show "\<exists>ops Vs bs. history ops Vs bs (server s)" by blast
  show "system_inv sg s" by (rule system_inv_reachable [OF rng inv run_reachable [OF run]])
  have "\<forall>i<N_FACES. typed [] (args (clients ?s0 ! i))"
    using st by (auto simp: start_ok_def system_start_def typed_def fresh_client_def client_start_def)
  with system_run_typed [OF rng inv _ run] show "\<forall>i<N_FACES. typed (keys_of i ks) (args (clients s ! i))" by blast
qed

end
