(* ===== verification/Full_Pipes.thy ===== *)
theory Full_Pipes
  imports System
begin

text \<open>
  The system with pipes and sockets of a finite capacity: a thread whose line does not fit waits in
  its \<open>fflush\<close> until it does. The runs are runs of \<open>System\<close>, so all that is said about
  reachable states holds; what is new is that a thread may wait where it did not, and the
  question is whether all may wait for each other.
\<close>

section \<open>Steps that fit\<close>

definition fits :: "nat \<Rightarrow> system \<Rightarrow> bool" where
  "fits cap s \<longleftrightarrow> (\<forall>i<N_FACES. length (unread (to_server (server s) ! i)) \<le> cap \<and>
     length (unread (to_client (server s) ! i)) \<le> cap \<and>
     length (unread (inbox (clients s ! i))) \<le> cap \<and> length (unread (outbox (clients s ! i))) \<le> cap)"

inductive capped_step :: "nat \<Rightarrow> platform \<Rightarrow> bool \<Rightarrow> system \<Rightarrow> system \<Rightarrow> bool" for cap pf sg where
  "system_step pf sg s s' \<Longrightarrow> fits cap s' \<Longrightarrow> capped_step cap pf sg s s'"

inductive capped_reachable :: "nat \<Rightarrow> platform \<Rightarrow> bool \<Rightarrow> system \<Rightarrow> system \<Rightarrow> bool" for cap pf sg s0 where
  start: "fits cap s0 \<Longrightarrow> capped_reachable cap pf sg s0 s0"
| internal: "capped_reachable cap pf sg s0 s \<Longrightarrow> capped_step cap pf sg s s' \<Longrightarrow> capped_reachable cap pf sg s0 s'"
| outside: "capped_reachable cap pf sg s0 s \<Longrightarrow> outside_step s s' \<Longrightarrow> fits cap s' \<Longrightarrow>
    capped_reachable cap pf sg s0 s'"

definition capped_stuck :: "nat \<Rightarrow> platform \<Rightarrow> bool \<Rightarrow> system \<Rightarrow> bool" where
  "capped_stuck cap pf sg s \<longleftrightarrow> (\<forall>s'. \<not> capped_step cap pf sg s s')"

inductive_simps capped_step_iff: "capped_step cap pf sg s s'"

lemma capped_reachable_system:
  "capped_reachable cap pf sg s0 s \<Longrightarrow> system_reachable pf sg s0 s \<and> fits cap s"
  by (induction rule: capped_reachable.induct)
    (auto simp: capped_step_iff intro: system_reachable.intros)

lemma capped_steps_system: "(capped_step cap pf sg)\<^sup>*\<^sup>* s s' \<Longrightarrow> (system_step pf sg)\<^sup>*\<^sup>* s s'"
  by (induction rule: rtranclp_induct) (auto simp: capped_step_iff intro: rtranclp.rtrancl_into_rtrancl)

lemma capped_stuckD: "capped_stuck cap pf sg s \<Longrightarrow> system_step pf sg s s' \<Longrightarrow> \<not> fits cap s'"
  by (auto simp: capped_stuck_def capped_step_iff)

lemma fitsD:
  assumes "fits cap s" and "i < N_FACES"
  shows "length (unread (to_server (server s) ! i)) \<le> cap" and "length (unread (to_client (server s) ! i)) \<le> cap"
    and "length (unread (inbox (clients s ! i))) \<le> cap" and "length (unread (outbox (clients s ! i))) \<le> cap"
  using assms by (auto simp: fits_def)

section \<open>The steps that read always fit\<close>

lemma unread_shrinks: "pipe_getline q = Some (l, q') \<Longrightarrow> length (unread q') \<le> length (unread q)"
  using pipe_getline_unread by fastforce

lemma client_internal_inbox:
  assumes "client_internal sg c c'"
  shows "length (unread (inbox c')) \<le> length (unread (inbox c))"
proof -
  note defs = run_args_def sem_post_def wait_one_def read_face_def decode_one_def draw_one_def
  show ?thesis
    using assms unread_shrinks [of "inbox c"]
    by (elim client_internalE) (auto simp: post_step_def receiver_step_def viewer_step_def defs
      split: receiver.splits viewer.splits option.splits sum.splits if_splits)
qed

lemma fits_client:
  assumes "fits cap s" and "sizes s" and "i < N_FACES" and "client_internal sg (clients s ! i) c"
  shows "fits cap (set_client i c s)"
proof -
  have "length (unread (inbox c)) \<le> cap" "length (unread (outbox c)) \<le> cap"
    using client_internal_inbox [OF assms(4)] client_internal_outbox [OF assms(4)] fitsD [OF assms(1,3)] by auto
  then show ?thesis using assms(1-3) by (auto simp: fits_def clients_set_client) (simp_all add: set_client_def)
qed

lemma fits_listener:
  assumes "fits cap s" and "shape (server s)" and "i < N_FACES" and st: "listener_step pf now i (server s) = Some v"
  shows "fits cap (s\<lparr>server := v\<rparr>)"
proof -
  have "to_client v = to_client (server s)"
    using st by (cases "listeners (server s) ! i")
      (auto simp: listener_step_def listener_defs split: option.splits sum.splits if_splits)
  moreover have "length (unread (to_server v ! j)) \<le> cap" if "j < N_FACES" for j
    using listener_step_pipes(1) [OF assms(2-4), of j] listener_step_pipes(2) [OF assms(2-4)]
      fitsD(1) [OF assms(1) that]
    by (cases "j = i") (auto dest!: unread_shrinks)
  ultimately show ?thesis using assms(1) by (simp add: fits_def)
qed

section \<open>The steps that write fit where there is room\<close>

definition room :: "nat \<Rightarrow> pipe \<Rightarrow> string \<Rightarrow> bool" where
  "room cap q m \<longleftrightarrow> length (unread (pipe_write m q)) \<le> cap"

lemma room_shorter: "room cap q m \<Longrightarrow> length l \<le> length m \<Longrightarrow> room cap q l"
  by (simp add: room_def unread_def pipe_write_def fputs_def)

lemma room_drained: "unread q = [] \<Longrightarrow> length m \<le> cap \<Longrightarrow> room cap q m"
  by (simp add: room_def unread_def pipe_write_def fputs_def)

lemma relay_room:
  assumes "relay_step r src dst = Some (r', src', dst')" and "\<And>l. r = Carrying l \<Longrightarrow> room cap dst l"
    and "length (unread dst) \<le> cap"
  shows "length (unread dst') \<le> cap" and "length (unread src') \<le> length (unread src)"
proof -
  have "length (unread (pipe_write (takeWhile (\<lambda>c. c \<noteq> nul) l) dst)) \<le> cap" if "r = Carrying l" for l
    using room_shorter [OF assms(2) [OF that] length_takeWhile_le [of "\<lambda>c. c \<noteq> nul" l]] by (simp add: room_def)
  then show "length (unread dst') \<le> cap" and "length (unread src') \<le> length (unread src)"
    using assms(1,3) unread_shrinks [of src]
    by (auto simp: relay_step_def c_string_line_buffer split: relay.splits option.splits if_splits)
qed

lemma fits_pipe_reader:
  assumes f: "fits cap s" and sz: "sizes s" and len: "length (to_client (server s)) = N_FACES" and i: "i < N_FACES"
    and st: "pipe_reader_step i s = Some s'"
    and r: "\<And>l. pipe_readers s ! i = Carrying l \<Longrightarrow> stopped (clients s ! i) = None \<Longrightarrow> room cap (inbox (clients s ! i)) l"
  shows "fits cap s'"
proof -
  let ?c = "clients s ! i"
  obtain r src dst where rs: "relay_step (pipe_readers s ! i) (to_client (server s) ! i) (inbox ?c) =
      Some (r, src, dst)"
    and s': "s' = set_client i (?c\<lparr>inbox := if stopped ?c = None then dst else inbox ?c\<rparr>)
      (s\<lparr>server := (server s)\<lparr>to_client := (to_client (server s))[i := src]\<rparr>,
         pipe_readers := (pipe_readers s)[i := r]\<rparr>)"
    using st by (auto simp: pipe_reader_step_def split: option.splits if_splits)
  obtain b where b: "b = (if stopped ?c = None then dst else inbox ?c)" by blast
  have le: "length (unread b) \<le> cap" using relay_room(1) [OF rs r] fitsD(3) [OF f i] by (simp add: b)
  have "length (unread src) \<le> length (unread (to_client (server s) ! i))"
    using relay_step_source(1) [OF rs] rs unread_shrinks [of "to_client (server s) ! i"]
    by (auto simp: relay_step_def split: relay.splits option.splits if_splits sum.splits)
  then have src: "length (unread src) \<le> cap" using fitsD(2) [OF f i] by simp
  have o: "clients s' ! j = (if j = i then ?c\<lparr>inbox := b\<rparr> else clients s ! j)"
    "to_client (server s') ! j = (if j = i then src else to_client (server s) ! j)" for j
    using i sz len by (simp_all add: s' b set_client_def sizes_def)
  show ?thesis using f le src by (auto simp: fits_def o outbox_def) (simp_all add: s' set_client_def)
qed

lemma fits_socket_reader:
  assumes f: "fits cap s" and sz: "sizes s" and len: "length (to_server (server s)) = N_FACES" and i: "i < N_FACES"
    and st: "socket_reader_step i s = Some s'"
    and r: "\<And>l. socket_readers s ! i = Carrying l \<Longrightarrow> room cap (to_server (server s) ! i) l"
  shows "fits cap s'"
proof -
  let ?c = "clients s ! i"
  obtain r src dst where rs: "relay_step (socket_readers s ! i) (outbox ?c) (to_server (server s) ! i) =
      Some (r, src, dst)"
    and s': "s' = set_client i (?c\<lparr>outbox_taken := taken src\<rparr>)
      (s\<lparr>server := (server s)\<lparr>to_server := (to_server (server s))[i := dst]\<rparr>,
         socket_readers := (socket_readers s)[i := r]\<rparr>)"
    using st by (auto simp: socket_reader_step_def split: option.splits if_splits)
  have le: "length (unread dst) \<le> cap" "length (unread src) \<le> cap"
    using relay_room [OF rs r] fitsD(1,4) [OF f i] by auto
  have o: "clients s' ! j = (if j = i then ?c\<lparr>outbox_taken := taken src\<rparr> else clients s ! j)"
    "to_server (server s') ! j = (if j = i then dst else to_server (server s) ! j)" for j
    using i sz len by (simp_all add: s' set_client_def sizes_def)
  have "outbox (?c\<lparr>outbox_taken := taken src\<rparr>) = src"
    using relay_step_source [OF rs] by (cases src) (simp add: outbox_def)
  then show ?thesis using f le by (auto simp: fits_def o) (simp_all add: s' set_client_def)
qed

lemma fits_broadcast:
  assumes f: "fits cap s" and st: "broadcast_step (server s) = Some v"
    and r: "\<And>m k. broadcaster (server s) = Sending m k \<Longrightarrow> k < N_FACES \<Longrightarrow>
      \<not> broken (to_client (server s) ! k) \<Longrightarrow> room cap (to_client (server s) ! k) m"
  shows "fits cap (s\<lparr>server := v\<rparr>)"
proof -
  have "to_server v = to_server (server s) \<and> (to_client v = to_client (server s) \<or> (\<exists>m k.
    broadcaster (server s) = Sending m k \<and> k < N_FACES \<and> \<not> broken (to_client (server s) ! k) \<and>
    to_client v = (to_client (server s))[k := pipe_write m (to_client (server s) ! k)]))"
    using st by (cases "broadcaster (server s)") (auto simp: broadcast_step_def broadcast_defs split: if_splits sum.splits)
  moreover have "length (unread ((to_client (server s))[k := pipe_write m (to_client (server s) ! k)] ! j)) \<le> cap"
    if "broadcaster (server s) = Sending m k" "k < N_FACES" "\<not> broken (to_client (server s) ! k)" "j < N_FACES" for m k j
    using r [OF that(1-3), unfolded room_def] fitsD(2) [OF f that(4)]
    by (cases "j = k"; cases "k < length (to_client (server s))") (simp_all add: list_update_beyond)
  ultimately show ?thesis using f by (auto simp: fits_def)
qed

section \<open>Where all wait\<close>

text \<open>Threads that only wait for each other's lines to be read do not wait for ever. There is one way to stop
  the system: a pipe that is full, whose reader has ended, and which other processes keep from
  breaking because they have inherited the end to read.\<close>

definition jammed :: "nat \<Rightarrow> system \<Rightarrow> nat \<Rightarrow> bool" where
  "jammed cap s k \<longleftrightarrow> k < N_FACES \<and> facing_gone s ! k \<and> (\<exists>j<k. \<not> facing_gone s ! j) \<and>
     (\<exists>m. broadcaster (server s) = Sending m k \<and> \<not> broken (to_client (server s) ! k) \<and>
       \<not> room cap (to_client (server s) ! k) m)"

context framed begin

lemma drained_room:
  assumes c: "channel q xs k" and none: "newline \<notin> set (unread q)" and "n \<le> cap" and x: "ok x"
  shows "room cap q (enc x)"
proof -
  have "unread q = []" using channel_unread [OF c] channel_drained [OF c none] by simp
  then show ?thesis using enc_size [OF x] assms(3) room_drained by simp
qed

lemma carried_ok:
  assumes c: "channel q xs k" and "passed_on enc (Carrying l) xs k ys"
  shows "\<exists>x. ok x \<and> l = enc x"
proof -
  obtain x where x: "l = enc x" "take k xs = ys @ [x]" using assms(2) by (auto simp: passed_on_def)
  then have "x \<in> set xs" by (metis in_set_conv_decomp in_set_takeD)
  then show ?thesis using c x(1) by (auto simp: carries_def)
qed

end

lemma capped_pipe_reader:
  assumes inv: "system_inv sg s" and f: "fits cap s" and cap: "55 \<le> cap" and st: "capped_stuck cap pf sg s"
    and i: "i < N_FACES"
  shows "pipe_reader_step i s = None"
proof (cases "pipe_reader_step i s")
  case (Some s')
  let ?c = "clients s ! i"
  have sz: "sizes s" and len: "length (to_client (server s)) = N_FACES"
    using inv server_inv_shape by (auto simp: system_inv_def)
  have "room cap (inbox ?c) l" if l: "pipe_readers s ! i = Carrying l" and run: "stopped ?c = None" for l
  proof -
    obtain Vs k ys j where ch: "cubes.channel (to_client (server s) ! i) Vs k"
      and p: "passed_on cube_line (Carrying l) Vs k ys" and c: "client_inv sg ys j ?c"
      and op: "open_ok (to_client (server s) ! i) (pipe_readers s ! i) ?c"
      using inv i run l by (auto simp: system_inv_def link_inv_def down_link_def fed_def)
    have "client_stuck sg ?c"
      unfolding client_stuck_def
      using run fits_client [OF f sz i] capped_stuckD [OF st system_step.client [OF i]] by blast
    then have "newline \<notin> set (unread (inbox ?c))"
      using client_stuck_resting(2) op by (auto simp: open_ok_def)
    moreover have "cubes.channel (inbox ?c) ys j" using c by (simp add: client_inv_def)
    ultimately show ?thesis
      using cubes.carried_ok [OF ch p] cubes.drained_room [OF _ _ cap] by blast
  qed
  from fits_pipe_reader [OF f sz len i Some this] capped_stuckD [OF st system_step.to_socket [OF i Some]]
  show ?thesis by simp
qed

lemma capped_listener:
  assumes inv: "system_inv sg s" and f: "fits cap s" and st: "capped_stuck cap pf sg s"
    and i: "i < N_FACES" and cr: "crashed (server s) = None"
  shows "listener_step pf now i (server s) = None"
proof (cases "listener_step pf now i (server s)")
  case (Some v)
  have "shape (server s)" using inv by (auto simp: system_inv_def server_inv_def)
  from fits_listener [OF f this i Some]
    capped_stuckD [OF st system_step.server [OF internal_step.listener [OF cr i Some]]] show ?thesis by simp
qed

lemma capped_drained:
  assumes inv: "system_inv sg s" and none: "pipe_reader_step i s = None" and i: "i < N_FACES"
    and g: "\<not> facing_gone s ! i" and cap: "55 \<le> cap" and W: "solvable W"
  shows "room cap (to_client (server s) ! i) (cube_line W)"
proof -
  obtain Vs k where ch: "cubes.channel (to_client (server s) ! i) Vs k"
    and op: "open_ok (to_client (server s) ! i) (pipe_readers s ! i) (clients s ! i)"
    using inv i by (auto simp: system_inv_def link_inv_def down_link_def)
  have "relay_step (pipe_readers s ! i) (to_client (server s) ! i) (inbox (clients s ! i)) = None"
    using none g by (auto simp: pipe_reader_step_def split: option.splits)
  from relay_step_None [OF this] have "newline \<notin> set (unread (to_client (server s) ! i))"
    using op by (auto simp: open_ok_def)
  then show ?thesis using cubes.drained_room [OF ch _ cap W] by blast
qed

lemma fits_ends:
  assumes "fits cap s" and V: "server_inv V (server s)" and i: "i < N_FACES"
  shows "fits cap (s\<lparr>server := close_to_server i (server s)\<rparr>)"
    and "fits cap (s\<lparr>server := break_to_client i (server s)\<rparr>)"
    and "fits cap (s\<lparr>facing_gone := g\<rparr>)"
  using assms(1) server_inv_shape [OF V] i
  by (auto simp: fits_def close_to_server_def break_to_client_def nth_list_update unread_def)

lemma capped_broadcast:
  assumes inv: "system_inv sg s" and f: "fits cap s" and cap: "55 \<le> cap" and st: "capped_stuck cap pf sg s"
    and cr: "crashed (server s) = None" and nj: "\<forall>k. \<not> jammed cap s k"
  shows "broadcast_step (server s) = None"
proof (cases "broadcast_step (server s)")
  case (Some v)
  obtain V where V: "server_inv V (server s)" using inv by (auto simp: system_inv_def)
  have "room cap (to_client (server s) ! k) m"
    if m: "broadcaster (server s) = Sending m k" and k: "k < N_FACES" and whole: "\<not> broken (to_client (server s) ! k)" for m k
  proof (cases "facing_gone s ! k")
    case True
    have "\<not> no_reader k s"
      using capped_stuckD [OF st system_step.last_reader [OF k whole]] fits_ends(2) [OF f V k] by blast
    then have "\<exists>j<k. \<not> facing_gone s ! j" using True by (auto simp: no_reader_def)
    then show ?thesis using nj m k whole True by (auto simp: jammed_def)
  next
    case False
    obtain W where "solvable W" "m = cube_line W" using V m by (auto simp: server_inv_def casts_def)
    then show ?thesis using capped_drained [OF inv capped_pipe_reader [OF inv f cap st k] k False cap] by simp
  qed
  from fits_broadcast [OF f Some this]
    capped_stuckD [OF st system_step.server [OF internal_step.broadcast [OF cr Some]]] show ?thesis by simp
qed

lemma capped_socket_reader:
  assumes inv: "system_inv sg s" and f: "fits cap s" and cap: "55 \<le> cap" and st: "capped_stuck cap pf sg s"
    and rest: "resting (server s)" and i: "i < N_FACES"
  shows "socket_reader_step i s = None"
proof (cases "socket_reader_step i s")
  case (Some s')
  have sz: "sizes s" and len: "length (to_server (server s)) = N_FACES"
    using inv server_inv_shape by (auto simp: system_inv_def)
  obtain xs k ys j where ch: "commands.channel (outbox (clients s ! i)) xs k"
    and p: "passed_on command_line (socket_readers s ! i) xs k ys"
    and d: "commands.channel (to_server (server s) ! i) ys j"
    and e: "ends_ok (clients s ! i) (socket_readers s ! i) (facing_gone s ! i) (to_server (server s) ! i)
      (listeners (server s) ! i)"
    using inv i by (auto simp: system_inv_def link_inv_def up_link_def)
  have "room cap (to_server (server s) ! i) l" if l: "socket_readers s ! i = Carrying l" for l
  proof -
    have "\<not> facing_gone s ! i" using Some by (auto simp: socket_reader_step_def)
    then have "newline \<notin> set (unread (to_server (server s) ! i))"
      using rest e l i by (auto simp: resting_def ends_ok_def)
    moreover have "3 \<le> cap" using cap by simp
    ultimately show ?thesis
      using commands.carried_ok [OF ch, of l ys] p l commands.drained_room [OF d] by auto
  qed
  from fits_socket_reader [OF f sz len i Some this] capped_stuckD [OF st system_step.to_pipe [OF i Some]]
  show ?thesis by simp
qed

theorem capped_stuck_cases:
  assumes inv: "system_inv sg s" and f: "fits cap s" and cap: "55 \<le> cap" and st: "capped_stuck cap pf sg s"
    and cr: "crashed (server s) = None"
  shows "system_stuck pf sg s \<or> (\<exists>k. jammed cap s k)"
proof (rule disjCI)
  assume "\<not> (\<exists>k. jammed cap s k)"
  then have nj: "\<forall>k. \<not> jammed cap s k" by blast
  obtain V where V: "server_inv V (server s)" using inv by (auto simp: system_inv_def)
  have sz: "sizes s" using inv by (simp add: system_inv_def)
  note up = capped_stuckD [OF st]
  have "stuck pf (server s)"
    using cr capped_listener [OF inv f st _ cr] capped_broadcast [OF inv f cap st cr nj]
    by (auto simp: stuck_def elim!: internal_stepE)
  then have rest: "resting (server s)" using V by (intro stuck_resting) (simp_all add: server_inv_def)
  show "system_stuck pf sg s"
    unfolding system_stuck_def
  proof (intro allI notI)
    fix s' assume step: "system_step pf sg s s'"
    then have "\<not> fits cap s'" by (rule up)
    from step this show False
    proof (cases rule: system_step.cases)
      case (server v)
      then show ?thesis using \<open>stuck pf (server s)\<close> by (auto simp: stuck_def)
    next
      case (client i c)
      then show ?thesis using fits_client [OF f sz] \<open>\<not> fits cap s'\<close> by blast
    next
      case (to_socket i)
      then show ?thesis using capped_pipe_reader [OF inv f cap st] by simp
    next
      case (to_pipe i)
      then show ?thesis using capped_socket_reader [OF inv f cap st rest] by simp
    qed (use fits_ends [OF f V] \<open>\<not> fits cap s'\<close> in auto)
  qed
qed

section \<open>A jam does not dissolve\<close>

text \<open>Whoever runs, whatever keys are pressed: while the process of the first client is there, the broadcaster
  stays where it is, and no client gets a message any more but those that were on their way.\<close>

lemma true_stays: "xs ! k \<Longrightarrow> xs[i := True] ! k"
  by (cases "i < length xs"; cases "i = k") (simp_all add: list_update_beyond)

lemma gone_stays:
  "system_step pf sg s s' \<or> outside_step s s' \<Longrightarrow> facing_gone s ! k \<Longrightarrow> facing_gone s' ! k"
  by (auto elim!: system_stepE outside_stepE simp: set_client_def pipe_reader_step_def socket_reader_step_def
    true_stays split: option.splits if_splits)

lemma capped_reachable_inv:
  assumes "system_inv sg s" and rng: "rng_ok (rand_r pf)" and "capped_reachable cap pf sg s s'"
  shows "system_inv sg s'"
  using system_inv_reachable [OF rng assms(1)] capped_reachable_system [OF assms(3)] by blast

lemma capped_reachable_trans:
  "capped_reachable cap pf sg s' s'' \<Longrightarrow> capped_reachable cap pf sg s s' \<Longrightarrow> capped_reachable cap pf sg s s''"
  by (induction rule: capped_reachable.induct) (auto intro: capped_reachable.intros)

text \<open>Whatever happens, the pipe of a process that has ended is not read, and it is not written while the
  broadcaster waits for room in it.\<close>

lemma jam_server_step:
  assumes j: "jammed cap s k" and V: "server_inv V (server s)" and st: "internal_step pf (server s) v"
    and f: "fits cap (s\<lparr>server := v\<rparr>)"
  shows "to_client v = to_client (server s)" and "broadcaster v = broadcaster (server s)"
proof -
  obtain m where k: "k < N_FACES" and m: "broadcaster (server s) = Sending m k"
    "\<not> broken (to_client (server s) ! k)" "\<not> room cap (to_client (server s) ! k) m"
    using j by (auto simp: jammed_def)
  have "to_client v = to_client (server s) \<and> broadcaster v = broadcaster (server s)"
    using st
  proof (rule internal_stepE)
    fix i now assume "listener_step pf now i (server s) = Some v"
    then show ?thesis using listener_frame by blast
  next
    assume "broadcast_step (server s) = Some v"
    then have "to_client v = (to_client (server s))[k := pipe_write m (to_client (server s) ! k)]"
      using k m by (auto simp: broadcast_step_def server_print_def)
    then have "to_client v ! k = pipe_write m (to_client (server s) ! k)"
      using k server_inv_shape [OF V] by simp
    then show ?thesis using fitsD(2) [OF f k] m(3) by (simp add: room_def)
  qed
  then show "to_client v = to_client (server s)" "broadcaster v = broadcaster (server s)" by simp_all
qed

lemma jam_step:
  assumes j: "jammed cap s k" and inv: "system_inv sg s" and st: "system_step pf sg s s' \<or> outside_step s s'"
    and f: "fits cap s'" and i: "i < k" "\<not> facing_gone s' ! i"
  shows "jammed cap s' k \<and> written (to_client (server s') ! n) = written (to_client (server s) ! n)"
proof -
  obtain V where V: "server_inv V (server s)" using inv by (auto simp: system_inv_def)
  have g: "facing_gone s ! k" "\<not> facing_gone s ! i" "facing_gone s' ! k" "k < N_FACES"
    using j gone_stays [OF st] i by (auto simp: jammed_def)
  have keep: ?thesis if "broadcaster (server s') = broadcaster (server s)"
    "to_client (server s') ! k = to_client (server s) ! k"
    "written (to_client (server s') ! n) = written (to_client (server s) ! n)"
    using j g i that by (auto simp: jammed_def)
  from st show ?thesis
  proof
    assume "system_step pf sg s s'"
    then show ?thesis
    proof (rule system_stepE)
      fix v assume "s' = s\<lparr>server := v\<rparr>" "internal_step pf (server s) v"
      then show ?thesis using keep jam_server_step [OF j V] f by simp
    next
      fix l assume "l < N_FACES" "pipe_reader_step l s = Some s'"
      moreover from this(2) have "l \<noteq> k" using g by (auto simp: pipe_reader_step_def)
      ultimately show ?thesis
        using relay_step_source(1) server_inv_shape [OF V]
        by (intro keep; cases "l = n") (auto simp: pipe_reader_step_def set_client_def nth_list_update split: option.splits if_splits)
    next
      fix l assume "socket_reader_step l s = Some s'"
      then show ?thesis
        by (intro keep) (auto simp: socket_reader_step_def set_client_def split: option.splits if_splits)
    next
      fix l assume l: "s' = s\<lparr>server := break_to_client l (server s)\<rparr>" "l < N_FACES" "no_reader l s"
      then have "l \<noteq> k" using g i by (auto simp: no_reader_def)
      then show ?thesis using l server_inv_shape [OF V]
        by (intro keep) (simp_all add: break_to_client_def nth_list_update)
    qed ((rule keep; simp add: set_client_def close_to_server_def)+)
  next
    assume "outside_step s s'"
    then show ?thesis by (rule outside_stepE) ((rule keep; simp add: set_client_def)+)
  qed
qed

lemma jam_stays:
  assumes j: "jammed cap s k" and inv: "system_inv sg s" and rng: "rng_ok (rand_r pf)"
    and "capped_reachable cap pf sg s s'" and i: "i < k" and "\<not> facing_gone s' ! i"
  shows "jammed cap s' k \<and> written (to_client (server s') ! n) = written (to_client (server s) ! n)"
  using assms(4,6)
proof (induction rule: capped_reachable.induct)
  case start
  then show ?case using j by simp
next
  case (internal s1 s2)
  have st: "system_step pf sg s1 s2 \<or> outside_step s1 s2" and f: "fits cap s2"
    using internal.hyps(2) by (auto simp: capped_step_iff)
  have "\<not> facing_gone s1 ! i" using gone_stays [OF st] internal.prems by blast
  with internal.IH show ?case
    using jam_step [OF _ capped_reachable_inv [OF inv rng internal.hyps(1)] st f i internal.prems] by metis
next
  case (outside s1 s2)
  have st: "system_step pf sg s1 s2 \<or> outside_step s1 s2" using outside.hyps(2) by blast
  have "\<not> facing_gone s1 ! i" using gone_stays [OF st] outside.prems by blast
  with outside.IH show ?case
    using jam_step [OF _ capped_reachable_inv [OF inv rng outside.hyps(1)] st outside.hyps(3) i outside.prems] by metis
qed

text \<open>The system with finite pipes comes to rest too.\<close>

theorem capped_settles:
  assumes rng: "rng_ok (rand_r pf)" and inv: "system_inv sg s"
  shows "\<exists>s'. (capped_step cap pf sg)\<^sup>*\<^sup>* s s' \<and> capped_stuck cap pf sg s'"
  using inv
proof (induction s rule: wf_induct_rule [OF wf_less_work])
  case (1 s)
  show ?case
  proof (cases "capped_stuck cap pf sg s")
    case False
    then obtain t where t: "capped_step cap pf sg s t" by (auto simp: capped_stuck_def)
    then have st: "system_step pf sg s t" by (simp add: capped_step_iff)
    from 1(1) [OF system_step_less [OF 1(2) st] system_inv_step [OF 1(2) rng st]] t
    show ?thesis by (meson converse_rtranclp_into_rtranclp)
  qed blast
qed

lemma capped_steps_reachable:
  "(capped_step cap pf sg)\<^sup>*\<^sup>* s s' \<Longrightarrow> capped_reachable cap pf sg s0 s \<Longrightarrow> capped_reachable cap pf sg s0 s'"
  by (induction rule: rtranclp_induct) (auto intro: capped_reachable.internal)

end
