(* ===== verification/Tally.thy ===== *)
theory Tally
  imports System
begin

text \<open>
  Two accounts that the system keeps. Every command that a listener has taken from its pipe is
  followed by one broadcast: what has been sent to each client, and what is still due to be sent, is
  one message for each command taken. And every command costs at most 930 calls of \<open>malloc\<close>, so the
  memory that is left is known from the number of commands.
\<close>

section \<open>The accounts\<close>

definition pending :: "listener \<Rightarrow> nat" where
  "pending pc = (case pc of Idle \<Rightarrow> 0 | Ended \<Rightarrow> 0 | _ \<Rightarrow> 1)"

definition unheard :: "listener \<Rightarrow> nat" where
  "unheard pc = (case pc of Got l \<Rightarrow> 1 | Locked l \<Rightarrow> 1 | _ \<Rightarrow> 0)"

definition coming :: "nat \<Rightarrow> broadcaster \<Rightarrow> nat" where
  "coming k pc = (case pc of Waiting \<Rightarrow> 0 | Sending m j \<Rightarrow> (if j \<le> k then 1 else 0) | _ \<Rightarrow> 1)"

definition commands_taken :: "echo_server \<Rightarrow> nat" where
  "commands_taken v = (\<Sum>i<N_FACES. taken (to_server v ! i) div 3)"

definition due :: "nat \<Rightarrow> echo_server \<Rightarrow> nat" where
  "due k v = coming k (broadcaster v) + broadcast_message_ready v + (\<Sum>i<N_FACES. pending (listeners v ! i))"

definition tally :: "nat \<Rightarrow> echo_server \<Rightarrow> bool" where
  "tally k v \<longleftrightarrow> length (written (to_client v ! k)) + 55 * due k v = 55 * commands_taken v"

definition frugal :: "nat \<Rightarrow> echo_server \<Rightarrow> bool" where
  "frugal Q v \<longleftrightarrow> Q + 930 * (\<Sum>i<N_FACES. unheard (listeners v ! i)) \<le>
     quota (server_mem v) + 930 * commands_taken v"

lemma sum_swap:
  fixes f g :: "nat \<Rightarrow> nat"
  assumes "i < n" and "\<And>j. j < n \<Longrightarrow> j \<noteq> i \<Longrightarrow> g j = f j"
  shows "sum g {..<n} + f i = sum f {..<n} + g i"
proof -
  have "sum g ({..<n} - {i}) = sum f ({..<n} - {i})" using assms(2) by (intro sum.cong) auto
  then show ?thesis using assms(1) by (simp add: sum.remove [of "{..<n}" i])
qed

section \<open>A step of a listener\<close>

lemma listener_step_account:
  assumes sh: "shape v" and i: "i < N_FACES" and st: "listener_step pf now i v = Some v'"
    and ch: "commands.channel (to_server v ! i) ys j"
  shows "pending (listeners v' ! i) + broadcast_message_ready v' + taken (to_server v ! i) div 3 =
    pending (listeners v ! i) + broadcast_message_ready v + taken (to_server v' ! i) div 3"
proof (cases "listeners v ! i")
  case Idle
  show ?thesis
  proof (cases "pipe_getline (to_server v ! i)")
    case None
    then show ?thesis using st sh i Idle
      by (auto simp: listener_step_def listener_read_def set_listener_def shape_def pending_def split: if_splits)
  next
    case (Some lq)
    obtain l q where lq: "lq = (l, q)" by (cases lq)
    have "taken q = 3 * Suc j" "taken (to_server v ! i) = 3 * j"
      using commands.channel_getlineE [OF ch Some [unfolded lq]] ch by (simp_all add: carries_def)
    then show ?thesis using st sh i Idle Some
      by (auto simp: listener_step_def listener_read_def set_listener_def shape_def server_print_def lq pending_def)
  qed
qed (use st sh i in \<open>auto simp: listener_step_def listener_defs shape_def pending_def split: sum.splits if_splits\<close>)

lemma listener_step_quota:
  assumes V: "server_inv V v" and rng: "rng_ok (rand_r pf)" and i: "i < N_FACES"
    and st: "listener_step pf now i v = Some v'" and com: "commanding (listeners v ! i)"
    and ch: "commands.channel (to_server v ! i) ys j"
  shows "930 * unheard (listeners v' ! i) + quota (server_mem v) + 930 * (taken (to_server v ! i) div 3) \<le>
    930 * unheard (listeners v ! i) + quota (server_mem v') + 930 * (taken (to_server v' ! i) div 3)"
proof (cases "\<exists>l. listeners v ! i = Locked l")
  case False
  have sh: "shape v" using V by (simp add: server_inv_def)
  have "quota (server_mem v') = quota (server_mem v)"
    using st False by (cases "listeners v ! i") (auto simp: listener_step_def listener_defs server_print_def
      printed_def split: option.splits if_splits)
  moreover have "unheard (listeners v' ! i) + taken (to_server v ! i) div 3 =
      unheard (listeners v ! i) + taken (to_server v' ! i) div 3"
    using listener_step_account [OF sh i st ch] st False sh i
    by (cases "listeners v ! i") (auto simp: listener_step_def listener_defs shape_def pending_def unheard_def
      server_print_def split: option.splits if_splits)
  ultimately show ?thesis by simp
next
  case True
  then obtain l where l: "listeners v ! i = Locked l" by blast
  have sh: "shape v" and h: "holds V v" and ln: "lines_ok v" using V by (simp_all add: server_inv_def)
  obtain x where x: "command_key x" "l = command_line x" using com l by (auto simp: commanding_def)
  obtain k f where kf: "x = (k, f)" by (cases x)
  have "command_of (signed_char pf) l = key_command k f"
    using command_of_line(1) x by (simp add: kf command_key_def)
  then have ok: "command_of (signed_char pf) l \<noteq> Bad" using x by (auto simp: kf command_key_def key_command_def)
  show ?thesis
  proof (cases "decode_user_input pf now (line_buffer l []) (global_cube_state v) (server_mem v)")
    case (Inl e)
    then have "v' = v\<lparr>crashed := Some e\<rparr>" using st l by (simp add: listener_step_def listener_apply_def)
    then show ?thesis by (simp add: l)
  next
    case (Inr r)
    have "l \<noteq> []" using ln l i by (simp add: lines_ok_def)
    then have "quota (server_mem v) \<le> quota (snd r) + 930"
      using decode_user_input_wp [OF rng _ _ _ ok, of "server_mem v" "global_cube_state v" V now "[]"] h Inr
      by (cases "930 \<le> quota (server_mem v)") (auto simp: holds_def runs_to_def)
    then show ?thesis using st l Inr sh i
      by (auto simp: listener_step_def listener_apply_def set_listener_def shape_def unheard_def)
  qed
qed

section \<open>Every step keeps the accounts\<close>

lemma broadcast_step_account:
  assumes V: "server_inv V v" and st: "broadcast_step v = Some v'" and k: "k < N_FACES"
  shows "length (written (to_client v' ! k)) + 55 * (coming k (broadcaster v') + broadcast_message_ready v') =
    length (written (to_client v ! k)) + 55 * (coming k (broadcaster v) + broadcast_message_ready v)"
    and "quota (server_mem v') = quota (server_mem v)"
proof -
  have h: "holds V v" using V by (simp add: server_inv_def)
  have "length (written (to_client v' ! k)) + 55 * (coming k (broadcaster v') + broadcast_message_ready v') =
      length (written (to_client v ! k)) + 55 * (coming k (broadcaster v) + broadcast_message_ready v) \<and>
    quota (server_mem v') = quota (server_mem v)"
  proof (cases "broadcaster v")
    case Holding
    obtain t where "broadcast_encode v = Some (v\<lparr>server_mem := printed t (server_mem v), broadcaster := Encoded (cube_line V)\<rparr>)"
      using broadcast_encode_eq [OF h] by auto
    then show ?thesis using st Holding by (auto simp: broadcast_step_def coming_def printed_def)
  next
    case (Sending m j)
    obtain W where W: "solvable W" "m = cube_line W" using V Sending by (auto simp: server_inv_def casts_def)
    then have "length m = 55" using cubes.enc_size by simp
    then show ?thesis using st Sending k server_inv_shape [OF V]
      by (cases "j = k") (auto simp: broadcast_step_def coming_def server_print_def printed_def pipe_write_def fputs_def
        nth_list_update split: if_splits)
  qed (use st in \<open>auto simp: broadcast_step_def coming_def server_print_def printed_def split: if_splits\<close>)
  then show "length (written (to_client v' ! k)) + 55 * (coming k (broadcaster v') + broadcast_message_ready v') =
      length (written (to_client v ! k)) + 55 * (coming k (broadcaster v) + broadcast_message_ready v)"
    and "quota (server_mem v') = quota (server_mem v)" by simp_all
qed

definition accounts :: "nat \<Rightarrow> echo_server \<Rightarrow> bool" where
  "accounts Q v \<longleftrightarrow> frugal Q v \<and> (\<forall>k<N_FACES. tally k v)"

lemma accounts_server:
  assumes inv: "system_inv sg s" and rng: "rng_ok (rand_r pf)" and st: "internal_step pf (server s) v"
    and ac: "accounts Q (server s)"
  shows "accounts Q v"
proof -
  let ?u = "server s"
  obtain V where V: "server_inv V ?u" using inv by (auto simp: system_inv_def)
  have sh: "shape ?u" using V by (simp add: server_inv_def)
  from st show ?thesis
  proof (rule internal_stepE)
    fix i now assume i: "i < N_FACES" and l: "listener_step pf now i ?u = Some v"
    obtain ys j where ch: "commands.channel (to_server ?u ! i) ys j" and com: "commanding (listeners ?u ! i)"
      using inv i by (auto simp: system_inv_def link_inv_def up_link_def)
    have o: "j \<noteq> i \<Longrightarrow> to_server v ! j = to_server ?u ! j \<and> listeners v ! j = listeners ?u ! j" for j
      using listener_step_pipes(1) [OF sh i l] .
    have "(\<Sum>j<N_FACES. pending (listeners v ! j)) + pending (listeners ?u ! i) =
        (\<Sum>j<N_FACES. pending (listeners ?u ! j)) + pending (listeners v ! i)"
      and u: "(\<Sum>j<N_FACES. unheard (listeners v ! j)) + unheard (listeners ?u ! i) =
        (\<Sum>j<N_FACES. unheard (listeners ?u ! j)) + unheard (listeners v ! i)"
      and t: "commands_taken v + taken (to_server ?u ! i) div 3 = commands_taken ?u + taken (to_server v ! i) div 3"
      unfolding commands_taken_def by (rule sum_swap [OF i]; use o in simp)+
    with listener_step_account [OF sh i l ch] listener_frame(1,2) [OF l]
    have d: "due k v + commands_taken ?u = due k ?u + commands_taken v" for k by (simp add: due_def)
    have "tally k v" if k: "k < N_FACES" for k
    proof -
      have "length (written (to_client ?u ! k)) + 55 * due k ?u = 55 * commands_taken ?u"
        using ac k by (simp add: accounts_def tally_def)
      then show ?thesis
        unfolding tally_def listener_frame(2) [OF l] using d [of k] by linarith
    qed
    moreover have "frugal Q v"
      using ac u t listener_step_quota [OF V rng i l com ch] by (simp add: accounts_def frugal_def)
    ultimately show ?thesis by (simp add: accounts_def)
  next
    assume b: "broadcast_step ?u = Some v"
    have "to_server v = to_server ?u \<and> listeners v = listeners ?u" by (rule broadcast_step_pipes(1) [OF V b])
    moreover have "tally k v" if k: "k < N_FACES" for k
    proof -
      have "length (written (to_client ?u ! k)) + 55 * due k ?u = 55 * commands_taken ?u"
        using ac k by (simp add: accounts_def tally_def)
      with calculation show ?thesis using broadcast_step_account(1) [OF V b k]
        by (simp add: tally_def due_def commands_taken_def)
    qed
    moreover have "quota (server_mem v) = quota (server_mem ?u)" by (rule broadcast_step_account(2) [OF V b, of 0]) simp
    ultimately show ?thesis using ac by (simp add: accounts_def frugal_def commands_taken_def)
  qed
qed

lemma accounts_cong:
  assumes "accounts Q v" and "listeners v' = listeners v" and "broadcaster v' = broadcaster v"
    and "broadcast_message_ready v' = broadcast_message_ready v" and "server_mem v' = server_mem v"
    and "\<And>i. i < N_FACES \<Longrightarrow> taken (to_server v' ! i) = taken (to_server v ! i)"
    and "\<And>i. i < N_FACES \<Longrightarrow> written (to_client v' ! i) = written (to_client v ! i)"
  shows "accounts Q v'"
  using assms by (simp add: accounts_def frugal_def tally_def due_def commands_taken_def)

lemma relay_step_sink: "relay_step r src dst = Some (r', src', dst') \<Longrightarrow> taken dst' = taken dst"
  by (auto simp: relay_step_def pipe_write_def split: relay.splits option.splits sum.splits if_splits)

lemma accounts_system:
  assumes inv: "system_inv sg s" and rng: "rng_ok (rand_r pf)" and st: "system_step pf sg s s'"
    and ac: "accounts Q (server s)"
  shows "accounts Q (server s')"
  using st
proof (rule system_stepE)
  fix v assume "internal_step pf (server s) v" "s' = s\<lparr>server := v\<rparr>"
  then show ?thesis using accounts_server [OF inv rng _ ac] by simp
next
  fix i assume i: "i < N_FACES" "pipe_reader_step i s = Some s'"
  then have "\<exists>src r dst. relay_step (pipe_readers s ! i) (to_client (server s) ! i) (inbox (clients s ! i)) =
      Some (r, src, dst) \<and> server s' = (server s)\<lparr>to_client := (to_client (server s))[i := src]\<rparr>"
    by (auto simp: pipe_reader_step_def set_client_def split: option.splits if_splits)
  then show ?thesis using relay_step_source(1) inv server_inv_shape i(1)
    by (auto intro!: accounts_cong [OF ac] simp: nth_list_update system_inv_def)
next
  fix i assume i: "i < N_FACES" "socket_reader_step i s = Some s'"
  then have "\<exists>src r dst. relay_step (socket_readers s ! i) (outbox (clients s ! i)) (to_server (server s) ! i) =
      Some (r, src, dst) \<and> server s' = (server s)\<lparr>to_server := (to_server (server s))[i := dst]\<rparr>"
    by (auto simp: socket_reader_step_def set_client_def split: option.splits if_splits)
  then show ?thesis using relay_step_sink inv server_inv_shape i(1)
    by (auto intro!: accounts_cong [OF ac] simp: nth_list_update system_inv_def)
qed (use inv server_inv_shape in \<open>auto intro!: accounts_cong [OF ac] simp: set_client_def close_to_server_def
  break_to_client_def nth_list_update system_inv_def\<close>)

lemma accounts_outside: "outside_step s s' \<Longrightarrow> accounts Q (server s) \<Longrightarrow> accounts Q (server s')"
  by (auto simp: set_client_def elim!: outside_stepE)

lemma accounts_reachable:
  assumes rng: "rng_ok (rand_r pf)" and inv: "system_inv sg s0" and ac: "accounts Q (server s0)"
    and r: "system_reachable pf sg s0 s"
  shows "accounts Q (server s)"
  using r
proof (induction rule: system_reachable.induct)
  case start
  show ?case by (rule ac)
next
  case (internal s s')
  then show ?case using accounts_system [OF system_inv_reachable [OF rng inv] rng] by blast
next
  case (outside s s')
  then show ?case using accounts_outside by blast
qed

lemma accounts_start: "accounts (quota h) (server (system_start fds h p as))"
  by (simp add: accounts_def frugal_def tally_def due_def commands_taken_def system_start_def server_start_def
    fresh_pipe_def coming_def pending_def unheard_def)

end
