(* ===== verification/Jam.thy ===== *)
theory Jam
  imports Full_Pipes Tally
begin

text \<open>
  However large the pipes are, a run can fill one that nobody reads: the user of the second client ends
  it while its process has a message in its hands, so the process is ended too; the pipe to it does
  not break, because the first client's process has inherited its end; and every command of the
  first client sends a message into it, until one does not fit.
\<close>

section \<open>One client that plays\<close>

text \<open>The first client has sent \<open>n\<close> commands and goes on, the second has ended, nobody else has pressed a key.\<close>

definition lone :: "nat \<Rightarrow> system \<Rightarrow> bool" where
  "lone n s \<longleftrightarrow> stopped (clients s ! 0) = None \<and> keyer (clients s ! 0) \<noteq> Left \<and>
     (\<exists>f. cube_face_id (args (clients s ! 0)) = Some f) \<and>
     length (socket_out (args (clients s ! 0))) = 3 * n \<and>
     (\<forall>i<N_FACES. 0 < i \<longrightarrow> socket_out (args (clients s ! i)) = []) \<and>
     stopped (clients s ! 1) \<noteq> None \<and> \<not> outbox_closed (clients s ! 1)"

lemma client_internal_frame:
  assumes "client_internal sg c c'"
  shows "cube_face_id (args c') = cube_face_id (args c)" and "keyer c' = Left \<Longrightarrow> keyer c = Left"
    and "stopped c = None"
proof -
  note defs = run_args_def sem_post_def wait_one_def read_face_def decode_one_def draw_one_def
    with_client_def on_client_def prog_simps
  have "cube_face_id (args c') = cube_face_id (args c) \<and> (keyer c' = Left \<longrightarrow> keyer c = Left) \<and> stopped c = None"
    using assms
  proof (rule client_internalE)
    assume "post_step c = Some c'" "stopped c = None"
    then show ?thesis by (auto simp: post_step_def defs split: if_splits)
  next
    assume "receiver_step sg c = Some c'" "stopped c = None"
    then show ?thesis
      by (auto simp: receiver_step_def defs split: receiver.splits option.splits if_splits sum.splits)
  next
    assume "viewer_step c = Some c'" "stopped c = None"
    then show ?thesis
      by (auto simp: viewer_step_def defs split: viewer.splits option.splits if_splits sum.splits)
  qed
  then show "cube_face_id (args c') = cube_face_id (args c)" "keyer c' = Left \<Longrightarrow> keyer c = Left"
    "stopped c = None" by simp_all
qed

lemma lone_client:
  assumes inv: "system_inv sg s" and i: "i < N_FACES" and st: "client_internal sg (clients s ! i) c" and l: "lone n s"
  shows "lone n (set_client i c s)"
proof -
  have sz: "sizes s" using inv by (simp add: system_inv_def)
  obtain ys j where ci: "client_inv sg ys j (clients s ! i)"
    using inv i by (auto simp: system_inv_def link_inv_def down_link_def)
  note fr = client_internal_frame [OF st]
  have o: "socket_out (args c) = socket_out (args (clients s ! i))" "outbox_closed c = outbox_closed (clients s ! i)"
    using client_internal_outbox [OF st] by (simp_all add: outbox_def)
  have "stopped c = None" if "i = 0"
    using client_internal_stops [OF ci st] l that by (cases "stopped c") (auto simp: lone_def)
  moreover have "i \<noteq> 1" using l fr(3) by (auto simp: lone_def)
  ultimately show ?thesis
    using l o fr(1,2) i by (cases "i = 0") (auto simp: lone_def clients_set_client [OF _ sz])
qed

lemma lone_cong:
  assumes "\<And>i. i < N_FACES \<Longrightarrow> stopped (clients s' ! i) = stopped (clients s ! i) \<and>
    keyer (clients s' ! i) = keyer (clients s ! i) \<and> args (clients s' ! i) = args (clients s ! i) \<and>
    outbox_closed (clients s' ! i) = outbox_closed (clients s ! i)"
  shows "lone n s' \<longleftrightarrow> lone n s"
  using assms by (simp add: lone_def)

lemma lone_step:
  assumes inv: "system_inv sg s" and st: "system_step pf sg s s'" and l: "lone n s"
  shows "lone n s'"
proof -
  have sz: "sizes s" using inv by (simp add: system_inv_def)
  show ?thesis
    using st
  proof (rule system_stepE)
    fix i c assume "i < N_FACES" "client_internal sg (clients s ! i) c" "s' = set_client i c s"
    then show ?thesis using lone_client [OF inv _ _ l] by simp
  next
    fix i assume "i < N_FACES" "pipe_reader_step i s = Some s'"
    then show ?thesis using l sz
      by (subst lone_cong [of _ s]) (auto simp: pipe_reader_step_def set_client_def sizes_def nth_list_update
        split: option.splits if_splits)
  next
    fix i assume "i < N_FACES" "socket_reader_step i s = Some s'"
    then show ?thesis using l sz
      by (subst lone_cong [of _ s]) (auto simp: socket_reader_step_def set_client_def sizes_def nth_list_update
        split: option.splits if_splits)
  qed (use l in \<open>simp_all add: lone_def\<close>)
qed

text \<open>The first client's process is there, so the server runs as long as there is memory.\<close>

lemma running_there: "system_inv sg s \<Longrightarrow> i < N_FACES \<Longrightarrow> stopped (clients s ! i) = None \<Longrightarrow> \<not> facing_gone s ! i"
  by (auto simp: system_inv_def link_inv_def up_link_def ends_ok_def)

lemma lone_there: "system_inv sg s \<Longrightarrow> lone n s \<Longrightarrow> \<not> facing_gone s ! 0"
  using running_there [of sg s 0] by (simp add: lone_def)

lemma lone_commands:
  assumes inv: "system_inv sg s" and l: "lone n s"
  shows "commands_taken (server s) \<le> n"
proof -
  have le: "taken (to_server (server s) ! i) \<le> length (socket_out (args (clients s ! i)))" if i: "i < N_FACES" for i
  proof -
    obtain xs k ys j where u: "commands.channel (outbox (clients s ! i)) xs k"
      and q: "passed_on command_line (socket_readers s ! i) xs k ys"
      and v: "commands.channel (to_server (server s) ! i) ys j"
      using inv i by (auto simp: system_inv_def link_inv_def up_link_def)
    have "length ys \<le> length xs" using passed_on_prefix [OF q] by (rule prefix_length_le)
    moreover have "length (socket_out (args (clients s ! i))) = 3 * length xs"
      using u commands.text_size [of xs] by (simp add: carries_def outbox_def)
    ultimately show ?thesis using v by (auto simp: carries_def)
  qed
  have "taken (to_server (server s) ! i) div 3 \<le> (if i = 0 then n else 0)" if "i < N_FACES" for i
    using le [OF that] l that by (cases "i = 0") (auto simp: lone_def)
  then have "commands_taken (server s) \<le> (\<Sum>i<N_FACES. if i = 0 then n else 0)"
    unfolding commands_taken_def by (intro sum_mono) simp
  then show ?thesis by (simp add: sum.delta)
qed

lemma lone_runs:
  assumes inv: "system_inv sg s" and rng: "rng_ok (rand_r pf)" and st: "system_step pf sg s s'" and l: "lone n s"
    and ac: "accounts Q (server s)" and Q: "930 * n + 930 \<le> Q" and cr: "crashed (server s) = None"
  shows "crashed (server s') = None"
proof -
  have "Q \<le> quota (server_mem (server s)) + 930 * n"
    using ac lone_commands [OF inv l] by (simp add: accounts_def frugal_def)
  then have q: "930 \<le> quota (server_mem (server s))" using Q by simp
  show ?thesis
    using st
  proof (rule system_stepE)
    fix v assume "internal_step pf (server s) v" "s' = s\<lparr>server := v\<rparr>"
    then show ?thesis using system_crash_cause [OF inv rng] lone_there [OF inv l] q
      by (cases "crashed v") auto
  qed (use cr in \<open>auto simp: set_client_def pipe_reader_step_def socket_reader_step_def close_to_server_def
    break_to_client_def split: option.splits if_splits\<close>)
qed

section \<open>Runs\<close>

definition playing :: "nat \<Rightarrow> bool \<Rightarrow> nat \<Rightarrow> nat \<Rightarrow> system \<Rightarrow> bool" where
  "playing cap sg Q n s \<longleftrightarrow> system_inv sg s \<and> fits cap s \<and> accounts Q (server s) \<and> crashed (server s) = None \<and>
     lone n s"

lemma playing_step:
  assumes "playing cap sg Q n s" and rng: "rng_ok (rand_r pf)" and "930 * n + 930 \<le> Q"
    and "capped_step cap pf sg s s'"
  shows "playing cap sg Q n s'"
proof -
  have st: "system_step pf sg s s'" "fits cap s'" using assms(4) by (simp_all add: capped_step_iff)
  have p: "system_inv sg s" "accounts Q (server s)" "crashed (server s) = None" "lone n s"
    using assms(1) by (simp_all add: playing_def)
  show ?thesis
    using system_inv_step [OF p(1) rng st(1)] accounts_system [OF p(1) rng st(1) p(2)] lone_step [OF p(1) st(1) p(4)]
      lone_runs [OF p(1) rng st(1) p(4) p(2) assms(3) p(3)] st(2) by (simp add: playing_def)
qed

lemma playing_run:
  assumes "(capped_step cap pf sg)\<^sup>*\<^sup>* s s'" and "playing cap sg Q n s" and "rng_ok (rand_r pf)"
    and "930 * n + 930 \<le> Q"
  shows "playing cap sg Q n s'"
  using assms(1) by (induction rule: rtranclp_induct) (use assms(2-4) playing_step in blast)+

text \<open>When such a run comes to rest without a jam, each command has been answered, and the first client waits
  for a key.\<close>

lemma at_rest_answered:
  assumes "accounts Q v" and "resting v" and k: "k < N_FACES"
  shows "length (written (to_client v ! k)) = 55 * commands_taken v"
proof -
  have "pending (listeners v ! i) = 0" if "i < N_FACES" for i
    using assms(2) that by (auto simp: resting_def pending_def)
  then have "(\<Sum>i<N_FACES. pending (listeners v ! i)) = 0" by simp
  then have "due k v = 0" using assms(2) unfolding due_def by (simp add: resting_def coming_def)
  moreover have "length (written (to_client v ! k)) + 55 * due k v = 55 * commands_taken v"
    using assms(1) k by (simp add: accounts_def tally_def)
  ultimately show ?thesis by simp
qed

lemma playing_rest:
  assumes p: "playing cap sg Q n s" and st: "capped_stuck cap pf sg s" and cap: "55 \<le> cap"
    and nj: "\<forall>k. \<not> jammed cap s k"
  shows "system_stuck pf sg s" and "keyer (clients s ! 0) = At_Getch" and "unread (outbox (clients s ! 0)) = []"
    and "k < N_FACES \<Longrightarrow> length (written (to_client (server s) ! k)) = 55 * n"
proof -
  have inv: "system_inv sg s" and f: "fits cap s" and ac: "accounts Q (server s)" and cr: "crashed (server s) = None"
    and l: "lone n s" using p by (simp_all add: playing_def)
  have run: "stopped (clients s ! 0) = None" using l by (simp add: lone_def)
  show ss: "system_stuck pf sg s" using capped_stuck_cases [OF inv f cap st cr] nj by blast
  have "client_stuck sg (clients s ! 0)" using system_stuckD(2) [OF ss _ run] by simp
  from client_stuck_resting(1) [OF this] show "keyer (clients s ! 0) = At_Getch"
    using l by (cases "keyer (clients s ! 0)") (simp_all add: lone_def)
  have "link_inv sg s 0" using inv by (simp add: system_inv_def)
  then obtain xs d ys j where u: "commands.channel (outbox (clients s ! 0)) xs d"
    and v: "commands.channel (to_server (server s) ! 0) ys j"
    and e: "ends_ok (clients s ! 0) (socket_readers s ! 0) (facing_gone s ! 0) (to_server (server s) ! 0)
      (listeners (server s) ! 0)"
    by (auto simp: link_inv_def up_link_def)
  have "relay_step (socket_readers s ! 0) (outbox (clients s ! 0)) (to_server (server s) ! 0) = None"
    using system_stuckD(4) [OF ss, of 0] lone_there [OF inv l]
    by (auto simp: socket_reader_step_def split: option.splits)
  from relay_step_None [OF this] have "newline \<notin> set (unread (outbox (clients s ! 0)))"
    using run e by (auto simp: ends_ok_def)
  then have "d = length xs" by (rule commands.channel_drained [OF u])
  then show "unread (outbox (clients s ! 0)) = []" using commands.channel_unread [OF u] by simp
  have z: "0 < N_FACES" by simp
  note up = rest_up [OF inv ss cr z run]
  then have un: "unread (to_server (server s) ! 0) = []" ..
  from up have "written (to_server (server s) ! 0) = socket_out (args (clients s ! 0))" ..
  then have len: "length (written (to_server (server s) ! 0)) = 3 * n" using l by (simp add: lone_def)
  have "\<forall>x\<in>set ys. command_key x" "written (to_server (server s) ! 0) = concat (map command_line ys)"
    "taken (to_server (server s) ! 0) = 3 * j" "j \<le> length ys" using v by (simp_all add: carries_def)
  then have "taken (to_server (server s) ! 0) = 3 * n"
    using len un commands.text_size [of ys] by (simp add: unread_def)
  moreover have "taken (to_server (server s) ! 0) div 3 \<le> commands_taken (server s)"
    unfolding commands_taken_def by (rule member_le_sum) auto
  ultimately have n: "commands_taken (server s) = n" using lone_commands [OF inv l] by simp
  obtain V where "server_inv V (server s)" using inv by (auto simp: system_inv_def)
  then have "resting (server s)"
    using stuck_resting [OF _ system_stuckD(1) [OF ss cr]] by (simp add: server_inv_def)
  then show "k < N_FACES \<Longrightarrow> length (written (to_client (server s) ! k)) = 55 * n"
    using at_rest_answered [OF ac] n by simp
qed

text \<open>The next command.\<close>

lemma playing_key:
  assumes p: "playing cap sg Q n s" and cap: "3 \<le> cap" and k: "keyer (clients s ! 0) = At_Getch"
    and u: "unread (outbox (clients s ! 0)) = []"
  shows "\<exists>c. outside_step s (set_client 0 c s) \<and> playing cap sg Q (n + 1) (set_client 0 c s)"
proof -
  let ?c = "clients s ! 0"
  have inv: "system_inv sg s" and f: "fits cap s" and l: "lone n s" using p by (simp_all add: playing_def)
  have sz: "sizes s" using inv by (simp add: system_inv_def)
  have run: "stopped ?c = None" using l by (simp add: lone_def)
  have "link_inv sg s 0" using inv by (simp add: system_inv_def)
  then obtain V where ok: "client_ok (args ?c) V" by (auto simp: link_inv_def down_link_def client_inv_def)
  moreover obtain g where g: "cube_face_id (args ?c) = Some g" using l by (auto simp: lone_def)
  ultimately have "cube_face_id (args ?c) = Some (int (nat g))" by (simp add: client_ok_def)
  note key = press_key_command [OF ok this, of KEY_a]
  let ?L = "command_line (KEY_a, nat g)"
  let ?d = "key_step KEY_a ?c"
  let ?s = "set_client 0 ?d s"
  have d: "?d = ?c\<lparr>args := (args ?c)\<lparr>msg := map Some ?L @ [Some nul], socket_out := fputs ?L (socket_out (args ?c))\<rparr>,
      keyer := At_Getch\<rparr>"
    using key by (simp add: key_step_def run_args_def)
  have st: "outside_step s ?s" by (rule outside_step.key [OF _ run k]) simp
  have o: "clients ?s ! i = (if i = 0 then ?d else clients s ! i)" if "i < N_FACES" for i
    using clients_set_client [OF that sz] by simp
  have v: "server ?s = server s" by (simp add: set_client_def)
  have "length (unread (outbox ?d)) \<le> cap"
    using u cap by (simp add: d outbox_def unread_def fputs_def command_line_def)
  moreover have "inbox ?d = inbox ?c" by (simp add: d)
  ultimately have "fits cap ?s" using f by (simp add: fits_def o v)
  moreover have "lone (n + 1) ?s" using l by (simp add: lone_def o) (simp add: d fputs_def command_line_def)
  moreover have "system_inv sg ?s" by (rule system_inv_outside [OF inv st])
  ultimately show ?thesis using st p by (intro exI [of _ ?d]) (simp add: playing_def v)
qed

section \<open>The process of the second client is ended\<close>

definition lost :: "system \<Rightarrow> bool" where
  "lost s \<longleftrightarrow> facing_gone s ! 1 \<and> taken (to_client (server s) ! 1) \<le> 55"

lemma taken_update: "taken q = taken (xs ! i) \<Longrightarrow> taken (xs[i := q] ! k) = taken (xs ! k)"
  by (cases "i < length xs"; cases "i = k") (simp_all add: list_update_beyond)

lemma broadcast_step_taken:
  "broadcast_step v = Some v' \<Longrightarrow> taken (to_client v' ! k) = taken (to_client v ! k)"
  by (cases "broadcaster v") (auto simp: broadcast_step_def broadcast_defs pipe_write_def taken_update
    split: if_splits sum.splits)

lemma server_step_taken:
  "internal_step pf v v' \<Longrightarrow> taken (to_client v' ! k) = taken (to_client v ! k)"
  by (erule internal_stepE) (simp_all add: listener_frame(2) broadcast_step_taken)

lemma second_waits:
  assumes st: "system_step pf sg s s'" and "\<forall>l. pipe_readers s ! 1 \<noteq> Carrying l \<or> facing_gone s ! 1"
    and "pipe_reader_step 1 s \<noteq> Some s'"
  shows "facing_gone s' ! 1 = facing_gone s ! 1 \<and> pipe_readers s' ! 1 = pipe_readers s ! 1 \<and>
    taken (to_client (server s') ! 1) = taken (to_client (server s) ! 1)"
  using st
proof (rule system_stepE)
  fix v assume "internal_step pf (server s) v" "s' = s\<lparr>server := v\<rparr>"
  then show ?thesis using server_step_taken by simp
next
  fix i assume i: "pipe_reader_step i s = Some s'"
  then have "i \<noteq> 1" using assms(3) by auto
  then show ?thesis using i
    by (auto simp: pipe_reader_step_def set_client_def split: option.splits if_splits)
next
  fix i assume i: "socket_reader_step i s = Some s'"
  then show ?thesis by (auto simp: socket_reader_step_def set_client_def split: option.splits if_splits)
next
  fix i l assume i: "pipe_readers s ! i = Carrying l" "\<not> facing_gone s ! i" "s' = s\<lparr>facing_gone := (facing_gone s)[i := True]\<rparr>"
  then have "i \<noteq> 1" using assms(2) by auto
  then show ?thesis by (simp add: i)
qed (auto simp: set_client_def close_to_server_def break_to_client_def taken_update)

lemma lost_step:
  assumes st: "capped_step cap pf sg s s'" and l: "lost s"
  shows "lost s'"
proof -
  have "pipe_reader_step 1 s \<noteq> Some s'" using l by (simp add: pipe_reader_step_def lost_def)
  then show ?thesis using second_waits [of pf sg s s'] st l by (auto simp: capped_step_iff lost_def)
qed

lemma lost_run: "(capped_step cap pf sg)\<^sup>*\<^sup>* s s' \<Longrightarrow> lost s \<Longrightarrow> lost s'"
  by (induction rule: rtranclp_induct) (auto intro: lost_step)

definition unserved :: "system \<Rightarrow> bool" where
  "unserved s \<longleftrightarrow> pipe_readers s ! 1 = Reading \<and> \<not> facing_gone s ! 1 \<and> taken (to_client (server s) ! 1) = 0"

definition serving :: "system \<Rightarrow> bool" where
  "serving s \<longleftrightarrow> \<not> facing_gone s ! 1 \<and> (\<exists>l. pipe_readers s ! 1 = Carrying l)"

lemma second_serves:
  assumes run: "(capped_step cap pf sg)\<^sup>*\<^sup>* s s'" and u: "unserved s" and p: "playing cap sg Q n s"
    and rng: "rng_ok (rand_r pf)" and Q: "930 * n + 930 \<le> Q"
  shows "unserved s' \<or> (\<exists>t. (capped_step cap pf sg)\<^sup>*\<^sup>* s t \<and> serving t)"
  using run
proof (induction rule: rtranclp_induct)
  case base
  show ?case using u by simp
next
  case (step t t')
  show ?case
  proof (cases "unserved t")
    case True
    have st: "system_step pf sg t t'" using step.hyps(2) by (simp add: capped_step_iff)
    have run: "(capped_step cap pf sg)\<^sup>*\<^sup>* s t'" using step.hyps by (rule rtranclp.rtrancl_into_rtrancl)
    show ?thesis
    proof (cases "pipe_reader_step 1 t = Some t'")
      case True
      have inv: "system_inv sg t'" using playing_run [OF run p rng Q] by (simp add: playing_def)
      then have "link_inv sg t' 1" by (simp add: system_inv_def)
      then have "pipe_readers t' ! 1 \<noteq> Finished" by (auto simp: link_inv_def down_link_def open_ok_def)
      moreover have "length (pipe_readers t') = N_FACES" using inv by (simp add: system_inv_def sizes_def)
      ultimately have "serving t'"
        using True \<open>unserved t\<close> by (auto simp: serving_def unserved_def pipe_reader_step_def relay_step_def
          set_client_def split: option.splits if_splits)
      with run show ?thesis by blast
    next
      case False
      with second_waits [OF st _ False] \<open>unserved t\<close> show ?thesis by (auto simp: unserved_def)
    qed
  qed (use step.IH in blast)
qed

lemma unserved_moves:
  assumes p: "playing cap sg Q n s" and st: "capped_stuck cap pf sg s" and cap: "55 \<le> cap"
    and nj: "\<forall>k. \<not> jammed cap s k" and n: "0 < n"
  shows "\<not> unserved s"
proof
  assume u: "unserved s"
  have inv: "system_inv sg s" using p by (simp add: playing_def)
  have i: "1 < N_FACES" by simp
  have len: "length (written (to_client (server s) ! 1)) = 55 * n" by (rule playing_rest(4) [OF p st cap nj i])
  have "link_inv sg s 1" using inv by (simp add: system_inv_def)
  then obtain Vs k where ch: "cubes.channel (to_client (server s) ! 1) Vs k" by (auto simp: link_inv_def down_link_def)
  have "pipe_reader_step 1 s = None" by (rule system_stuckD(3) [OF playing_rest(1) [OF p st cap nj] i])
  then have "relay_step (pipe_readers s ! 1) (to_client (server s) ! 1) (inbox (clients s ! 1)) = None"
    using u by (auto simp: pipe_reader_step_def unserved_def split: option.splits)
  from relay_step_None [OF this] u have "newline \<notin> set (unread (to_client (server s) ! 1))"
    by (simp add: unserved_def)
  then have "k = length Vs" by (rule cubes.channel_drained [OF ch])
  then have "unread (to_client (server s) ! 1) = []" using cubes.channel_unread [OF ch] by simp
  then show False using u len n by (simp add: unread_def unserved_def)
qed

lemma serving_lost:
  assumes p: "playing cap sg Q 1 s" and sv: "serving s"
  shows "\<exists>s'. capped_step cap pf sg s s' \<and> lost s'"
proof -
  obtain l where l: "pipe_readers s ! 1 = Carrying l" and g: "\<not> facing_gone s ! 1" using sv by (auto simp: serving_def)
  have inv: "system_inv sg s" and f: "fits cap s" and ac: "accounts Q (server s)" and lo: "lone 1 s"
    using p by (simp_all add: playing_def)
  have link: "link_inv sg s 1" and sz: "sizes s" using inv by (simp_all add: system_inv_def)
  obtain V where V: "server_inv V (server s)" using inv by (auto simp: system_inv_def)
  let ?s = "s\<lparr>facing_gone := (facing_gone s)[1 := True]\<rparr>"
  have "socket_readers s ! 1 \<noteq> Finished"
    using link lo by (auto simp: link_inv_def up_link_def ends_ok_def outbox_def lone_def)
  then have "system_step pf sg s ?s" using g l lo by (intro system_step.sigpipe) (auto simp: lone_def)
  then have "capped_step cap pf sg s ?s" using fits_ends(3) [OF f V, of 0] by (simp add: capped_step_iff)
  moreover have "taken (to_client (server s) ! 1) \<le> 55"
  proof -
    obtain Vs k where ch: "cubes.channel (to_client (server s) ! 1) Vs k"
      using link by (auto simp: link_inv_def down_link_def)
    have "\<forall>V\<in>set Vs. solvable V" "written (to_client (server s) ! 1) = concat (map cube_line Vs)"
      "taken (to_client (server s) ! 1) = 55 * k" "k \<le> length Vs" using ch by (simp_all add: carries_def)
    then have "taken (to_client (server s) ! 1) \<le> length (written (to_client (server s) ! 1))"
      using cubes.text_size [of Vs] by simp
    moreover have "tally 1 (server s)" using ac by (simp add: accounts_def)
    then have "length (written (to_client (server s) ! 1)) \<le> 55 * commands_taken (server s)" by (simp add: tally_def)
    ultimately show ?thesis using lone_commands [OF inv lo] by linarith
  qed
  ultimately show ?thesis using sz by (intro exI [of _ ?s]) (simp add: lost_def sizes_def)
qed

section \<open>The jam\<close>

text \<open>From the loss of the second process on: as many commands as one likes, or a jam.\<close>

lemma first_command:
  assumes rng: "rng_ok (rand_r pf)" and cap: "55 \<le> cap" and Q: "930 * 1 + 930 \<le> Q"
    and s0: "playing cap sg Q 1 s0" "unserved s0"
  shows "\<exists>s. (capped_step cap pf sg)\<^sup>*\<^sup>* s0 s \<and> playing cap sg Q 1 s \<and>
    ((\<exists>k. jammed cap s k) \<or> (lost s \<and> capped_stuck cap pf sg s))"
proof -
  note settles = capped_settles [OF rng, where cap = cap]
  have inv0: "system_inv sg s0" using s0(1) by (simp add: playing_def)
  obtain s where s: "(capped_step cap pf sg)\<^sup>*\<^sup>* s0 s" "capped_stuck cap pf sg s" using settles [OF inv0] by blast
  have p: "playing cap sg Q 1 s" by (rule playing_run [OF s(1) s0(1) rng Q])
  show ?thesis
  proof (cases "\<exists>k. jammed cap s k")
    case False
    then have "\<not> unserved s" using unserved_moves [OF p s(2) cap] by simp
    then obtain t where t: "(capped_step cap pf sg)\<^sup>*\<^sup>* s0 t" "serving t"
      using second_serves [OF s(1) s0(2,1) rng Q] by blast
    have pt: "playing cap sg Q 1 t" by (rule playing_run [OF t(1) s0(1) rng Q])
    obtain t' where t': "capped_step cap pf sg t t'" "lost t'" using serving_lost [OF pt t(2)] by blast
    have run: "(capped_step cap pf sg)\<^sup>*\<^sup>* s0 t'" using t(1) t'(1) by (rule rtranclp.rtrancl_into_rtrancl)
    have "system_inv sg t'" using playing_run [OF run s0(1) rng Q] by (simp add: playing_def)
    then obtain u where u: "(capped_step cap pf sg)\<^sup>*\<^sup>* t' u" "capped_stuck cap pf sg u" using settles by blast
    have run': "(capped_step cap pf sg)\<^sup>*\<^sup>* s0 u" using run u(1) by (rule rtranclp_trans)
    show ?thesis using run' playing_run [OF run' s0(1) rng Q] lost_run [OF u(1) t'(2)] u(2) by blast
  qed (use p s(1) in blast)
qed

lemma next_command:
  assumes rng: "rng_ok (rand_r pf)" and cap: "55 \<le> cap" and Q: "930 * (n + 1) + 930 \<le> Q"
    and p: "playing cap sg Q n s" and l: "lost s" and st: "capped_stuck cap pf sg s" and nj: "\<forall>k. \<not> jammed cap s k"
    and r: "capped_reachable cap pf sg s0 s"
  shows "\<exists>u. capped_reachable cap pf sg s0 u \<and> playing cap sg Q (n + 1) u \<and> lost u \<and> capped_stuck cap pf sg u"
proof -
  have "3 \<le> cap" using cap by simp
  from playing_key [OF p this playing_rest(2,3) [OF p st cap nj]]
  obtain d where d: "outside_step s (set_client 0 d s)" "playing cap sg Q (n + 1) (set_client 0 d s)" by blast
  let ?t = "set_client 0 d s"
  have f: "fits cap ?t" and inv: "system_inv sg ?t" using d(2) by (simp_all add: playing_def)
  have t: "capped_reachable cap pf sg s0 ?t" by (rule capped_reachable.outside [OF r d(1) f])
  obtain u where u: "(capped_step cap pf sg)\<^sup>*\<^sup>* ?t u" "capped_stuck cap pf sg u"
    using capped_settles [OF rng inv, where cap = cap] by blast
  have "lost ?t" using l by (simp add: lost_def set_client_def)
  then have "lost u" by (rule lost_run [OF u(1)])
  moreover have "playing cap sg Q (n + 1) u" by (rule playing_run [OF u(1) d(2) rng Q])
  ultimately show ?thesis using capped_steps_reachable [OF u(1) t] u(2) by blast
qed

lemma many_commands:
  assumes rng: "rng_ok (rand_r pf)" and cap: "55 \<le> cap" and Q: "930 * (m + 2) \<le> Q" and "0 < n" and "n \<le> m"
    and s0: "playing cap sg Q 1 s0" "unserved s0"
  shows "\<exists>s n'. capped_reachable cap pf sg s0 s \<and> playing cap sg Q n' s \<and>
    ((\<exists>k. jammed cap s k) \<or> (n' = n \<and> lost s \<and> capped_stuck cap pf sg s))"
  using assms(4,5)
proof (induction n)
  case (Suc n)
  show ?case
  proof (cases "n = 0")
    case True
    have "fits cap s0" using s0(1) by (simp add: playing_def)
    moreover have "930 * 1 + 930 \<le> Q" using Q by simp
    ultimately show ?thesis
      using first_command [OF rng cap _ s0] True capped_steps_reachable [OF _ capped_reachable.start]
      by (metis One_nat_def)
  next
    case False
    then obtain s n' where s: "capped_reachable cap pf sg s0 s" "playing cap sg Q n' s"
      and c: "(\<exists>k. jammed cap s k) \<or> (n' = n \<and> lost s \<and> capped_stuck cap pf sg s)" using Suc by auto
    have q: "930 * (n + 1) + 930 \<le> Q" using Q Suc.prems by simp
    show ?thesis
    proof (cases "\<exists>k. jammed cap s k")
      case no: False
      then show ?thesis using next_command [OF rng cap q _ _ _ _ s(1)] c s(2) by (metis Suc_eq_plus1)
    qed (use s in blast)
  qed
qed simp

theorem jam_found:
  assumes rng: "rng_ok (rand_r pf)" and cap: "55 \<le> cap" and Q: "930 * (cap + 4) \<le> Q"
    and s0: "playing cap sg Q 1 s0" "unserved s0"
  shows "\<exists>s n k. capped_reachable cap pf sg s0 s \<and> playing cap sg Q n s \<and> jammed cap s k"
proof -
  have "930 * ((cap + 2) + 2) \<le> Q" using Q by simp
  from many_commands [OF rng cap this, of "cap + 2", OF _ _ s0]
  obtain s n' where s: "capped_reachable cap pf sg s0 s" "playing cap sg Q n' s"
    and c: "(\<exists>k. jammed cap s k) \<or> (n' = cap + 2 \<and> lost s \<and> capped_stuck cap pf sg s)" by auto
  show ?thesis
  proof (cases "\<exists>k. jammed cap s k")
    case True
    with s show ?thesis by blast
  next
    case no: False
    then have p: "playing cap sg Q (cap + 2) s" and l: "lost s" and st: "capped_stuck cap pf sg s" using c s(2) by auto
    have i: "1 < N_FACES" by simp
    have nj: "\<forall>k. \<not> jammed cap s k" using no by blast
    have "length (written (to_client (server s) ! 1)) = 55 * (cap + 2)" by (rule playing_rest(4) [OF p st cap nj i])
    moreover have "taken (to_client (server s) ! 1) \<le> 55" using l by (simp add: lost_def)
    ultimately have "cap < length (unread (to_client (server s) ! 1))" by (simp add: unread_def)
    moreover have "length (unread (to_client (server s) ! 1)) \<le> cap"
      using p fitsD(2) i by (auto simp: playing_def)
    ultimately show ?thesis by simp
  qed
qed

section \<open>The beginning of such a run\<close>

lemma fits_quiet:
  assumes "server s = server_start fds h p"
    and "\<And>i. i < N_FACES \<Longrightarrow> written (inbox (clients s ! i)) = [] \<and> socket_out (args (clients s ! i)) = []"
  shows "fits cap s"
  using assms(2) by (simp add: fits_def assms(1) server_start_def fresh_pipe_def unread_def outbox_def)

lemma lone_start:
  assumes st: "start_ok h p (replicate N_FACES a)" and a: "fresh_client a" and rng: "rng_ok (rand_r pf)"
  shows "\<exists>s. capped_reachable cap pf sg (system_start fds h p (replicate N_FACES a)) s \<and>
    playing cap sg (quota h) 0 s \<and> unserved s \<and> keyer (clients s ! 0) = At_Getch \<and>
    unread (outbox (clients s ! 0)) = []"
proof -
  let ?i = "system_start fds h p (replicate N_FACES a)"
  let ?a = "a\<lparr>cube_face_id := Some 0\<rparr>"
  let ?b = "?a\<lparr>update_view_semaphore := update_view_semaphore a + 1\<rparr>"
  let ?k = "(client_start a)\<lparr>stopped := Some (Signal ''SIGINT'')\<rparr>"
  let ?s1 = "set_client 1 ?k ?i" and ?c2 = "(client_start ?a)\<lparr>keyer := At_Post\<rparr>" and ?c3 = "client_start ?b"
  let ?s2 = "set_client 0 ?c2 ?s1" and ?s3 = "set_client 0 ?c3 ?s1"
  have fields: "stopped (client_start x) = None" "keyer (client_start x) = At_Getch" "args (client_start x) = x"
    "outbox_closed (client_start x) = False" "inbox (client_start x) = fresh_pipe" "outbox_taken (client_start x) = 0" for x
    by (simp_all add: client_start_def)
  have out: "socket_out a = []" using a by (simp add: fresh_client_def)
  have z: "sizes ?i" "sizes ?s1" "sizes ?s2" by (simp_all add: sizes_def system_start_def set_client_def)
  have i: "clients ?i ! j = client_start a" if "j < N_FACES" for j using that by (simp add: system_start_def)
  have c1: "clients ?s1 ! j = (if j = 1 then ?k else client_start a)" if "j < N_FACES" for j
    using clients_set_client [OF that z(1)] i [OF that] by simp
  have c2: "clients ?s2 ! j = (if j = 0 then ?c2 else if j = 1 then ?k else client_start a)" if "j < N_FACES" for j
    using clients_set_client [OF that z(2)] c1 [OF that] by simp
  have c3: "clients ?s3 ! j = (if j = 0 then ?c3 else if j = 1 then ?k else client_start a)" if "j < N_FACES" for j
    using clients_set_client [OF that z(2)] c1 [OF that] by simp
  have v: "server ?i = server_start fds h p" "server ?s1 = server_start fds h p" "server ?s2 = server_start fds h p"
    "server ?s3 = server_start fds h p" by (simp_all add: system_start_def set_client_def)
  have q: "written (inbox c) = [] \<and> socket_out (args c) = []" if "c \<in> {client_start a, ?k, ?c2, ?c3}" for c
    using that out by (auto simp: fields fresh_pipe_def)
  have f1: "fits cap ?i" by (rule fits_quiet [OF v(1)], simp only: i, rule q, simp)
  have f2: "fits cap ?s1" by (rule fits_quiet [OF v(2)], simp only: c1, rule q, simp)
  have f3: "fits cap ?s2" by (rule fits_quiet [OF v(3)], simp only: c2, rule q, simp)
  have f4: "fits cap ?s3" by (rule fits_quiet [OF v(4)], simp only: c3, rule q, simp)
  have "outside_step ?i (set_client 1 ((clients ?i ! 1)\<lparr>stopped := Some (Signal ''SIGINT'')\<rparr>) ?i)"
    by (rule outside_step.killed) (simp_all add: i fields)
  then have st1: "outside_step ?i ?s1" by (simp add: i)
  have "outside_step ?s1 (set_client 0 (key_step KEY_0 (clients ?s1 ! 0)) ?s1)"
    by (rule outside_step.key; (subst c1)?; simp add: fields)
  moreover have "key_step KEY_0 (client_start a) = ?c2"
    by (simp add: key_step_def run_args_def choose_face_def prog_simps client_start_def)
  ultimately have st2: "outside_step ?s1 ?s2" using c1 [of 0] by simp
  have "client_internal sg (clients ?s2 ! 0) ?c3"
    by (rule client_internal.post; subst c2; simp add: post_step_def run_args_def sem_post_def prog_simps client_start_def)
  then have "system_step pf sg ?s2 (set_client 0 ?c3 ?s2)" by (intro system_step.client) simp_all
  moreover have "set_client 0 ?c3 ?s2 = ?s3" by (simp add: set_client_def)
  ultimately have st3: "system_step pf sg ?s2 ?s3" by simp
  have r: "capped_reachable cap pf sg ?i ?s3"
    using capped_reachable.internal [OF capped_reachable.outside [OF capped_reachable.outside
      [OF capped_reachable.start [OF f1] st1 f2] st2 f3]] st3 f4 by (simp add: capped_step_iff)
  have "system_inv sg ?i" using system_inv_start st by (simp add: start_ok_def)
  then have inv: "system_inv sg ?s3" by (rule capped_reachable_inv [OF _ rng r])
  have "lone 0 ?s3" using out c3 by (simp add: lone_def fields)
  moreover have "accounts (quota h) (server ?s3)" unfolding v(4) using accounts_start [of h fds p "[]"] by (simp add: system_start_def)
  moreover have "crashed (server ?s3) = None" unfolding v(4) by (simp add: server_start_def)
  ultimately have p: "playing cap sg (quota h) 0 ?s3" using inv f4 by (simp add: playing_def)
  have z: "(0::nat) < N_FACES" by simp
  have k: "keyer (clients ?s3 ! 0) = At_Getch" "unread (outbox (clients ?s3 ! 0)) = []"
    unfolding c3 [OF z] using out by (simp_all add: client_start_def outbox_def unread_def)
  have "unserved ?s3"
    by (simp add: unserved_def set_client_def system_start_def server_start_def fresh_pipe_def)
  then show ?thesis using r p k by blast
qed

lemma playing_start:
  assumes st: "start_ok h p (replicate N_FACES a)" and a: "fresh_client a" and cap: "3 \<le> cap" and rng: "rng_ok (rand_r pf)"
  shows "\<exists>s. capped_reachable cap pf sg (system_start fds h p (replicate N_FACES a)) s \<and>
    playing cap sg (quota h) 1 s \<and> unserved s"
proof -
  obtain s where r: "capped_reachable cap pf sg (system_start fds h p (replicate N_FACES a)) s"
    and p: "playing cap sg (quota h) 0 s" and u: "unserved s" and k: "keyer (clients s ! 0) = At_Getch"
    "unread (outbox (clients s ! 0)) = []" using lone_start [OF st a rng] by blast
  obtain c where c: "outside_step s (set_client 0 c s)" "playing cap sg (quota h) 1 (set_client 0 c s)"
    using playing_key [OF p cap k] by auto
  have "unserved (set_client 0 c s)" using u by (simp add: unserved_def set_client_def)
  moreover have "fits cap (set_client 0 c s)" using c(2) by (simp add: playing_def)
  ultimately show ?thesis using c capped_reachable.outside [OF r c(1)] by blast
qed

end
