(* ===== verification/Cube_Properties.thy ===== *)
theory Cube_Properties
  imports Server_Commands
begin

text \<open>
  The properties of the cube library (\<open>src/rubiks_start.c\<close>): its turns are those of the physical cube,
  what each function does to the memory, and what is wrong with a call shows as a fault. The
  examples on which all properties are tried start from the platform and the cube given here.
\<close>

section \<open>A cube to try the properties on\<close>

text \<open>A memory with room for the properties' examples and a platform whose \<open>rand_r\<close> counts.\<close>

definition demo_platform :: platform where
  "demo_platform = \<lparr>signed_char = True, rand_r = (\<lambda>s. (uint s mod 256, s + 1)), face_first = True\<rparr>"

lemma demo_rng: "rng_ok (rand_r demo_platform)"
proof -
  have "0 \<le> uint s mod 256 \<and> uint s mod 256 \<le> INT_MAX" for s :: seed
    using pos_mod_bound [of 256 "uint s"] by (simp add: INT_MAX_def)
  then show ?thesis by (simp add: rng_ok_def demo_platform_def)
qed

lemma demo_cube:
  "\<exists>p h. make_cube (init_mem 5000) = Inr (p, h) \<and> sole h p solved_val \<and> cube_in h p solved_val \<and>
     quota h = 4969"
proof -
  have "quota (init_mem 5000) = 5000" by (simp add: init_mem_def)
  then have "runs_to make_cube (init_mem 5000) (\<lambda>p h. sole h p solved_val \<and> 5000 = quota h + 31)"
    using alone.make_law [OF init_empty, of 5000] by simp
  then show ?thesis using sole_cube_in by (auto elim!: runs_toE)
qed

lemma demo_cube_at:
  "\<exists>p h L. make_cube (init_mem 5000) = Inr (p, h) \<and> cube_at h p L solved_val \<and> wf_mem h \<and> quota h = 4969"
  using demo_cube by (auto simp: sole_def)

section \<open>The cube library\<close>

text \<open>C1. \<open>rotate\<close> turns the layer of the physical cube. For a complete standard cube in a
  well-formed memory with room for the 31 objects of the temporary copy, and any of the six faces,
  \<open>rotate\<close> returns, every colour is afterwards where the quarter turn of its layer in space takes
  its sticker (clockwise exactly if \<open>direction\<close> is 0), the adjacency tables are as before, and no
  object outside the cube has changed, so nothing has leaked.\<close>

theorem rotate_turns_layer:
  assumes "wf_mem h" and "31 \<le> quota h" and "cube_at h p L V" and "std V" and "f < N_FACES"
  shows "\<exists>h' V'. rotate_cube p (int f) d h = Inr ((), h') \<and> cube_at h' p L V' \<and> std V' \<and>
    (\<forall>s\<in>set stickers. view V' (unplace (turn_layer (normal f) (d = 0) (place s))) = view V s) \<and>
    unchanged (set (cube_addrs p L)) h h' \<and> wf_mem h' \<and> live h' \<subseteq> live h \<union> set (cube_addrs p L)"
proof -
  let ?V = "rotated_val (d = 0) f V"
  obtain h' where "rotate_cube p (int f) d h = Inr ((), h')" and "cube_at h' p L ?V"
    and "unchanged (set (cube_addrs p L)) h h'" and "wf_mem h'"
    using rotate_cube_wp [OF assms(1-3,5) std_face(3) [OF assms(4,5)], of d] by (auto elim!: runs_toE)
  moreover have "\<forall>s\<in>set stickers. view ?V (unplace (turn_layer (normal f) (d = 0) (place s))) = view V s"
    using rotated_sticker [OF assms(4,5)] by (simp add: sticker_turn_def)
  ultimately show ?thesis
    using std_rotated [OF assms(4,5)] live_unchanged by blast
qed

theorem rotate_turns_layer_witness:
  "\<exists>p h L h' V'. cube_at h p L solved_val \<and> rotate_cube p (int 2) 0 h = Inr ((), h') \<and> cube_at h' p L V' \<and>
    view V' (unplace (turn_layer (normal 2) True (place (0, 1)))) = view solved_val (0, 1)"
proof -
  obtain p h L where c: "cube_at h p L solved_val" and wf: "wf_mem h" and q: "quota h = 4969"
    using demo_cube_at by blast
  have "31 \<le> quota h" and "(2::nat) < N_FACES" and "(0, 1) \<in> set stickers"
    using q by (simp_all add: in_stickers)
  with rotate_turns_layer [OF wf _ c std_solved, of 2 0] c show ?thesis by fastforce
qed

text \<open>C24. Every sequence of rotations is undone by the opposite rotations in the opposite order:
  run one after the other on the heap, they leave the contents of the cube as they were.\<close>

theorem rotations_undone:
  assumes "cube_in h p V" and "62 * length ts \<le> quota h"
    and "\<forall>t\<in>set ts. fst t < N_FACES \<and> (snd t = 0 \<or> snd t = 1)"
  shows "runs_to (thenM (for_each ts (\<lambda>(f, d). rotate_cube p (int f) d))
    (for_each (rev (map (\<lambda>(f, d). (f, 1 - d)) ts)) (\<lambda>(f, d). rotate_cube p (int f) d))) h
    (\<lambda>_ h'. cube_in h' p V)"
  using lib.undo_wp [OF assms(1), of ts] assms(2,3) unfolding lib.all_turns_def by simp

theorem rotations_undone_witness:
  "\<exists>p h. cube_in h p solved_val \<and>
    runs_to (thenM (for_each [(0, 0), (3, 1)] (\<lambda>(f, d). rotate_cube p (int f) d))
    (for_each [(3, 0), (0, 1)] (\<lambda>(f, d). rotate_cube p (int f) d))) h (\<lambda>_ h'. cube_in h' p solved_val)"
proof -
  obtain p h where c: "cube_in h p solved_val" and q: "quota h = 4969" using demo_cube by blast
  with rotations_undone [OF c, of "[(0, 0), (3, 1)]"] show ?thesis by auto
qed

text \<open>Four rotations of the same face in the same direction leave the cube as it was.\<close>

theorem four_rotations:
  assumes "cube_in h p V" and "124 \<le> quota h" and "f < N_FACES"
  shows "runs_to (for_each (replicate 4 (f, d)) (\<lambda>(f, d). rotate_cube p (int f) d)) h
    (\<lambda>_ h'. cube_in h' p V)"
proof -
  have V: "std V" using assms(1) by (simp add: cube_in_def)
  have "fold apply_turn (replicate 4 (f, d = 0)) V = fold apply_turn [] V"
    using assms(3) four_quarters [OF normal_in [OF assms(3)]]
    by (intro run_eq [OF V]) (auto simp: valid_turn_def layer_path_def numeral_eq_Suc)
  moreover have "runs_to (lib.all_turns p (replicate 4 (f, d))) h (\<lambda>_ h'.
      cube_in h' p (fold apply_turn (map (\<lambda>t. (fst t, snd t = 0)) (replicate 4 (f, d))) V) \<and>
      quota h = quota h' + 31 * length (replicate 4 (f, d)))"
    using assms(2,3) by (intro lib.all_turns_wp [OF assms(1)]) auto
  ultimately show ?thesis
    unfolding lib.all_turns_def by (auto elim: runs_to_mono)
qed

theorem four_rotations_witness:
  "\<exists>p h. runs_to (for_each (replicate 4 (5, 1)) (\<lambda>(f, d). rotate_cube p (int f) d)) h
    (\<lambda>_ h'. cube_in h' p solved_val)"
proof -
  obtain p h where c: "cube_in h p solved_val" and q: "quota h = 4969" using demo_cube by blast
  with four_rotations [OF c, of 5 1] show ?thesis by auto
qed

text \<open>Rotations of opposite faces (front and back, right and left, top and bottom) commute:
  both orders run, and leave the same contents.\<close>

theorem opposite_rotations_commute:
  assumes "cube_in h p V" and "62 \<le> quota h" and "f < N_FACES"
  shows "runs_to (for_each [(f, d), (facing f, e)] (\<lambda>(f, d). rotate_cube p (int f) d)) h (\<lambda>_ h1.
    runs_to (for_each [(facing f, e), (f, d)] (\<lambda>(f, d). rotate_cube p (int f) d)) h (\<lambda>_ h2.
      \<exists>W. cube_in h1 p W \<and> cube_in h2 p W))"
proof -
  have V: "std V" using assms(1) by (simp add: cube_in_def)
  have ok: "\<forall>t\<in>set [(f, d), (facing f, e)]. fst t < N_FACES" "\<forall>t\<in>set [(facing f, e), (f, d)]. fst t < N_FACES"
    using assms(3) facing_less by auto
  have q: "31 * length [(f, d), (facing f, e)] \<le> quota h" "31 * length [(facing f, e), (f, d)] \<le> quota h"
    using assms(2) by simp_all
  have eq: "fold apply_turn [(f, d = 0), (facing f, e = 0)] V = fold apply_turn [(facing f, e = 0), (f, d = 0)] V"
    using assms(3) facing_less opposite_layers_commute [OF normal_in [OF assms(3)]]
    by (intro run_eq [OF V]) (auto simp: valid_turn_def layer_path_def normal_facing)
  show ?thesis
    using lib.all_turns_wp [OF assms(1) q(1) ok(1)] lib.all_turns_wp [OF assms(1) q(2) ok(2)] eq
    unfolding lib.all_turns_def by (auto elim!: runs_to_mono)
qed

theorem opposite_rotations_commute_witness:
  "\<exists>p h. runs_to (for_each [(0, 0), (5, 1)] (\<lambda>(f, d). rotate_cube p (int f) d)) h (\<lambda>_ h1.
    runs_to (for_each [(5, 1), (0, 0)] (\<lambda>(f, d). rotate_cube p (int f) d)) h (\<lambda>_ h2.
      \<exists>W. cube_in h1 p W \<and> cube_in h2 p W))"
proof -
  obtain p h where c: "cube_in h p solved_val" and q: "quota h = 4969" using demo_cube by blast
  have "facing 0 = 5" by (simp add: facing_def)
  with opposite_rotations_commute [OF c, of 0 0 1] q show ?thesis by auto
qed

text \<open>C19. No sequence of rotations takes a piece of the cube apart: the colours on the point \<open>q\<close> of
  the block (three at a corner, two at an edge, one at a centre) travel together to the point that
  the turns move \<open>q\<close> to. The number of squares of each colour never changes, and the six centre
  squares keep their colour.\<close>

theorem rotations_keep_pieces:
  assumes "cube_in h p V" and "31 * length ts \<le> quota h" and "\<forall>t\<in>set ts. fst t < N_FACES"
  shows "\<exists>h' W. for_each ts (\<lambda>(f, d). rotate_cube p (int f) d) h = Inr ((), h') \<and> cube_in h' p W \<and>
    (\<forall>q. piece W (fold (\<lambda>t. move_point (fst t, snd t = 0)) ts q) = piece V q) \<and>
    color_count W = color_count V \<and> (\<forall>i<N_FACES. view W (i, 4) = view V (i, 4))"
proof -
  let ?ms = "map (\<lambda>t. (fst t, snd t = 0)) ts"
  let ?W = "fold apply_turn ?ms V"
  have V: "std V" using assms(1) by (simp add: cube_in_def)
  have ms: "\<forall>m\<in>set ?ms. valid_turn m" using assms(3) by (auto simp: valid_turn_def)
  obtain h' where "for_each ts (\<lambda>(f, d). rotate_cube p (int f) d) h = Inr ((), h')" and "cube_in h' p ?W"
    using lib.all_turns_wp [OF assms] unfolding lib.all_turns_def by (auto elim!: runs_toE)
  moreover have "piece (fold apply_turn ms U) (fold move_point ms q) = piece U q"
    if "std U" "\<forall>m\<in>set ms. valid_turn m" for ms U q
    using that by (induction ms arbitrary: U q) (simp_all add: turns.ok_act piece_turn)
  then have "piece ?W (fold (\<lambda>t. move_point (fst t, snd t = 0)) ts q) = piece V q" for q
    using V ms by (fastforce simp: fold_map comp_def)
  moreover have "color_count ?W = color_count V"
    by (rule turns.run_invariant [OF color_count_turn V ms])
  moreover have "view ?W (i, 4) = view V (i, 4)" if i: "i < N_FACES" for i
  proof (rule turns.run_invariant [where q = "\<lambda>U. view U (i, 4)", OF _ V ms])
    fix U m assume "std U" "valid_turn m"
    then show "view (apply_turn m U) (i, 4) = view U (i, 4)"
      using turn_view [of U m "(i, 4)"] i by (simp add: center_fixed in_stickers)
  qed
  ultimately show ?thesis by blast
qed

theorem rotations_keep_pieces_witness:
  "\<exists>p h h' W. for_each [(0, 0), (2, 1)] (\<lambda>(f, d). rotate_cube p (int f) d) h = Inr ((), h') \<and>
    cube_in h' p W \<and> color_count W = color_count solved_val"
proof -
  obtain p h where c: "cube_in h p solved_val" and q: "quota h = 4969" using demo_cube by blast
  with rotations_keep_pieces [OF c, of "[(0, 0), (2, 1)]"] show ?thesis by fastforce
qed

text \<open>C18. \<open>make_cube\<close> depends on \<open>malloc\<close> exactly as follows. With room for 31 objects it returns
  the address of a complete solved cube at fresh addresses and changes nothing else. With less, one
  of its calls of \<open>malloc\<close> returns \<open>NULL\<close>, which the code does not check, and it faults.\<close>

theorem make_cube_total:
  assumes "wf_mem h"
  shows "if 31 \<le> quota h
    then \<exists>p h'. make_cube h = Inr (p, h') \<and> cube_at h' p (layout_from p) solved_val \<and> wf_mem h' \<and>
      set (cube_addrs p (layout_from p)) \<inter> live h = {} \<and>
      unchanged (set (cube_addrs p (layout_from p))) h h' \<and> quota h' = quota h - 31
    else make_cube h = Inl Null_Deref"
proof -
  have nn: "next_addr h \<noteq> NULL" and lv: "live h \<subseteq> {a. a < next_addr h}"
    using assms by (simp_all add: wf_mem_def mem_ok_def)
  show ?thesis
  proof (cases "31 \<le> quota h")
    case True
    let ?p = "next_addr h"
    obtain h' where "make_cube h = Inr (?p, h')" and "cube_at h' ?p (layout_from ?p) solved_val"
      and "allocated 31 h h'"
      using make_cube_wp [OF True nn] by (auto elim!: runs_toE)
    moreover from this(1) have "wf_mem h'" by (rule keepsD [OF keeps_make_cube assms])
    moreover have "set (cube_addrs ?p (layout_from ?p)) \<inter> live h = {}"
      using lv by (auto simp: cube_addrs_layout)
    ultimately show ?thesis using True by (auto simp: allocated_def cube_addrs_layout)
  next
    case False
    then show ?thesis using make_cube_null [of h] nn by simp
  qed
qed

theorem make_cube_total_witness:
  "(\<exists>p h'. make_cube (init_mem 31) = Inr (p, h') \<and> cube_at h' p (layout_from p) solved_val) \<and>
    make_cube (init_mem 30) = Inl Null_Deref"
  using make_cube_total [OF init_wf_mem, of 31] make_cube_total [OF init_wf_mem, of 30]
  by (auto simp: init_mem_def)

text \<open>C25. \<open>copy_cube\<close> makes a deep copy: the target gets the contents of the source, and turning the
  copy afterwards does not touch the source.\<close>

theorem copy_is_deep:
  assumes "wf_mem h" and "31 \<le> quota h" and "cube_at h p L V" and "cube_at h r M W" and "std V"
    and "f < N_FACES" and "set (cube_addrs p L) \<inter> set (cube_addrs r M) = {}"
  shows "runs_to (thenM (copy_cube p r) (rotate_cube r (int f) d)) h (\<lambda>_ h'.
    cube_at h' p L V \<and> cube_at h' r M (rotated_val (d = 0) f V) \<and>
    unchanged (set (cube_addrs r M)) h h')"
proof -
  obtain g where 1: "copy_cube p r h = Inr ((), g)" and r: "cube_at g r M V"
    and u: "unchanged (set (cube_addrs r M)) h g" and al: "same_alloc h g"
    using copy_cube_wp [OF assms(3,4,7)] by (auto elim!: runs_toE)
  have wf: "wf_mem g" by (rule keepsD [OF keeps_copy(3) assms(1) 1])
  have "31 \<le> quota g" using assms(2) al by (simp add: same_alloc_def)
  from rotate_cube_wp [OF wf this r assms(6) std_face(3) [OF assms(5,6)], of d]
  obtain h' where 2: "rotate_cube r (int f) d g = Inr ((), h')" and "cube_at h' r M (rotated_val (d = 0) f V)"
    and "unchanged (set (cube_addrs r M)) g h'"
    by (auto elim!: runs_toE)
  moreover from this(3) have u': "unchanged (set (cube_addrs r M)) h h'"
    using unchanged_trans [OF u] by (metis Un_absorb)
  moreover have "cube_at h' p L V" by (rule cube_at_frame [OF assms(3) u' assms(7)])
  ultimately show ?thesis by (simp add: runs_to_def prog_simps 1)
qed

theorem copy_is_deep_witness:
  "\<exists>h p r L M. cube_at h p L solved_val \<and> runs_to (thenM (copy_cube p r) (rotate_cube r (int 0) 0)) h (\<lambda>_ h'.
    cube_at h' p L solved_val \<and> cube_at h' r M (rotated_val True 0 solved_val))"
proof -
  obtain p h L where c: "cube_at h p L solved_val" and wf: "wf_mem h" and q: "quota h = 4969"
    using demo_cube_at by blast
  let ?r = "next_addr h"
  obtain g where 1: "make_cube h = Inr (?r, g)" and r: "cube_at g ?r (layout_from ?r) solved_val"
    and al: "allocated 31 h g"
    using make_cube_wp [of h] wf q by (auto simp: wf_mem_def mem_ok_def elim!: runs_toE)
  have disj: "set (cube_addrs p L) \<inter> set (cube_addrs ?r (layout_from ?r)) = {}"
    using cube_at_live [OF c] wf by (auto simp: wf_mem_def cube_addrs_layout)
  have "cube_at g p L solved_val"
    using al disj by (intro cube_at_frame [OF c]) (auto simp: allocated_def cube_addrs_layout)
  moreover have "wf_mem g" by (rule keepsD [OF keeps_make_cube wf 1])
  moreover have "31 \<le> quota g" using al q by (simp add: allocated_def)
  ultimately have "runs_to (thenM (copy_cube p ?r) (rotate_cube ?r (int 0) 0)) g (\<lambda>_ h'.
      cube_at h' p L solved_val \<and> cube_at h' ?r (layout_from ?r) (rotated_val (0 = (0::int)) 0 solved_val) \<and>
      unchanged (set (cube_addrs ?r (layout_from ?r))) g h')"
    by (intro copy_is_deep [OF _ _ _ r std_solved _ disj]) simp_all
  then have "runs_to (thenM (copy_cube p ?r) (rotate_cube ?r (int 0) 0)) g (\<lambda>_ h'.
      cube_at h' p L solved_val \<and> cube_at h' ?r (layout_from ?r) (rotated_val True 0 solved_val))"
    by (rule runs_to_mono) simp
  with \<open>cube_at g p L solved_val\<close> show ?thesis by blast
qed

text \<open>C10. \<open>free_cube\<close> releases every object of the cube and nothing else; releasing it a second time,
  or rotating it, is a use of freed memory.\<close>

theorem free_cube_releases:
  assumes "wf_mem h" and "cube_at h p L V"
  shows "\<exists>h'. free_cube p h = Inr ((), h') \<and> live h' = live h - set (cube_addrs p L) \<and>
    unchanged (set (cube_addrs p L)) h h' \<and> free_cube p h' = Inl Dangling \<and>
    (31 \<le> quota h \<longrightarrow> (\<forall>n d. rotate_cube p n d h' = Inl Dangling))"
proof -
  let ?P = "set (cube_addrs p L)"
  obtain h' where 1: "free_cube p h = Inr ((), h')" and rel: "released ?P h h'"
    using free_cube_wp [OF assms(2,1)] by (auto elim!: runs_toE)
  have u: "unchanged ?P h h'" and gone: "gone ?P h'" and al: "same_alloc h h'"
    using rel by (simp_all add: released_def)
  have "live h - ?P \<subseteq> live h'"
    using unchangedD [OF u] by (auto simp: live_iff)
  then have "live h' = live h - ?P" using live_released [OF rel] by blast
  moreover have p: "p \<in> ?P" "p \<noteq> NULL" using assms(2) by (simp_all add: cube_addrs_def cube_at_def)
  then have dang: "get_face p i g = Inl Dangling" if "cube_heap g p = None" for i g
    using that by (simp add: get_face_def prog_simps load_def)
  have none: "cube_heap h' p = None" using gone p by (simp add: gone_def)
  then have "free_cube p h' = Inl Dangling"
    by (simp add: free_cube_def upt6 prog_simps dang)
  moreover have "rotate_cube p n d h' = Inl Dangling" if q: "31 \<le> quota h" for n d
  proof -
    have wf': "wf_mem h'" by (rule keepsD [OF keeps_free_cube assms(1) 1])
    have "31 \<le> quota h'" using q al by (simp add: same_alloc_def)
    from make_cube_wp [OF this] wf' obtain g where 2: "make_cube h' = Inr (next_addr h', g)"
      and u': "allocated 31 h' g" by (auto simp: wf_mem_def mem_ok_def elim!: runs_toE)
    have "p < next_addr h'"
      using cube_at_live [OF assms(2)] assms(1) al p by (auto simp: wf_mem_def same_alloc_def)
    then have "cube_heap g p = cube_heap h' p"
      using u' unchangedD(3) [of _ h' g p] by (auto simp: allocated_def)
    then show ?thesis
      using none by (simp add: rotate_cube_def prog_simps 2 copy_cube_def upt6 dang)
  qed
  ultimately show ?thesis using 1 u by blast
qed

theorem free_cube_releases_witness:
  "\<exists>p h h'. make_cube (init_mem 5000) = Inr (p, h) \<and> free_cube p h = Inr ((), h') \<and> live h' = {} \<and>
    free_cube p h' = Inl Dangling \<and> rotate_cube p 0 0 h' = Inl Dangling"
proof -
  obtain p h where m: "make_cube (init_mem 5000) = Inr (p, h)" and s: "sole h p solved_val"
    and q: "quota h = 4969" using demo_cube by blast
  then obtain L where "wf_mem h" "cube_at h p L solved_val" and l: "live h \<subseteq> set (cube_addrs p L)"
    by (auto simp: sole_def)
  from free_cube_releases [OF this(1,2)] l q m show ?thesis by fastforce
qed

text \<open>C20. \<open>is_solved\<close> answers 1 exactly for the solved cube, that is for the contents that
  \<open>make_cube\<close> gives, 0 for every other contents, and changes nothing.\<close>

theorem is_solved_correct:
  assumes "cube_in h p V"
  shows "is_solved p h = Inr (if V = solved_val then 1 else 0, h)"
proof -
  have V: "std V" using assms by (simp add: cube_in_def)
  have s: "list_all (\<lambda>s. view solved_val s = int (fst s)) stickers" by code_simp
  then have "solved_colors V \<longleftrightarrow> V = solved_val"
    using std_eqI [OF V std_solved] by (auto simp: solved_colors_def list_all_iff)
  then show ?thesis using lib.solved_law [OF assms] by simp
qed

theorem is_solved_correct_witness:
  "\<exists>p h. make_cube (init_mem 5000) = Inr (p, h) \<and> is_solved p h = Inr (1, h)"
  using demo_cube is_solved_correct by fastforce

text \<open>C26. \<open>shuffle\<close>, with any random numbers that \<open>rand_r\<close> may return and either order of evaluation
  of the arguments of \<open>rotate\<close>, applies between \<open>min_depth\<close> and \<open>max_depth\<close> rotations of existing
  faces; the cube is the only object in memory before and after.\<close>

theorem shuffle_rotates:
  assumes "rng_ok rng" and "sole h p V" and "0 \<le> lo" and "lo \<le> hi" and "hi < INT_MAX"
    and "31 * nat hi \<le> quota h"
  shows "\<exists>ms h'. lo \<le> int (length ms) \<and> int (length ms) \<le> hi \<and> (\<forall>m\<in>set ms. valid_turn m) \<and>
    shuffle rng ff now p lo hi h = Inr ((), h') \<and> sole h' p (fold apply_turn ms V) \<and>
    quota h = quota h' + 31 * length ms"
  using alone.shuffle_wp [OF assms, of ff now] by (fastforce elim!: runs_toE)

theorem shuffle_rotates_witness:
  "\<exists>p h ms h'. 20 \<le> length ms \<and> length ms \<le> 30 \<and>
    shuffle (rand_r demo_platform) True 7 p MIN_DEPTH MAX_DEPTH h = Inr ((), h') \<and>
    sole h' p (fold apply_turn ms solved_val)"
proof -
  obtain p h where s: "sole h p solved_val" and q: "quota h = 4969" using demo_cube by blast
  with shuffle_rotates [OF demo_rng s, of MIN_DEPTH MAX_DEPTH True 7] show ?thesis
    by (fastforce simp: INT_MAX_def)
qed

text \<open>What is wrong with the arguments shows as a fault, never as a wrong cube: a face that does
  not exist is an access outside the array, lack of memory a null dereference, and a depth range
  that is empty by one a division by zero.\<close>

theorem bad_calls_fault:
  assumes "cube_in h p V"
  shows "(quota h < 31 \<longrightarrow> rotate_cube p n d h = Inl Null_Deref) \<and>
    (31 \<le> quota h \<and> (n < 0 \<or> 6 \<le> n) \<longrightarrow> rotate_cube p n d h = Inl Out_Of_Bounds) \<and>
    (0 < lo \<and> lo \<le> INT_MAX \<longrightarrow> shuffle rng ff now p lo (lo - 1) h = Inl Div_By_Zero)"
  using assms rotate_no_room [of h] rotate_bad_face [OF assms] shuffle_empty_range
  by (auto simp: cube_in_def INT_MIN_def)

theorem bad_calls_fault_witness:
  "\<exists>p h. cube_in h p solved_val \<and> rotate_cube p 6 0 h = Inl Out_Of_Bounds \<and>
    shuffle (rand_r demo_platform) True 0 p 1 0 h = Inl Div_By_Zero"
proof -
  obtain p h where c: "cube_in h p solved_val" and q: "quota h = 4969" using demo_cube by blast
  with bad_calls_fault [OF c, of 6 0 1 "rand_r demo_platform" True 0] show ?thesis
    by (auto simp: INT_MAX_def)
qed

end
