(* ===== verification/Program_Properties.thy ===== *)
theory Program_Properties
  imports Cube_Properties Client
begin

text \<open>
  The properties of the programs around the cube, one thread at a time: the text form of a cube, the
  commands of the server, the program for one device and the rounds of a client's threads.
\<close>

section \<open>The text form of a cube\<close>

text \<open>C2. What the server encodes the client decodes: with a buffer of 56 characters and colours for
  which \<open>'0' + colour\<close> is a \<open>char\<close> (from -176 to 79 where \<open>char\<close> is signed, from -48 to 207 where it
  is not) other than the one that gives a NUL, \<open>encode\<close> returns 0 and leaves the server's cube, and
  \<open>decode\<close> of the buffer, in the memory of another process, makes its cube equal to the server's.\<close>

theorem encode_decode:
  assumes "cube_in h p V" and "cube_in g q W" and "56 \<le> length buf"
    and "\<forall>s\<in>set stickers. codable sg (view V s) \<and> view V s \<noteq> - 48"
  shows "\<exists>buf' h' g'. encode p buf h = Inr ((0, buf'), h') \<and> cube_in h' p V \<and>
    decode sg q buf' g = Inr ((), g') \<and> cube_in g' q V"
proof -
  obtain L where c: "cube_at h p L V" and V: "std V" using assms(1) by (auto simp: cube_in_def)
  obtain M where d: "cube_at g q M W" and W: "std W" and wf: "wf_mem g"
    using assms(2) by (auto simp: cube_in_def)
  note enc = encode_wp [OF c codable_text(1) [OF assms(4)] assms(3) codable_text(2) [OF assms(4)]]
  have "54 \<le> length (cube_line V)" by (simp add: cube_line_def)
  from decode_wp [OF d this, of sg "drop 56 buf"]
  obtain g' where dec: "decode sg q (line_buffer (cube_line V) (drop 56 buf)) g = Inr ((), g')"
    and c': "cube_at g' q M (decoded sg (cube_line V) W)"
    by (auto elim!: runs_toE)
  have "wf_mem g'" by (rule keepsD [OF keeps_decode wf dec])
  moreover have "decoded sg (cube_line V) W = V"
    using assms(4) by (intro decoded_cube_line [OF V W]) simp
  ultimately have "cube_in g' q V" using c' V by (auto simp: cube_in_def)
  with enc dec assms(1) show ?thesis by auto
qed

theorem encode_decode_witness:
  "\<exists>p h buf' h' g'. make_cube (init_mem 5000) = Inr (p, h) \<and>
    encode p (replicate 56 None) h = Inr ((0, buf'), h') \<and> decode True p buf' h = Inr ((), g') \<and>
    cube_in g' p solved_val"
proof -
  obtain p h where m: "make_cube (init_mem 5000) = Inr (p, h)" and c: "cube_in h p solved_val"
    using demo_cube by blast
  have "\<forall>s\<in>set stickers. codable True (view solved_val s) \<and> view solved_val s \<noteq> - 48"
    using plain_solved by (fastforce simp: plain_def codable_def)
  from encode_decode [OF c c _ this, of "replicate 56 None"] m show ?thesis by fastforce
qed

text \<open>What \<open>encode\<close> does with a buffer of any length.\<close>

lemma encode_buffer:
  assumes "cube_in h p V" and "plain V"
  shows "if length buf < 56 then encode p buf h = Inl Out_Of_Bounds
    else \<exists>h'. encode p buf h = Inr ((0, line_buffer (cube_line V) (drop 56 buf)), h') \<and> cube_in h' p V"
proof -
  obtain L where c: "cube_at h p L V" using assms(1) by (auto simp: cube_in_def)
  have "nul \<notin> set (cube_text V)" using cube_text_plain [OF assms(2)] by simp
  from encode_wp [OF c plain_fit [OF assms(2)] _ this, of buf]
    encode_short_buffer [OF c plain_fit [OF assms(2)], of buf] assms(1)
  show ?thesis by (cases "length buf < 56") auto
qed

text \<open>C37. The bound of the buffer is 56: whatever ordinary cube is encoded, \<open>encode\<close> returns if the
  caller's array has at least 56 characters and writes outside it if it has fewer.\<close>

theorem encode_buffer_bound:
  assumes "cube_in h p V" and "plain V"
  shows "if length buf < 56 then encode p buf h = Inl Out_Of_Bounds
    else \<exists>h'. encode p buf h = Inr ((0, line_buffer (cube_line V) (drop 56 buf)), h') \<and> cube_in h' p V"
  using assms by (rule encode_buffer)

theorem encode_buffer_bound_witness:
  "\<exists>p h. make_cube (init_mem 5000) = Inr (p, h) \<and> encode p (replicate 54 None) h = Inl Out_Of_Bounds"
proof -
  obtain p h where m: "make_cube (init_mem 5000) = Inr (p, h)" and c: "cube_in h p solved_val"
    using demo_cube by blast
  from encode_buffer_bound [OF c plain_solved, of "replicate 54 None"] m show ?thesis by fastforce
qed

text \<open>C21. Framing: any number of cubes, each encoded by \<open>encode\<close> in its memory and the buffer written with \<open>fputs\<close> to a
  stream, are read back by \<open>getline\<close> as the same number of lines, and the \<open>n\<close>-th line makes a client's cube
  equal to the \<open>n\<close>-th cube, whatever the client's cube was before.\<close>

theorem cubes_through_stream:
  assumes "\<forall>(h, p, V)\<in>set cs. cube_in h p V \<and> solvable V" and "n < length cs" and "cube_in g q W"
  shows "\<exists>ms. list_all2 (\<lambda>(h, p, V) m. \<exists>buf h'. encode p (replicate N_CHARACTERS_TO_ENCODE_CUBE None) h = Inr ((0, buf), h') \<and>
      c_string buf = Inr m) cs ms \<and>
    length (lines_of (fold fputs ms [])) = length cs \<and>
    (\<exists>g'. decode sg q (line_buffer (lines_of (fold fputs ms []) ! n) rest) g = Inr ((), g') \<and>
      cube_in g' q (snd (snd (cs ! n))))"
proof -
  let ?Vs = "map (\<lambda>(h, p, V). V) cs" let ?ms = "map cube_line ?Vs"
  have ok: "\<forall>V\<in>set ?Vs. std V \<and> plain V" using assms(1) solvable_std solvable_plain by fastforce
  have enc: "\<exists>buf h'. encode p (replicate N_CHARACTERS_TO_ENCODE_CUBE None) h = Inr ((0, buf), h') \<and>
      c_string buf = Inr (cube_line V)" if "(h, p, V) \<in> set cs" for h p V
  proof -
    have c: "cube_in h p V" and V: "plain V" using assms(1) that ok by fastforce+
    have "nul \<notin> set (cube_line V)" using cube_text_plain [OF V] by (auto simp: cube_line_def)
    then show ?thesis using encode_buffer [OF c V, of "replicate N_CHARACTERS_TO_ENCODE_CUBE None"]
      by (auto simp: line_buffer_def c_string_nul)
  qed
  have "fold fputs ms s = s @ concat ms" for ms s by (induction ms arbitrary: s) (simp_all add: fputs_def)
  then have lines: "lines_of (fold fputs ?ms []) = ?ms"
    using ok cube_msg.enc_line by (simp add: lines_of_lines)
  obtain M where d: "cube_at g q M W" and W: "std W" and wf: "wf_mem g"
    using assms(3) by (auto simp: cube_in_def)
  let ?V = "?Vs ! n"
  have V: "std ?V" "plain ?V" using ok assms(2) by auto
  have "54 \<le> length (cube_line ?V)" by (simp add: cube_line_def)
  from decode_wp [OF d this, of sg rest]
  obtain g' where dec: "decode sg q (line_buffer (cube_line ?V) rest) g = Inr ((), g')"
    and c': "cube_at g' q M (decoded sg (cube_line ?V) W)"
    by (auto elim!: runs_toE)
  have "wf_mem g'" by (rule keepsD [OF keeps_decode wf dec])
  then have "cube_in g' q ?V"
    using c' V decoded_cube_line [OF V(1) W plain_codable [OF V(2)]] by (auto simp: cube_in_def)
  moreover have "?V = snd (snd (cs ! n))" using assms(2) by (simp add: split_def)
  moreover have "list_all2 (\<lambda>(h, p, V) m. \<exists>buf h'. encode p (replicate N_CHARACTERS_TO_ENCODE_CUBE None) h =
      Inr ((0, buf), h') \<and> c_string buf = Inr m) cs ?ms"
    using enc by (auto simp: list_all2_conv_all_nth split_def)
  ultimately show ?thesis
    using dec assms(2) lines by (intro exI [of _ ?ms]) simp
qed

text \<open>Two cubes in turn to a device that shows the first one.\<close>

theorem cubes_through_stream_witness:
  "\<exists>p h h2 buf1 buf2 h3 h4 m1 m2 g'. make_cube (init_mem 5000) = Inr (p, h) \<and> rotate_cube p 3 0 h = Inr ((), h2) \<and>
    encode p (replicate 56 None) h = Inr ((0, buf1), h3) \<and> c_string buf1 = Inr m1 \<and>
    encode p (replicate 56 None) h2 = Inr ((0, buf2), h4) \<and> c_string buf2 = Inr m2 \<and>
    length (lines_of (fputs m2 (fputs m1 []))) = 2 \<and>
    decode True p (line_buffer (lines_of (fputs m2 (fputs m1 [])) ! 1) []) h = Inr ((), g') \<and>
    cube_in g' p (rotated_val True 3 solved_val)"
proof -
  obtain p h where m: "make_cube (init_mem 5000) = Inr (p, h)" and c: "cube_in h p solved_val" and q: "quota h = 4969"
    using demo_cube by blast
  have room: "31 \<le> quota h" and f: "(3::nat) < N_FACES" using q by simp_all
  let ?W = "apply_turn (3, True) solved_val"
  obtain h2 where r: "rotate_cube p 3 0 h = Inr ((), h2)" and c2: "cube_in h2 p ?W"
    using lib.turn_law [OF c room f, of 0] by (auto elim!: runs_toE)
  have "solvable ?W" using solvable_turns [OF solvable_solved, of "[(3, True)]"] by (simp add: valid_turn_def)
  then have all: "\<forall>(h, p, V)\<in>set [(h, p, solved_val), (h2, p, ?W)]. cube_in h p V \<and> solvable V"
    using c c2 solvable_solved by simp
  have n: "1 < length [(h, p, solved_val), (h2, p, ?W)]" by simp
  from cubes_through_stream [OF all n c, of True "[]"] show ?thesis
    using m r by (auto simp: list_all2_Cons1 apply_turn_def)
qed

section \<open>Commands\<close>

text \<open>C6. The server does what a command says. For every line with a face 0 to 5 or the direction
  character 2, with memory for a shuffle (930 calls of \<open>malloc\<close>), \<open>decode_user_input\<close> returns: direction 2 shuffles a solved cube by 20 to 30 rotations and
  replaces any other cube by the solved one; direction 0 turns the face clockwise and every other
  character counterclockwise.\<close>

theorem command_obeyed:
  assumes "rng_ok (rand_r pf)" and "line \<noteq> []" and "cube_in h p V" and "930 \<le> quota h"
    and "command_of (signed_char pf) line \<noteq> Bad"
  shows "\<exists>h' V'. decode_user_input pf now (line_buffer line rest) p h = Inr ((), h') \<and>
    cube_in h' p V' \<and> (case command_of (signed_char pf) line of
      Turn f cw \<Rightarrow> V' = rotated_val cw f V
    | Toggle \<Rightarrow> if V = solved_val
        then \<exists>ms. 20 \<le> length ms \<and> length ms \<le> 30 \<and> (\<forall>m\<in>set ms. valid_turn m) \<and> V' = fold apply_turn ms V
        else V' = solved_val
    | Bad \<Rightarrow> False)"
proof -
  obtain h' V' where run: "decode_user_input pf now (line_buffer line rest) p h = Inr ((), h')"
    and ob: "obeys (command_of (signed_char pf) line) V V'" and c: "cube_in h' p V'"
    using decode_user_input_wp [OF assms, of now rest] unfolding runs_to_iff by auto
  have V: "std V" using assms(3) by (simp add: cube_in_def)
  have "list_all (\<lambda>s. view solved_val s = int (fst s)) stickers" by code_simp
  then have "solved_colors V \<longleftrightarrow> V = solved_val"
    using std_eqI [OF V std_solved] by (auto simp: solved_colors_def list_all_iff)
  then have "case command_of (signed_char pf) line of
      Turn f cw \<Rightarrow> V' = rotated_val cw f V
    | Toggle \<Rightarrow> if V = solved_val
        then \<exists>ms. 20 \<le> length ms \<and> length ms \<le> 30 \<and> (\<forall>m\<in>set ms. valid_turn m) \<and> V' = fold apply_turn ms V
        else V' = solved_val
    | Bad \<Rightarrow> False"
    using ob by (cases "V = solved_val") (auto simp: obeys_def apply_turn_def split: command.splits)
  with run c show ?thesis by blast
qed

theorem command_obeyed_witness:
  "\<exists>p h h'. decode_user_input demo_platform 7 (line_buffer ''30'' []) p h = Inr ((), h') \<and>
    cube_in h' p (rotated_val True 3 solved_val)"
proof -
  obtain p h where c: "cube_in h p solved_val" and q: "quota h = 4969" using demo_cube by blast
  have "command_of (signed_char demo_platform) ''30'' = Turn 3 True"
    by (simp add: demo_platform_def command_of_def char_value_def)
  with command_obeyed [OF demo_rng _ c, of "''30''" 7 "[]"] q show ?thesis by fastforce
qed

text \<open>C39. The face of a command is not validated: a line whose first character is not one of the six
  digits (and whose second is not 2) makes the server read outside the array of faces.\<close>

theorem bad_command_faults:
  assumes "line \<noteq> []" and "cube_in h p V" and "31 \<le> quota h"
    and "char_value (signed_char pf) (line ! 0) < 48 \<or> 53 < char_value (signed_char pf) (line ! 0)"
    and "char_value (signed_char pf) ((line @ [nul]) ! 1) \<noteq> 50"
  shows "decode_user_input pf now (line_buffer line rest) p h = Inl Out_Of_Bounds"
  using assms by (intro decode_user_input_bad) (auto simp: command_of_def Let_def)

theorem bad_command_faults_witness:
  "\<exists>p h. cube_in h p solved_val \<and>
    decode_user_input demo_platform 0 (line_buffer ''60'' []) p h = Inl Out_Of_Bounds"
proof -
  obtain p h where c: "cube_in h p solved_val" and q: "quota h = 4969" using demo_cube by blast
  with bad_command_faults [OF _ c, of "''60''" demo_platform 0 "[]"] show ?thesis
    by (auto simp: demo_platform_def char_value_def)
qed

text \<open>C22. No line of text can break the server's data. Started with any cube that the six faces' turns
  can solve, and whatever the line and the memory, \<open>decode_user_input\<close> either faults or leaves a
  complete cube that can be solved again by turns.\<close>

theorem commands_keep_solvable:
  assumes "rng_ok (rand_r pf)" and "line \<noteq> []" and "cube_in h p V" and "solvable V"
    and "decode_user_input pf now (line_buffer line rest) p h = Inr ((), h')"
  shows "\<exists>V' ms. cube_in h' p V' \<and> (\<forall>m\<in>set ms. valid_turn m) \<and> fold apply_turn ms V' = solved_val"
proof -
  obtain V' where "obeys (command_of (signed_char pf) line) V V'" and c: "cube_in h' p V'"
    using decode_user_input_returns [OF assms(1-3,5)] by blast
  then have "solvable V'" by (rule_tac obeys_solvable [OF _ assms(4) command_face])
  with c show ?thesis using solvable_undo by blast
qed

theorem commands_keep_solvable_witness:
  "\<exists>p h h' V' ms. decode_user_input demo_platform 7 (line_buffer ''1x'' []) p h = Inr ((), h') \<and>
    cube_in h' p V' \<and> (\<forall>m\<in>set ms. valid_turn m) \<and> fold apply_turn ms V' = solved_val"
proof -
  obtain p h where c: "cube_in h p solved_val" and q: "quota h = 4969" using demo_cube by blast
  have "command_of (signed_char demo_platform) ''1x'' \<noteq> Bad"
    by (simp add: demo_platform_def command_of_def char_value_def)
  with decode_user_input_wp [OF demo_rng _ c, of "''1x''" 7 "[]"] q
  obtain h' where run: "decode_user_input demo_platform 7 (line_buffer ''1x'' []) p h = Inr ((), h')"
    by (auto simp: runs_to_iff)
  from commands_keep_solvable [OF demo_rng _ c solvable_solved run] run show ?thesis by blast
qed

text \<open>C12. The client and the server agree on commands: for each of the six faces and the keys a, d and
  space, \<open>encode_user_input\<close> fills the four characters of the message and returns 0; the message is
  one line, which the server, with either kind of \<open>char\<close>, reads as a counterclockwise turn, a
  clockwise turn or the shuffle-or-solve command for that face.\<close>

theorem key_to_command:
  assumes "f < N_FACES" and "input = KEY_a \<or> input = KEY_d \<or> input = KEY_space" and "length buf = 4"
  shows "\<exists>buf' line. encode_user_input input (int f) buf = Inr (0, buf') \<and> c_string buf' = Inr line \<and>
    getline (line @ later) = Some (line, later) \<and>
    command_of sg line = (if input = KEY_a then Turn f False else if input = KEY_d then Turn f True else Toggle)"
proof -
  have "face_digit (int f) \<noteq> None" using assms(1) by (simp only: face_digit_iff) simp
  then obtain d where d: "face_digit (int f) = Some d" by auto
  obtain k where k: "key_char input = Some k" using assms(2) by (auto simp: key_char_def)
  let ?l = "command_line (input, f)"
  have l: "?l = [d, k, newline]" by (simp add: command_line_def d k)
  have il: "is_line ?l" by (rule command_of_line(2) [OF assms(1,2)])
  then have "nul \<notin> set ?l" by (auto simp: is_line_def)
  then have "c_string (map Some ?l @ Some nul # []) = Inr ?l" by (rule c_string_nul)
  moreover have "encode_user_input input (int f) buf = Inr (0, map Some ?l @ Some nul # [])"
    by (simp add: encode_user_input_sent [OF assms(3) d k] l)
  moreover have "getline (?l @ later) = Some (?l, later)" by (rule getline_line [OF il])
  moreover have "command_of sg ?l = (if input = KEY_a then Turn f False
      else if input = KEY_d then Turn f True else Toggle)"
    using command_of_line(1) [OF assms(1,2), of sg] assms(2) by (auto simp: key_command_def)
  ultimately show ?thesis by blast
qed

theorem key_to_command_witness:
  "\<exists>buf' line. encode_user_input KEY_d 4 (replicate 4 None) = Inr (0, buf') \<and> c_string buf' = Inr line \<and>
    command_of True line = Turn 4 True"
  using key_to_command [of 4 KEY_d "replicate 4 None" "[]" True] by auto

section \<open>The program for one device\<close>

text \<open>C9. \<open>main\<close> of \<open>rubiks_view\<close>, for every sequence of keys and enough memory, runs without a fault. If
  a q or Q is pressed it ends, with every object released; until then it waits for a key, the cube and
  the face are those that the keys pressed so far make of a shuffled cube and face 0 by the
  specification of the keys, and the screen ends with the drawing of that face.\<close>

theorem view_main_correct:
  assumes "rng_ok (rand_r pf)" and "961 + 930 * length keys \<le> n"
  shows "\<exists>left v. view_main pf now keys (view_start n) = Inr (left, v) \<and>
    (left \<longleftrightarrow> (\<exists>k\<in>set keys. quits (fst k))) \<and>
    (if left then live (view_mem v) = {}
     else \<exists>s s'. solvable (fst s) \<and> snd s = 0 \<and> view_spec (map fst keys) s s' \<and>
       cube_in (view_mem v) (rubiks_cube v) (fst s') \<and> current_face v = int (snd s') \<and> shows_face v s')"
proof -
  let ?left = "\<exists>k\<in>set keys. quits (fst k)"
  let ?Q = "\<lambda>v. \<exists>s s'. solvable (fst s) \<and> snd s = 0 \<and> view_spec (map fst keys) s s' \<and>
    view_ok v s' \<and> shows_face v s'"
  obtain left v where run: "view_main pf now keys (view_start n) = Inr (left, v)" and l: "left \<longleftrightarrow> ?left"
    and q: "if left then empty_mem (view_mem v) else ?Q v"
    using view_main_wp [OF assms] unfolding runs_to_iff by blast
  show ?thesis
  proof (cases left)
    case True
    with run l q show ?thesis by (intro exI [of _ True] exI [of _ v]) (simp add: empty_mem_def)
  next
    case False
    then obtain s s' where s: "solvable (fst s)" "snd s = 0" "view_spec (map fst keys) s s'"
      "view_ok v s'" "shows_face v s'" using q by auto
    then have "cube_in (view_mem v) (rubiks_cube v) (fst s') \<and> current_face v = int (snd s')"
      by (simp add: view_ok_def sole_cube_in)
    with run l False s show ?thesis by (intro exI [of _ left] exI [of _ v]) (auto simp del: split_paired_Ex)
  qed
qed

theorem view_main_correct_witness:
  "\<exists>v. view_main demo_platform 3 [(KEY_d, 0), (52, 1), (KEY_space, 2), (KEY_q, 3)] (view_start 5000) = Inr (True, v) \<and>
    live (view_mem v) = {}"
  using view_main_correct [OF demo_rng, of "[(KEY_d, 0), (52, 1), (KEY_space, 2), (KEY_q, 3)]" 5000 3]
  by (auto simp: quits_def)

section \<open>A client\<close>

text \<open>A client shows what it receives: when the line of a cube arrives, the displayed cube becomes
  that cube and the semaphore of the view is raised by one; the view then draws, in the pair of its
  colour plus one and in row order, each of the nine squares of the chosen face.\<close>

theorem client_shows_received:
  assumes "client_ok c W" and "solvable V" and "cube_face_id c = Some (int f)"
  shows "\<exists>c1 c2. receive_line sg (line_buffer (cube_line V) rest) c = Inr ((), c1) \<and> client_ok c1 V \<and>
    update_view_semaphore c1 = update_view_semaphore c + 1 \<and>
    update_view c1 = Inr ((), c2) \<and> client_ok c2 V \<and>
    client_screen c2 = client_screen c @ drawing True (\<lambda>k. view V (f, k)) 9"
proof -
  obtain c1 where r: "receive_line sg (line_buffer (cube_line V) rest) c = Inr ((), c1)" and ok: "client_ok c1 V"
    and same: "cube_face_id c1 = cube_face_id c" "client_screen c1 = client_screen c"
      "update_view_semaphore c1 = update_view_semaphore c + 1"
    using receive_line_wp [OF assms(1) solvable_std [OF assms(2)] solvable_plain [OF assms(2)], of sg rest]
    by (auto elim!: runs_toE)
  have "update_view c1 = Inr ((), c1\<lparr>client_screen := client_screen c1 @ drawing True (\<lambda>k. view V (f, k)) 9\<rparr>)"
    using assms(3) same(1) by (intro update_view_eq [OF ok]) simp
  with r ok same show ?thesis by (auto simp: client_ok_def)
qed

lemma demo_client:
  "\<exists>c. make_client_thread_args True True True (init_mem 5000) = Inr c \<and> client_ok c solved_val \<and>
     sole (client_mem c) (cube_state_to_display c) solved_val \<and> cube_face_id c = None"
proof -
  have "31 \<le> quota (init_mem 5000)" by (simp add: init_mem_def)
  from make_client_ok [OF init_empty this] show ?thesis by blast
qed

theorem client_shows_received_witness:
  "\<exists>c c1 c2. cube_face_id c = Some 2 \<and> receive_line True (line_buffer (cube_line (apply_turn (0, True) solved_val)) []) c =
    Inr ((), c1) \<and> update_view c1 = Inr ((), c2) \<and> client_ok c2 (apply_turn (0, True) solved_val)"
proof -
  obtain c where c: "client_ok c solved_val" using demo_client by blast
  let ?c = "c\<lparr>cube_face_id := Some (int 2)\<rparr>"
  have ok: "client_ok ?c solved_val" using c by (simp add: client_ok_def)
  have "solvable (apply_turn (0, True) solved_val)"
    using solvable_turns [OF solvable_solved, of "[(0, True)]"] by (simp add: valid_turn_def)
  from client_shows_received [OF ok this, of 2 True "[]"] have
    "\<exists>c1 c2. receive_line True (line_buffer (cube_line (apply_turn (0, True) solved_val)) []) ?c = Inr ((), c1) \<and>
      update_view c1 = Inr ((), c2) \<and> client_ok c2 (apply_turn (0, True) solved_val)"
    by auto
  moreover have "cube_face_id ?c = Some 2" by simp
  ultimately show ?thesis by blast
qed

text \<open>The face of a new client is never set: before a digit has been pressed, each command key and
  each redraw reads an indeterminate value, although the client has been created correctly.\<close>

theorem new_client_indeterminate:
  assumes "make_client_thread_args True True True h = Inr c"
  shows "(\<forall>input\<in>{KEY_a, KEY_d, KEY_space}. press_key input c = Inl Indeterminate) \<and>
    update_view c = Inl Indeterminate \<and>
    (\<forall>input. KEY_0 \<le> input \<and> input \<le> KEY_5 \<longrightarrow>
      (\<exists>c'. press_key input c = Inr (False, c') \<and> cube_face_id c' = Some (input - KEY_0)))"
proof -
  have n: "cube_face_id c = None"
    using assms by (auto simp: make_client_thread_args_def mapR_eq_Inr)
  have "\<exists>c'. press_key input c = Inr (False, c') \<and> cube_face_id c' = Some (input - KEY_0)"
    if "KEY_0 \<le> input" "input \<le> KEY_5" for input
    using that by (auto simp: press_key_def prog_simps choose_face_def sem_post_def)
  with n show ?thesis
    using press_key_indeterminate [OF n] update_view_indeterminate [OF n] by auto
qed

theorem new_client_indeterminate_witness:
  "\<exists>c. make_client_thread_args True True True (init_mem 5000) = Inr c \<and>
    press_key KEY_a c = Inl Indeterminate \<and> update_view c = Inl Indeterminate"
  using demo_client new_client_indeterminate by blast

end
