(* ===== verification/Unit_Tests.thy ===== *)
theory Unit_Tests
  imports Program_Properties
begin

text \<open>
  The tests of \<open>src/test\<close> that concern the cube, its text form and the commands, translated like
  the code they test. A test is a program that answers whether all its assertions hold; the first
  one that fails ends it. What they answer is proved for every well-formed memory with enough room,
  from the contracts of the functions they call. A test keeps its name; the assertion loops of a test
  are \<open>check_all\<close>, and tests of one pattern are instances of it. The tests of \<open>test_server_util.c\<close>
  and the first four of \<open>test_rubiks_server.c\<close> ask the kernel about a socket and are left out.
\<close>

section \<open>Assertions\<close>

primrec check_all :: "'i list \<Rightarrow> ('i \<Rightarrow> (mem, bool) prog) \<Rightarrow> (mem, bool) prog" where
  "check_all [] body = returnM True"
| "check_all (i # is) body = bindM (body i) (\<lambda>b. if b then check_all is body else returnM False)"

definition color_of :: "addr \<Rightarrow> nat \<Rightarrow> nat \<Rightarrow> (mem, int) prog" where
  "color_of p i j = bindM (get_face p (int i)) (\<lambda>f. get_color f (int j))"

definition paint :: "addr \<Rightarrow> nat \<times> nat \<times> int \<Rightarrow> (mem, unit) prog" where
  "paint p = (\<lambda>(i, j, x). bindM (get_face p (int i)) (\<lambda>f. set_color f (int j) x))"

definition same :: "(mem, int) prog \<Rightarrow> (mem, int) prog \<Rightarrow> (mem, bool) prog" where
  "same m k = bindM m (\<lambda>x. bindM k (\<lambda>y. returnM (x = y)))"

definition same_color :: "addr \<Rightarrow> addr \<Rightarrow> nat \<Rightarrow> nat \<Rightarrow> (mem, bool) prog" where
  "same_color p q i j = same (color_of p i j) (color_of q i j)"

section \<open>The tests of the cube library\<close>

text \<open>All five tests of \<open>rotate\<close> have this form: the squares of \<open>js\<close> on the face \<open>side\<close> are compared.\<close>

definition rotate_test :: "nat \<Rightarrow> int \<Rightarrow> nat \<times> nat \<times> int \<Rightarrow> (nat \<times> nat \<times> int) list \<Rightarrow> nat \<Rightarrow> nat list \<Rightarrow>
    (mem, bool) prog" where
  "rotate_test face_num direction mark marks side js =
     bindM make_cube (\<lambda>original. bindM make_cube (\<lambda>example.
     thenM (paint original mark)
    (thenM (for_each marks (paint example))
    (thenM (rotate_cube original (int face_num) direction)
    (check_all js (same_color original example side))))))"

definition test_rotate_clockwise_front_face :: "(mem, bool) prog" where
  "test_rotate_clockwise_front_face = rotate_test 0 0 (0, 0, 9) [(0, 2, 9)] 0 [0..<N_SQUARES_PER_FACE]"

definition test_rotate_counterclockwise_front_face :: "(mem, bool) prog" where
  "test_rotate_counterclockwise_front_face = rotate_test 0 1 (0, 0, 9) [(0, 6, 9)] 0 [0..<9]"

definition test_rotate_clockwise_other_faces :: "(mem, bool) prog" where
  "test_rotate_clockwise_other_faces =
     rotate_test 1 0 (3, 2, 9) [(0, 8, 9), (0, 5, 3), (0, 2, 3)] 0 [8, 5, 2]"

definition test_rotate_counterclockwise_other_faces :: "(mem, bool) prog" where
  "test_rotate_counterclockwise_other_faces =
     rotate_test 1 1 (5, 0, 9) [(2, 6, 9), (2, 7, 5), (2, 8, 5)] 2 [6..<9]"

definition test_rotate_counterclockwise_other_faces_first_to_last :: "(mem, bool) prog" where
  "test_rotate_counterclockwise_other_faces_first_to_last =
     rotate_test 3 1 (0, 6, 9) [(4, 6, 9), (4, 7, 0), (4, 8, 0)] 4 [6..<9]"

definition copy_cube_check_faces_colors :: "(mem, bool) prog" where
  "copy_cube_check_faces_colors =
     bindM make_cube (\<lambda>original. bindM make_cube (\<lambda>copy.
     thenM (for_each [0..<N_SQUARES_PER_FACE] (\<lambda>ind. paint copy (0, ind, 9)))
    (thenM (copy_cube original copy)
    (check_all [0..<N_FACES] (\<lambda>ind. check_all [0..<N_SQUARES_PER_FACE] (same_color original copy ind))))))"

definition test_shuffle_min_max_zero :: "platform \<Rightarrow> seed \<Rightarrow> (mem, bool) prog" where
  "test_shuffle_min_max_zero pf now =
     bindM make_cube (\<lambda>original. bindM make_cube (\<lambda>example.
     thenM (shuffle (rand_r pf) (face_first pf) now original 0 0)
    (check_all [0..<N_FACES] (\<lambda>ind. check_all [0..<N_SQUARES_PER_FACE] (same_color original example ind)))))"

definition test_solved_cube :: "(mem, bool) prog" where
  "test_solved_cube = bindM make_cube (\<lambda>cube. bindM (is_solved cube) (\<lambda>r. returnM (r = 1)))"

definition test_one_wrong_square :: "(mem, bool) prog" where
  "test_one_wrong_square = bindM make_cube (\<lambda>cube.
     thenM (paint cube (4, 7, 5)) (bindM (is_solved cube) (\<lambda>r. returnM (r = 0))))"

definition is_solved_rotated :: "(mem, bool) prog" where
  "is_solved_rotated = bindM make_cube (\<lambda>cube.
     thenM (rotate_cube cube 0 0) (bindM (is_solved cube) (\<lambda>r. returnM (r = 0))))"

definition is_solved_shuffled :: "platform \<Rightarrow> seed \<Rightarrow> (mem, bool) prog" where
  "is_solved_shuffled pf now = bindM make_cube (\<lambda>cube.
     thenM (shuffle (rand_r pf) (face_first pf) now cube 20 20)
     (bindM (is_solved cube) (\<lambda>r. returnM (r = 0))))"

section \<open>The tests of the text form and of the commands\<close>

text \<open>\<open>n\<close> is the length of the array \<open>result\<close>, 54 in both tests.\<close>

definition encoding_test :: "bool \<Rightarrow> nat \<Rightarrow> nat \<times> nat \<times> int \<Rightarrow> nat \<Rightarrow> (mem, bool) prog" where
  "encoding_test sg n mark side =
     bindM make_cube (\<lambda>original.
     thenM (paint original mark)
    (bindM make_cube (\<lambda>decoded.
     bindM (encode original (replicate n None)) (\<lambda>(r, result).
     thenM (decode sg decoded result)
    (check_all [0..<9] (same_color original decoded side))))))"

definition encode_properly :: "bool \<Rightarrow> (mem, bool) prog" where
  "encode_properly sg = encoding_test sg (6 * 9) (0, 6, 9) 4"

definition decode_properly :: "bool \<Rightarrow> (mem, bool) prog" where
  "decode_properly sg = encoding_test sg (6 * 9) (5, 2, 9) 5"

definition decodes_properly :: "platform \<Rightarrow> seed \<Rightarrow> (mem, bool) prog" where
  "decodes_properly pf now =
     bindM make_cube (\<lambda>original.
     thenM (paint original (5, 0, 9))
    (thenM (decode_user_input pf now (line_buffer ''5d'' []) original)
    (bindM (color_of original 5 6) (\<lambda>c. returnM (c = 9)))))"

definition encodes_properly :: "bool res" where
  "encodes_properly =
    (case encode_user_input KEY_a 2 (replicate 4 None) of Inl e \<Rightarrow> Inl e | Inr (r, encoded) \<Rightarrow>
    (case arr_get encoded 0 of Inl e \<Rightarrow> Inl e | Inr c0 \<Rightarrow>
     if c0 \<noteq> CHR ''2'' then Inr False
     else (case arr_get encoded 1 of Inl e \<Rightarrow> Inl e | Inr c1 \<Rightarrow> Inr (c1 = CHR ''1''))))"

section \<open>The tests of the faces and of the adjacency records\<close>

definition blank_face :: "(mem, addr) prog" where
  "blank_face = malloc face_heap_update
     \<lparr>colors = replicate N_SQUARES_PER_FACE None, adjacent_faces = replicate N_EDGES_PER_SIDE None\<rparr>"

definition blank_adjacent_face :: "(mem, addr) prog" where
  "blank_adjacent_face = malloc adjacent_heap_update
     \<lparr>face = None, edge_squares = replicate N_SQUARES_PER_SIDE None\<rparr>"

definition adj_num :: "addr \<Rightarrow> nat \<Rightarrow> (mem, int) prog" where
  "adj_num q ind = bindM (get_adjacent q (int ind)) get_adj_face"

definition adj_square :: "addr \<Rightarrow> nat \<Rightarrow> nat \<Rightarrow> (mem, int) prog" where
  "adj_square q ind jind = bindM (get_adjacent q (int ind)) (\<lambda>a. get_edge_square a (int jind))"

definition face_1_int :: "(mem, bool) prog" where
  "face_1_int = bindM (make_adjacent_face 1 [1, 2, 3]) (\<lambda>test. same (get_adj_face test) (returnM 1))"

definition face_1_adjacent_faces :: "(mem, bool) prog" where
  "face_1_adjacent_faces = bindM (make_adjacent_face 1 [1, 2, 3]) (\<lambda>test.
     check_all [0..<3] (\<lambda>ind. same (get_edge_square test (int ind)) (liftM (idx [1, 2, 3] (int ind)))))"

definition test_edge_squares :: "int list list" where
  "test_edge_squares = [no_edge, [SQUARE_UL, SQUARE_ML, SQUARE_LL], [SQUARE_UL, SQUARE_ML, SQUARE_LL],
     [SQUARE_UL, SQUARE_ML, SQUARE_LL], [SQUARE_LR, SQUARE_MR, SQUARE_UR], no_edge]"

definition update_adjacent_faces :: "(mem, bool) prog" where
  "update_adjacent_faces = bindM blank_face (\<lambda>new_face.
     thenM (initialize_adjacent_faces new_face [FACE_TOP, FACE_RIGHT, FACE_BOTTOM, FACE_LEFT] test_edge_squares)
    (check_all [(0, 2), (1, 1), (2, 3), (3, 4)] (\<lambda>(ind, n). same (adj_num new_face ind) (returnM n))))"

definition update_adjacent_edge_squares :: "(mem, bool) prog" where
  "update_adjacent_edge_squares = bindM blank_face (\<lambda>new_face.
     thenM (initialize_adjacent_faces new_face [FACE_TOP, FACE_RIGHT, FACE_BOTTOM, FACE_LEFT] test_edge_squares)
    (check_all [(0, 0), (1, 3), (2, SQUARE_LL)] (\<lambda>(k, n). same (adj_square new_face 0 k) (returnM n))))"

definition face_4_colors :: "(mem, bool) prog" where
  "face_4_colors = bindM (make_face 4) (\<lambda>face_four. same (get_color face_four 0) (returnM 4))"

definition face_4_adjacent_faces :: "(mem, bool) prog" where
  "face_4_adjacent_faces = bindM (make_face 4) (\<lambda>face_four. bindM blank_face (\<lambda>test_face_four.
     thenM (initialize_adjacent_faces test_face_four [FACE_FRONT, FACE_BOTTOM, FACE_BACK, FACE_TOP]
       [[SQUARE_UL, SQUARE_ML, SQUARE_LL], no_edge, [SQUARE_UR, SQUARE_UM, SQUARE_UL],
        [SQUARE_LL, SQUARE_LM, SQUARE_LR], no_edge, [SQUARE_LR, SQUARE_MR, SQUARE_UR]])
    (check_all [0..<4] (\<lambda>ind. check_all [0..<3] (\<lambda>jind.
       same (adj_square face_four ind jind) (adj_square test_face_four ind jind))))))"

definition copy_adjacent_face_check_face :: "(mem, bool) prog" where
  "copy_adjacent_face_check_face =
     bindM (make_adjacent_face 3 [0, 3, 6]) (\<lambda>original. bindM blank_adjacent_face (\<lambda>copy.
     thenM (copy_adjacent_face original copy) (same (get_adj_face original) (get_adj_face copy))))"

definition copy_adjacent_face_check_edge_squares :: "(mem, bool) prog" where
  "copy_adjacent_face_check_edge_squares =
     bindM (make_adjacent_face 3 [0, 3, 6]) (\<lambda>original. bindM blank_adjacent_face (\<lambda>copy.
     thenM (copy_adjacent_face original copy) (check_all [0..<3] (\<lambda>ind.
       same (get_edge_square original (int ind)) (get_edge_square copy (int ind))))))"

definition copy_face_test :: "nat \<Rightarrow> (addr \<Rightarrow> addr \<Rightarrow> (mem, bool) prog) \<Rightarrow> (mem, bool) prog" where
  "copy_face_test face_num check =
     bindM (make_face (int face_num)) (\<lambda>original. bindM (make_face 0) (\<lambda>copy.
     thenM (copy_face original copy) (check original copy)))"

definition copy_face_check_colors :: "(mem, bool) prog" where
  "copy_face_check_colors = copy_face_test 3 (\<lambda>original copy. check_all [0..<N_SQUARES_PER_FACE] (\<lambda>ind.
     same (get_color original (int ind)) (get_color copy (int ind))))"

definition copy_face_check_adjacent_face_nums :: "(mem, bool) prog" where
  "copy_face_check_adjacent_face_nums = copy_face_test 1 (\<lambda>original copy. check_all [0..<N_EDGES_PER_SIDE]
     (\<lambda>ind. same (adj_num original ind) (adj_num copy ind)))"

definition copy_face_check_adjacent_face_edge_squares :: "(mem, bool) prog" where
  "copy_face_check_adjacent_face_edge_squares = copy_face_test 2 (\<lambda>original copy. check_all [0..<4] (\<lambda>ind.
     check_all [0..<3] (\<lambda>jind. same (adj_square original ind jind) (adj_square copy ind jind))))"

definition of_face :: "addr \<Rightarrow> nat \<Rightarrow> (addr \<Rightarrow> (mem, 'a) prog) \<Rightarrow> (mem, 'a) prog" where
  "of_face p i m = bindM (get_face p (int i)) m"

definition copy_cube_check_faces_adjacent_faces_edge_squares :: "(mem, bool) prog" where
  "copy_cube_check_faces_adjacent_faces_edge_squares =
     bindM make_cube (\<lambda>original. bindM make_cube (\<lambda>copy.
     thenM (for_each [0..<N_FACES] (\<lambda>jind. for_each [0..<N_EDGES_PER_SIDE] (\<lambda>ind.
       for_each [0..<N_SQUARES_PER_SIDE] (\<lambda>kind. of_face copy jind (\<lambda>f.
         bindM (get_adjacent f (int ind)) (\<lambda>a. set_edge_square a (int kind) 9))))))
    (thenM (copy_cube original copy)
    (check_all [0..<N_FACES] (\<lambda>jind. check_all [0..<N_EDGES_PER_SIDE] (\<lambda>ind.
       check_all [0..<N_SQUARES_PER_SIDE] (\<lambda>kind.
         same (of_face copy jind (\<lambda>f. adj_square f ind kind))
              (of_face original jind (\<lambda>f. adj_square f ind kind)))))))))"

definition copy_cube_check_faces_adjacent_faces_face_nums :: "(mem, bool) prog" where
  "copy_cube_check_faces_adjacent_faces_face_nums =
     bindM make_cube (\<lambda>original. bindM make_cube (\<lambda>copy.
     thenM (copy_cube original copy)
    (thenM (for_each [0..<N_FACES] (\<lambda>jind. for_each [0..<N_EDGES_PER_SIDE] (\<lambda>ind.
       of_face copy jind (\<lambda>f. bindM (get_adjacent f (int ind)) (\<lambda>a. set_adj_face a 9)))))
    (check_all [0..<N_FACES] (\<lambda>ind. check_all [0..<N_SQUARES_PER_FACE] (same_color original copy ind))))))"

section \<open>One cube and two cubes in memory\<close>

definition one_cube :: "mem \<Rightarrow> addr \<Rightarrow> face_val list \<Rightarrow> nat \<Rightarrow> bool" where
  "one_cube h p V n \<longleftrightarrow> wf_mem h \<and> n \<le> quota h \<and> std V \<and> (\<exists>L. cube_at h p L V)"

definition two_cubes :: "mem \<Rightarrow> addr \<Rightarrow> face_val list \<Rightarrow> addr \<Rightarrow> face_val list \<Rightarrow> nat \<Rightarrow> bool" where
  "two_cubes h p V q W n \<longleftrightarrow> wf_mem h \<and> n \<le> quota h \<and> std V \<and> std W \<and>
     (\<exists>L M. cube_at h p L V \<and> cube_at h q M W \<and> set (cube_addrs p L) \<inter> set (cube_addrs q M) = {})"

definition marked :: "nat \<times> nat \<times> int \<Rightarrow> face_val list \<Rightarrow> face_val list" where
  "marked = (\<lambda>(i, j, x). set_sq i j x)"

definition on_cube :: "nat \<times> nat \<times> int \<Rightarrow> bool" where
  "on_cube = (\<lambda>(i, j, x). i < N_FACES \<and> j < N_SQUARES_PER_FACE)"

lemma one_cube_in: "one_cube h p V n \<longleftrightarrow> cube_in h p V \<and> n \<le> quota h"
  by (auto simp: one_cube_def cube_in_def)

lemma two_cubes_sym: "two_cubes h p V q W n \<Longrightarrow> two_cubes h q W p V n"
  unfolding two_cubes_def by (metis Int_commute)

lemma two_cubes_one: "two_cubes h p V q W n \<Longrightarrow> one_cube h p V n"
  by (auto simp: two_cubes_def one_cube_def)

lemma first_cube:
  "wf_mem h \<Longrightarrow> 31 + n \<le> quota h \<Longrightarrow> runs_to make_cube h (\<lambda>p h'. one_cube h' p solved_val n)"
  by (rule runs_to_mono [OF lib.make_law]) (auto simp: one_cube_in)

lemma second_cube:
  assumes "one_cube h p V (31 + n)"
  shows "runs_to make_cube h (\<lambda>q h'. two_cubes h' p V q solved_val n)"
proof -
  obtain L where wf: "wf_mem h" and q: "31 + n \<le> quota h" and V: "std V" and c: "cube_at h p L V"
    using assms by (auto simp: one_cube_def)
  let ?q = "next_addr h"
  have nn: "?q \<noteq> NULL" and ok: "mem_ok h" using wf by (simp_all add: wf_mem_def mem_ok_def)
  have d: "set (cube_addrs p L) \<inter> set (cube_addrs ?q (layout_from ?q)) = {}"
    using cube_at_live [OF c ok] by (auto simp: cube_addrs_layout)
  have "cube_at g p L V" if "allocated 31 h g" for g
    using that d by (intro cube_at_frame [OF c]) (auto simp: allocated_def cube_addrs_layout)
  with keeps_runs_to [OF keeps_make_cube wf make_cube_wp [OF _ nn]] q V d show ?thesis
    by (auto simp: two_cubes_def allocated_def std_solved elim!: runs_to_mono)
qed

text \<open>What is done to one of two cubes leaves the other as it is.\<close>

lemma on_one:
  assumes h: "one_cube h p V n" and k: "keeps m" and V': "std V'" and n: "n' + k \<le> n"
    and m: "\<And>L. cube_at h p L V \<Longrightarrow> wf_mem h \<Longrightarrow> runs_to m h (\<lambda>_ h'. cube_at h' p L V' \<and>
      unchanged (set (cube_addrs p L)) h h' \<and> quota h = quota h' + k)"
  shows "runs_to m h (\<lambda>_ h'. one_cube h' p V' n')"
proof -
  obtain L where wf: "wf_mem h" and q: "n \<le> quota h" and c: "cube_at h p L V"
    using h by (auto simp: one_cube_def)
  from keeps_runs_to [OF k wf m [OF c wf]] q n V' show ?thesis
    by (auto simp: one_cube_def elim!: runs_to_mono)
qed

lemma on_first:
  assumes h: "two_cubes h p V q W n" and k: "keeps m" and V': "std V'" and n: "n' + k \<le> n"
    and m: "\<And>L. cube_at h p L V \<Longrightarrow> wf_mem h \<Longrightarrow> runs_to m h (\<lambda>_ h'. cube_at h' p L V' \<and>
      unchanged (set (cube_addrs p L)) h h' \<and> quota h = quota h' + k)"
  shows "runs_to m h (\<lambda>_ h'. two_cubes h' p V' q W n')"
proof -
  obtain L M where wf: "wf_mem h" and q: "n \<le> quota h" and W: "std W" and c: "cube_at h p L V"
    and d: "cube_at h q M W" "set (cube_addrs p L) \<inter> set (cube_addrs q M) = {}"
    using h by (auto simp: two_cubes_def)
  have "cube_at g q M W" if "unchanged (set (cube_addrs p L)) h g" for g
    using d by (intro cube_at_frame [OF d(1) that]) auto
  with keeps_runs_to [OF k wf m [OF c wf]] q n V' W d(2) show ?thesis
    by (auto simp: two_cubes_def elim!: runs_to_mono)
qed

lemma keeps_paint: "keeps (paint p m)"
  by (cases m) (auto simp: paint_def intro!: keeps_intro)

lemma paint_cube:
  assumes "cube_at h p L V" and "on_cube m"
  shows "runs_to (paint p m) h (\<lambda>_ h'. cube_at h' p L (marked m V) \<and>
    unchanged (set (cube_addrs p L)) h h' \<and> quota h = quota h' + 0)"
proof -
  obtain i j x where m: "m = (i, j, x)" by (cases m)
  then have i: "i < N_FACES" and j: "j < N_SQUARES_PER_FACE" using assms(2) by (auto simp: on_cube_def)
  show ?thesis
    using set_color_cube_wp [OF assms(1) i j, of x]
    by (auto simp: paint_def m marked_def runs_to_bind get_face_wp [OF assms(1) i] same_alloc_def
      elim!: runs_to_mono)
qed

lemma std_marked: "std V \<Longrightarrow> std (marked m V)"
  by (cases m) (simp add: marked_def std_set_sq)

lemma paint_one:
  assumes "one_cube h p V n" and "on_cube m"
  shows "runs_to (paint p m) h (\<lambda>_ h'. one_cube h' p (marked m V) n)"
  using assms by (intro on_one [OF assms(1) keeps_paint _ _ paint_cube [where m = m]])
    (auto simp: one_cube_def std_marked)

lemma paint_first:
  assumes "two_cubes h p V q W n" and "on_cube m"
  shows "runs_to (paint p m) h (\<lambda>_ h'. two_cubes h' p (marked m V) q W n)"
  using assms by (intro on_first [OF assms(1) keeps_paint _ _ paint_cube [where m = m]])
    (auto simp: two_cubes_def std_marked)

lemma paint_second:
  assumes "two_cubes h p V q W n" and "on_cube m"
  shows "runs_to (paint q m) h (\<lambda>_ h'. two_cubes h' p V q (marked m W) n)"
  by (rule runs_to_mono [OF paint_first [OF two_cubes_sym [OF assms(1)] assms(2)]])
    (rule two_cubes_sym)

lemma paint_all_second:
  assumes "two_cubes h p V q W n" and "list_all on_cube ms"
  shows "runs_to (for_each ms (paint q)) h (\<lambda>_ h'. two_cubes h' p V q (fold marked ms W) n)"
  using assms
proof (induction ms arbitrary: h W)
  case (Cons m ms)
  from Cons.prems have "list_all on_cube ms" and m: "on_cube m" by simp_all
  then show ?case
    using runs_to_thenI [OF paint_second [OF Cons.prems(1) m] Cons.IH] by simp
qed simp

lemma rotate_first:
  assumes h: "two_cubes h p V q W n" and f: "f < N_FACES" and n: "n' + 31 \<le> n"
  shows "runs_to (rotate_cube p (int f) d) h (\<lambda>_ h'. two_cubes h' p (apply_turn (f, d = 0) V) q W n')"
proof -
  have V: "std V" and q: "31 \<le> quota h" using h n by (auto simp: two_cubes_def)
  show ?thesis
    unfolding apply_turn_def fst_conv snd_conv
  proof (rule on_first [OF h keeps_rotate std_rotated [OF V f] n])
    fix L assume "cube_at h p L V" and "wf_mem h"
    from rotate_cube_wp [OF this(2) q this(1) f std_face(3) [OF V f]]
    show "runs_to (rotate_cube p (int f) d) h (\<lambda>_ h'. cube_at h' p L (rotated_val (d = 0) f V) \<and>
        unchanged (set (cube_addrs p L)) h h' \<and> quota h = quota h' + 31)"
      by (rule runs_to_mono) simp
  qed
qed

section \<open>Comparing\<close>

lemma runs_to_check_all:
  assumes "\<And>i. i \<in> set is \<Longrightarrow> runs_to (body i) h (\<lambda>r h'. r = P i \<and> h' = h)"
  shows "runs_to (check_all is body) h (\<lambda>r h'. r = (\<forall>i\<in>set is. P i) \<and> h' = h)"
  using assms
proof (induction "is")
  case (Cons i "is")
  show ?case
    unfolding check_all.simps
    by (rule runs_to_bindI [OF Cons.prems]) (use Cons in \<open>auto elim: runs_to_mono\<close>)
qed simp

lemma all_equal:
  assumes "\<And>i. i \<in> set is \<Longrightarrow> runs_to (body i) h (\<lambda>r h'. r \<and> h' = h)"
  shows "runs_to (check_all is body) h (\<lambda>r h'. r \<and> h' = h)"
  by (rule runs_to_mono [OF runs_to_check_all [where P = "\<lambda>_. True"]])
    (use assms in \<open>auto elim: runs_to_mono\<close>)

lemma all_pass:
  assumes "\<And>i. i \<in> set is \<Longrightarrow> runs_to (body i) h (\<lambda>r h'. r \<and> h' = h)"
  shows "runs_to (check_all is body) h (\<lambda>r h'. r)"
  by (rule runs_to_mono [OF all_equal [OF assms]]) blast+

lemma color_of_wp:
  assumes "cube_at h p L V" and "i < N_FACES" and "j < N_SQUARES_PER_FACE"
  shows "runs_to (color_of p i j) h Q \<longleftrightarrow> Q (view V (i, j)) h"
  by (simp add: color_of_def runs_to_bind get_face_wp [OF assms(1,2)]
    get_color_wp [OF cube_at_face [OF assms(1,2)] assms(3)] view_def)

lemma same_color_wp:
  assumes "two_cubes h p V q W n" and "i < N_FACES" and "j < N_SQUARES_PER_FACE"
  shows "runs_to (same_color p q i j) h (\<lambda>r h'. r = (view V (i, j) = view W (i, j)) \<and> h' = h)"
proof -
  obtain L M where c: "cube_at h p L V" and d: "cube_at h q M W"
    using assms(1) by (auto simp: two_cubes_def)
  show ?thesis
    by (simp add: same_color_def same_def runs_to_bind color_of_wp [OF c assms(2,3)] color_of_wp [OF d assms(2,3)])
qed

definition agree :: "face_val list \<Rightarrow> face_val list \<Rightarrow> nat \<Rightarrow> nat list \<Rightarrow> bool" where
  "agree V W i js = list_all (\<lambda>j. view V (i, j) = view W (i, j)) js"

lemma same_colors_wp:
  assumes "two_cubes h p V q W n" and "i < N_FACES" and "list_all (\<lambda>j. j < N_SQUARES_PER_FACE) js"
  shows "runs_to (check_all js (same_color p q i)) h (\<lambda>r h'. r = agree V W i js \<and> h' = h)"
  unfolding agree_def list_all_iff
  by (rule runs_to_check_all) (use assms in \<open>auto simp: list_all_iff intro: same_color_wp\<close>)

lemma same_cubes_wp:
  assumes h: "two_cubes h p V q W n"
  shows "runs_to (check_all [0..<N_FACES] (\<lambda>i. check_all [0..<N_SQUARES_PER_FACE] (same_color p q i))) h
    (\<lambda>r h'. r = (V = W) \<and> h' = h)"
proof -
  have "runs_to (check_all [0..<N_FACES] (\<lambda>i. check_all [0..<N_SQUARES_PER_FACE] (same_color p q i))) h
      (\<lambda>r h'. r = (\<forall>i\<in>set [0..<N_FACES]. agree V W i [0..<N_SQUARES_PER_FACE]) \<and> h' = h)"
    by (rule runs_to_check_all, rule same_colors_wp [OF h]) (simp_all add: list_all_iff)
  moreover have "(\<forall>i\<in>set [0..<N_FACES]. agree V W i [0..<N_SQUARES_PER_FACE]) \<longleftrightarrow> V = W"
    using h std_eqI [of V W] by (auto simp: agree_def list_all_iff two_cubes_def in_stickers)
  ultimately show ?thesis by simp
qed

section \<open>What the tests answer\<close>

lemma two_new:
  assumes "wf_mem h" and "62 + n \<le> quota h"
    and "\<And>p q g. two_cubes g p solved_val q solved_val n \<Longrightarrow> runs_to (k p q) g Q"
  shows "runs_to (bindM make_cube (\<lambda>p. bindM make_cube (k p))) h Q"
proof (rule runs_to_bindI [OF first_cube [OF assms(1), of "31 + n"]])
  show "31 + (31 + n) \<le> quota h" using assms(2) by simp
  fix p g assume "one_cube g p solved_val (31 + n)"
  from runs_to_bindI [OF second_cube [OF this] assms(3)]
  show "runs_to (bindM make_cube (k p)) g Q" .
qed

lemma rotate_test_wp:
  assumes h: "wf_mem h" "93 \<le> quota h" and f: "f < N_FACES" and m: "on_cube m" "list_all on_cube ms"
    and s: "side < N_FACES" "list_all (\<lambda>j. j < N_SQUARES_PER_FACE) js"
  shows "runs_to (rotate_test f d m ms side js) h (\<lambda>r h'. r =
    agree (apply_turn (f, d = 0) (marked m solved_val)) (fold marked ms solved_val) side js)"
  unfolding rotate_test_def
proof (rule two_new [OF h(1), of 31])
  show "62 + 31 \<le> quota h" using h by simp
  fix p q g assume "two_cubes g p solved_val q solved_val 31"
  note 1 = paint_first [OF this m(1)] and 2 = paint_all_second [OF _ m(2)]
    and 3 = rotate_first [OF _ f, where n' = 0]
    and 4 = runs_to_mono [OF same_colors_wp [OF _ s]]
  show "runs_to (thenM (paint p m) (thenM (for_each ms (paint q))
      (thenM (rotate_cube p (int f) d) (check_all js (same_color p q side))))) g
      (\<lambda>r h'. r = agree (apply_turn (f, d = 0) (marked m solved_val)) (fold marked ms solved_val) side js)"
    by (rule runs_to_thenI [OF 1], rule runs_to_thenI [OF 2], assumption,
      rule runs_to_thenI [OF 3], assumption, simp, rule 4, assumption, simp)
qed

lemma rotate_tests_pass:
  assumes "wf_mem h" and "93 \<le> quota h"
  shows "runs_to test_rotate_clockwise_front_face h (\<lambda>r h'. r)"
    and "runs_to test_rotate_counterclockwise_front_face h (\<lambda>r h'. r)"
    and "runs_to test_rotate_clockwise_other_faces h (\<lambda>r h'. r)"
    and "runs_to test_rotate_counterclockwise_other_faces h (\<lambda>r h'. r)"
    and "runs_to test_rotate_counterclockwise_other_faces_first_to_last h (\<lambda>r h'. r)"
proof -
  have t: "runs_to (rotate_test f d m ms side js) h (\<lambda>r h'. r)"
    if "f < N_FACES \<and> on_cube m \<and> list_all on_cube ms \<and> side < N_FACES \<and>
        list_all (\<lambda>j. j < N_SQUARES_PER_FACE) js \<and>
        agree (apply_turn (f, d = 0) (marked m solved_val)) (fold marked ms solved_val) side js"
    for f d m ms side js
    using that by (intro runs_to_mono [OF rotate_test_wp [OF assms]]) auto
  show "runs_to test_rotate_clockwise_front_face h (\<lambda>r h'. r)"
    unfolding test_rotate_clockwise_front_face_def by (rule t) code_simp
  show "runs_to test_rotate_counterclockwise_front_face h (\<lambda>r h'. r)"
    unfolding test_rotate_counterclockwise_front_face_def by (rule t) code_simp
  show "runs_to test_rotate_clockwise_other_faces h (\<lambda>r h'. r)"
    unfolding test_rotate_clockwise_other_faces_def by (rule t) code_simp
  show "runs_to test_rotate_counterclockwise_other_faces h (\<lambda>r h'. r)"
    unfolding test_rotate_counterclockwise_other_faces_def by (rule t) code_simp
  show "runs_to test_rotate_counterclockwise_other_faces_first_to_last h (\<lambda>r h'. r)"
    unfolding test_rotate_counterclockwise_other_faces_first_to_last_def by (rule t) code_simp
qed

lemma copy_first:
  assumes h: "two_cubes h p V q W n"
  shows "runs_to (copy_cube p q) h (\<lambda>_ h'. two_cubes h' p V q V n)"
proof -
  obtain L M where wf: "wf_mem h" and q: "n \<le> quota h" and V: "std V" and c: "cube_at h p L V"
    and d: "cube_at h q M W" "set (cube_addrs p L) \<inter> set (cube_addrs q M) = {}"
    using h by (auto simp: two_cubes_def)
  have "cube_at g p L V" if "unchanged (set (cube_addrs q M)) h g" for g
    using d by (intro cube_at_frame [OF c that])
  with keeps_runs_to [OF keeps_copy(3) wf copy_cube_wp [OF c d]] q V d(2) show ?thesis
    by (auto simp: two_cubes_def same_alloc_def elim!: runs_to_mono)
qed

lemma copy_colors_passes:
  assumes "wf_mem h" and "62 \<le> quota h"
  shows "runs_to copy_cube_check_faces_colors h (\<lambda>r h'. r)"
  unfolding copy_cube_check_faces_colors_def
proof (rule two_new [OF assms(1), of 0])
  show "62 + 0 \<le> quota h" using assms by simp
  fix p q g assume g: "two_cubes g p solved_val q solved_val 0"
  let ?ms = "map (\<lambda>j. (0, j, 9)) [0..<N_SQUARES_PER_FACE]"
  have "runs_to (for_each ?ms (paint q)) g
      (\<lambda>_ h'. two_cubes h' p solved_val q (fold marked ?ms solved_val) 0)"
    by (rule paint_all_second [OF g]) (simp add: list_all_iff on_cube_def)
  then have 1: "runs_to (for_each [0..<N_SQUARES_PER_FACE] (\<lambda>j. paint q (0, j, 9))) g
      (\<lambda>_ h'. two_cubes h' p solved_val q (fold marked ?ms solved_val) 0)"
    by (simp only: for_each_map)
  show "runs_to (thenM (for_each [0..<N_SQUARES_PER_FACE] (\<lambda>ind. paint q (0, ind, 9)))
      (thenM (copy_cube p q) (check_all [0..<N_FACES] (\<lambda>ind. check_all [0..<N_SQUARES_PER_FACE]
        (same_color p q ind))))) g (\<lambda>r h'. r)"
    by (rule runs_to_thenI [OF 1], rule runs_to_thenI [OF copy_first], assumption,
      rule runs_to_mono [OF same_cubes_wp], assumption, simp)
qed

lemma shuffle_none: "rng_ok rng \<Longrightarrow> shuffle rng ff now p 0 0 h = Inr ((), h)"
  using shuffle_depth_range(1) [of "fst (rng now)" 0 0]
  by (auto simp: shuffle_def rng_ok_def prog_simps INT_MAX_def split: prod.split)

lemma shuffle_zero_passes:
  assumes "rng_ok (rand_r pf)" and "wf_mem h" and "62 \<le> quota h"
  shows "runs_to (test_shuffle_min_max_zero pf now) h (\<lambda>r h'. r)"
  unfolding test_shuffle_min_max_zero_def
proof (rule two_new [OF assms(2), of 0])
  show "62 + 0 \<le> quota h" using assms by simp
  fix p q g assume g: "two_cubes g p solved_val q solved_val 0"
  have "runs_to (shuffle (rand_r pf) (face_first pf) now p 0 0) g (\<lambda>_ h'. h' = g)"
    by (simp add: runs_to_def shuffle_none [OF assms(1)])
  from runs_to_thenI [OF this, of _ "\<lambda>r _. r"] runs_to_mono [OF same_cubes_wp [OF g], of "\<lambda>r _. r"]
  show "runs_to (thenM (shuffle (rand_r pf) (face_first pf) now p 0 0)
      (check_all [0..<N_FACES] (\<lambda>ind. check_all [0..<N_SQUARES_PER_FACE] (same_color p q ind)))) g (\<lambda>r h'. r)"
    by simp
qed

lemma is_solved_answer:
  assumes "cube_in h p V"
  shows "runs_to (bindM (is_solved p) (\<lambda>r. returnM (r = 1))) h (\<lambda>r _. r = solved_colors V)"
    and "runs_to (bindM (is_solved p) (\<lambda>r. returnM (r = 0))) h (\<lambda>r _. r = (\<not> solved_colors V))"
  by (simp_all add: runs_to_def prog_simps lib.solved_law [OF assms])

lemma solved_colors_eval: "solved_colors V = list_all (\<lambda>s. view V s = int (fst s)) stickers"
  by (simp add: solved_colors_def list_all_iff)

lemma is_solved_tests_pass:
  assumes "wf_mem h" and "62 \<le> quota h"
  shows "runs_to test_solved_cube h (\<lambda>r h'. r)"
    and "runs_to test_one_wrong_square h (\<lambda>r h'. r)"
    and "runs_to is_solved_rotated h (\<lambda>r h'. r)"
proof -
  have new: "runs_to make_cube h (\<lambda>p h'. one_cube h' p solved_val 31)"
    using assms by (intro first_cube) simp_all
  have solved: "solved_colors solved_val"
    and wrong: "\<not> solved_colors (marked (4, 7, 5) solved_val)"
    and turned: "\<not> solved_colors (apply_turn (0, True) solved_val)"
    unfolding solved_colors_eval by code_simp+
  show "runs_to test_solved_cube h (\<lambda>r h'. r)"
    unfolding test_solved_cube_def
    by (rule runs_to_bindI [OF new], rule runs_to_mono [OF is_solved_answer(1)])
      (auto simp: one_cube_in solved)
  show "runs_to test_one_wrong_square h (\<lambda>r h'. r)"
    unfolding test_one_wrong_square_def
    by (rule runs_to_bindI [OF new], rule runs_to_thenI [OF paint_one], assumption,
        simp add: on_cube_def, rule runs_to_mono [OF is_solved_answer(2)])
      (auto simp: one_cube_in wrong)
  show "runs_to is_solved_rotated h (\<lambda>r h'. r)"
    unfolding is_solved_rotated_def
  proof (rule runs_to_bindI [OF new])
    fix p g assume "one_cube g p solved_val 31"
    then have "runs_to (rotate_cube p (int 0) 0) g
        (\<lambda>_ h'. cube_in h' p (apply_turn (0, True) solved_val) \<and> quota g = quota h' + 31)"
      using rotate_cube_in [of g p solved_val 0 0] by (simp add: one_cube_in)
    then have turn: "runs_to (rotate_cube p 0 0) g
        (\<lambda>_ h'. cube_in h' p (apply_turn (0, True) solved_val) \<and> quota g = quota h' + 31)"
      by simp
    show "runs_to (thenM (rotate_cube p 0 0) (bindM (is_solved p) (\<lambda>r. returnM (r = 0)))) g (\<lambda>r h'. r)"
      by (rule runs_to_thenI [OF turn], elim conjE, rule runs_to_mono [OF is_solved_answer(2)])
        (use turned in \<open>blast+\<close>)
  qed
qed

text \<open>The last test of \<open>is_solved\<close> depends on the numbers that are drawn: it passes exactly when the twenty
  rotations do not happen to solve the cube.\<close>

lemma is_solved_shuffled_wp:
  assumes rng: "rng_ok (rand_r pf)" and h: "wf_mem h" "651 \<le> quota h"
  shows "runs_to (is_solved_shuffled pf now) h (\<lambda>r h'. r = (\<not> solved_colors (fold apply_turn
    (map (\<lambda>t. (fst t, snd t = 0)) (draws (rand_r pf) (face_first pf) 20 (snd (rand_r pf now)))) solved_val)))"
proof -
  let ?ts = "draws (rand_r pf) (face_first pf) 20 (snd (rand_r pf now))"
  let ?V = "fold apply_turn (map (\<lambda>t. (fst t, snd t = 0)) ?ts) solved_val"
  have new: "runs_to make_cube h (\<lambda>p h'. one_cube h' p solved_val 620)"
    using h by (intro first_cube) simp_all
  have "runs_to (shuffle (rand_r pf) (face_first pf) now p 20 20) g (\<lambda>_ h'. cube_in h' p ?V)"
    if "one_cube g p solved_val 620" for p g
  proof -
    have "0 \<le> fst (rand_r pf now)" using rng by (simp add: rng_ok_def)
    then have "shuffle_depth (fst (rand_r pf now)) 20 20 = Inr 20"
      using shuffle_depth_range(1) [of "fst (rand_r pf now)" 20 20] by (simp add: INT_MAX_def)
    then have eq: "shuffle (rand_r pf) (face_first pf) now p 20 20 g = lib.all_turns p ?ts g"
      by (cases "rand_r pf now") (simp add: shuffle_def prog_simps lib.shuffle_loop_eq [OF rng])
    have "cube_in g p solved_val" and "31 * length ?ts \<le> quota g"
      using that by (simp_all add: one_cube_in)
    from lib.all_turns_wp [OF this] have "runs_to (lib.all_turns p ?ts) g (\<lambda>_ h'. cube_in h' p ?V)"
      using draws_faces by (auto elim: runs_to_mono)
    then show ?thesis by (simp add: runs_to_def eq)
  qed
  then show ?thesis
    unfolding is_solved_shuffled_def
    by (intro runs_to_bindI [OF new] runs_to_thenI [where P = "\<lambda>_ h'. cube_in h' _ ?V"]
      is_solved_answer(2))
qed

text \<open>It can fail: a generator that always answers 0 turns the front face twenty times.\<close>

lemma zeros_solve: "solved_colors (fold apply_turn (map (\<lambda>t. (fst t, snd t = 0))
    (draws (\<lambda>s. (0, s)) ff 20 s)) solved_val)"
proof -
  have "draws (\<lambda>s. (0, s)) ff n s = replicate n (0, 0)" for n
    by (induction n) (auto simp: shuffle_args_def)
  moreover have "solved_colors (fold apply_turn (replicate 20 (0, True)) solved_val)"
    unfolding solved_colors_eval by code_simp
  ultimately show ?thesis by simp
qed

lemma shuffled_test_can_fail:
  assumes "rand_r pf = (\<lambda>s. (0, s))" and "wf_mem h" and "651 \<le> quota h"
  shows "runs_to (is_solved_shuffled pf now) h (\<lambda>r h'. \<not> r)"
proof -
  have rng: "rng_ok (rand_r pf)" by (simp add: assms(1) rng_ok_def INT_MAX_def)
  show ?thesis
    by (rule runs_to_mono [OF is_solved_shuffled_wp [OF rng assms(2,3)]])
      (use zeros_solve in \<open>simp add: assms(1)\<close>)
qed

section \<open>The text form and the commands\<close>

lemma two_cubes_printed: "two_cubes h p V q W n \<Longrightarrow> two_cubes (printed t h) p V q W n"
  by (simp add: two_cubes_def wf_mem_def mem_ok_def live_def one_type_def cube_at_def face_at_def
    adj_at_def printed_def)

lemma encode_first:
  assumes h: "two_cubes h p V q W n" and c: "\<forall>s\<in>set stickers. codable sg (view V s) \<and> view V s \<noteq> - 48"
  shows "length buf < 56 \<Longrightarrow> encode p buf h = Inl Out_Of_Bounds"
    and "56 \<le> length buf \<Longrightarrow> runs_to (encode p buf) h
      (\<lambda>x h'. x = (0, line_buffer (cube_line V) (drop 56 buf)) \<and> two_cubes h' p V q W n)"
proof -
  obtain L where p: "cube_at h p L V" using h by (auto simp: two_cubes_def)
  note fits = codable_text [OF c]
  show "length buf < 56 \<Longrightarrow> encode p buf h = Inl Out_Of_Bounds"
    by (rule encode_short_buffer [OF p fits(1)])
  show "56 \<le> length buf \<Longrightarrow> runs_to (encode p buf) h
      (\<lambda>x h'. x = (0, line_buffer (cube_line V) (drop 56 buf)) \<and> two_cubes h' p V q W n)"
    using encode_wp [OF p fits(1) _ fits(2)] two_cubes_printed [OF h] by (simp add: runs_to_def)
qed

lemma decode_second:
  assumes h: "two_cubes h p V q W n" and c: "\<forall>s\<in>set stickers. codable sg (view V s) \<and> view V s \<noteq> - 48"
  shows "runs_to (decode sg q (line_buffer (cube_line V) rest)) h (\<lambda>_ h'. two_cubes h' p V q V n)"
proof -
  have V: "std V" and W: "std W" using h by (simp_all add: two_cubes_def)
  have n: "54 \<le> length (cube_line V)" by (simp add: cube_line_def)
  have "decoded sg (cube_line V) W = V" using c by (intro decoded_cube_line [OF V W]) simp
  then have "runs_to (decode sg q (line_buffer (cube_line V) rest)) h (\<lambda>_ h'. cube_at h' q M V \<and>
      unchanged (set (cube_addrs q M)) h h' \<and> quota h = quota h' + 0)" if "cube_at h q M W" for M
    using decode_wp [OF that n, of sg rest] by (auto simp: same_alloc_def elim!: runs_to_mono)
  from on_first [OF two_cubes_sym [OF h] keeps_decode V _ this, of n] show ?thesis
    by (auto intro: two_cubes_sym elim!: runs_to_mono)
qed

text \<open>With the array of 54 characters that the tests use, \<open>encode\<close> writes outside it, and the tests say
  nothing about \<open>decode\<close>; with 56 characters they pass.\<close>

lemma encoding_test_wp:
  assumes h: "wf_mem h" "62 \<le> quota h" and m: "on_cube m" "codable sg (snd (snd m))" "snd (snd m) \<noteq> - 48"
    and side: "side < N_FACES"
  shows "n < 56 \<Longrightarrow> encoding_test sg n m side h = Inl Out_Of_Bounds"
    and "56 \<le> n \<Longrightarrow> runs_to (encoding_test sg n m side) h (\<lambda>r h'. r)"
proof -
  let ?V = "marked m solved_val"
  have c: "\<forall>s\<in>set stickers. codable sg (view ?V s) \<and> view ?V s \<noteq> - 48"
  proof
    fix s assume s: "s \<in> set stickers"
    have "view ?V s = snd (snd m) \<or> view ?V s = view solved_val s"
      using view_set_sq [OF std_solved s] by (cases m) (auto simp: marked_def)
    moreover have "codable sg (view solved_val s) \<and> view solved_val s \<noteq> - 48"
      using plain_solved s plain_codable [OF plain_solved, of sg] by (auto simp: plain_def)
    ultimately show "codable sg (view ?V s) \<and> view ?V s \<noteq> - 48" using m by auto
  qed
  have new: "runs_to make_cube h (\<lambda>p h'. one_cube h' p solved_val (31 + 0))"
    using h by (intro first_cube) simp_all
  have paint: "runs_to (bindM make_cube (\<lambda>p. thenM (paint p m) (bindM make_cube (k p)))) h Q"
    if "\<And>p q g. two_cubes g p ?V q solved_val 0 \<Longrightarrow> runs_to (k p q) g Q"
      for k :: "addr \<Rightarrow> addr \<Rightarrow> (mem, bool) prog" and Q
    by (rule runs_to_bindI [OF new], rule runs_to_thenI [OF paint_one [OF _ m(1)]], assumption,
      rule runs_to_bindI [OF second_cube], assumption, rule that)
  show "n < 56 \<Longrightarrow> encoding_test sg n m side h = Inl Out_Of_Bounds"
    unfolding encoding_test_def
    by (rule bind_failI [OF new], rule then_failI [OF paint_one [OF _ m(1)]], assumption,
      rule bind_failI [OF second_cube], assumption) (simp add: bindM_apply encode_first(1) [OF _ c])
  assume n: "56 \<le> n"
  show "runs_to (encoding_test sg n m side) h (\<lambda>r h'. r)"
    unfolding encoding_test_def
  proof (rule paint, rule runs_to_bindI)
    fix p q g assume g: "two_cubes g p ?V q solved_val 0"
    show "runs_to (encode p (replicate n None)) g
        (\<lambda>x h'. x = (0, line_buffer (cube_line ?V) (drop 56 (replicate n None))) \<and> two_cubes h' p ?V q solved_val 0)"
      using n by (intro encode_first(2) [OF g c]) simp
    fix x :: "int \<times> char cell list" and g' 
    assume x: "x = (0, line_buffer (cube_line ?V) (drop 56 (replicate n None))) \<and> two_cubes g' p ?V q solved_val 0"
    have "runs_to (check_all [0..<9] (same_color p q side)) g'' (\<lambda>r h'. r)"
      if "two_cubes g'' p ?V q ?V 0" for g''
      using runs_to_mono [OF same_colors_wp [OF that side, of "[0..<9]"], of "\<lambda>r _. r"]
      by (simp add: agree_def list_all_iff)
    then show "runs_to (case x of (r, result) \<Rightarrow> thenM (decode sg q result)
        (check_all [0..<9] (same_color p q side))) g' (\<lambda>r h'. r)"
      using x by (auto intro: runs_to_thenI [OF decode_second [OF _ c]])
  qed
qed

lemma mark_turned: "view (apply_turn (5, False) (marked (5, 0, 9) solved_val)) (5, 6) = 9"
  by code_simp

lemma command_5d: "list_all (\<lambda>sg. command_of sg ''5d'' = Turn 5 False \<and>
    char_value sg ((''5d'' @ [nul]) ! 1) - 48 \<noteq> 0) [True, False]"
  by code_simp

lemma decodes_properly_passes:
  assumes "wf_mem h" and "62 \<le> quota h"
  shows "runs_to (decodes_properly pf now) h (\<lambda>r h'. r)"
  unfolding decodes_properly_def
proof (rule runs_to_bindI [OF first_cube [OF assms(1), of 31]], use assms(2) in simp, 
    rule runs_to_thenI [OF paint_one], assumption, simp add: on_cube_def)
  let ?V = "marked (5, 0, 9) solved_val" and ?line = "''5d''"
  let ?d = "char_value (signed_char pf) ((?line @ [nul]) ! 1) - 48"
  fix p g assume "one_cube g p ?V 31"
  then have g: "cube_in g p ?V" and q: "31 \<le> quota g" by (simp_all add: one_cube_in)
  have sg: "command_of sg ?line = Turn 5 False \<and> char_value sg ((?line @ [nul]) ! 1) - 48 \<noteq> 0" for sg
    using command_5d by (cases sg) simp_all
  have "runs_to (rotate_cube p (int 5) ?d) g (\<lambda>_ h'. cube_in h' p (apply_turn (5, ?d = 0) ?V) \<and> quota g = quota h' + 31)"
    by (rule rotate_cube_in [OF g q]) simp
  then have turn: "runs_to (decode_user_input pf now (line_buffer ?line []) p) g
      (\<lambda>_ h'. cube_in h' p (apply_turn (5, False) ?V))"
    using sg [of "signed_char pf"] decode_user_input_eq [OF _ g, of ?line pf now "[]"]
    by (auto simp: runs_to_def split: sum.splits)
  have "runs_to (bindM (color_of p 5 6) (\<lambda>c. returnM (c = 9))) g' (\<lambda>r h'. r)"
    if "cube_in g' p (apply_turn (5, False) ?V)" for g'
    using that mark_turned by (auto simp: cube_in_def runs_to_bind color_of_wp)
  then show "runs_to (thenM (decode_user_input pf now (line_buffer ?line []) p)
      (bindM (color_of p 5 6) (\<lambda>c. returnM (c = 9)))) g (\<lambda>r h'. r)"
    by (rule runs_to_thenI [OF turn])
qed

lemma encodes_properly_passes: "encodes_properly = Inr True"
  by code_simp

section \<open>Faces and adjacency records\<close>

text \<open>A face whose pointers are set up, with the contents of its adjacency records.\<close>

definition edges_at :: "mem \<Rightarrow> addr \<Rightarrow> addr list \<Rightarrow> adj_val list \<Rightarrow> bool" where
  "edges_at h q as A \<longleftrightarrow> face_raw h q as \<and> (\<forall>j<N_EDGES_PER_SIDE. adj_at h (as ! j) (A ! j))"

lemma face_edges: "face_at h q as v \<Longrightarrow> edges_at h q as (snd v)"
  by (simp add: edges_at_def face_at_raw) (simp add: face_at_def)

lemma edges_frame:
  assumes "edges_at h q as A" and u: "unchanged X h h'" and d: "set (q # as) \<inter> X = {}"
  shows "edges_at h' q as A"
proof -
  have raw: "face_raw h q as" using assms(1) by (simp add: edges_at_def)
  have "adj_at h' (as ! j) (A ! j)" if "j < N_EDGES_PER_SIDE" for j
    using assms(1) raw that d
    by (intro adj_at_frame [OF _ u] nth_notin) (auto simp: edges_at_def face_raw_def)
  then show ?thesis using face_raw_frame [OF raw u d] by (simp add: edges_at_def)
qed

lemma adj_num_wp:
  assumes "edges_at h q as A" and "j < N_EDGES_PER_SIDE"
  shows "runs_to (adj_num q j) h Q \<longleftrightarrow> Q (fst (A ! j)) h"
proof -
  have "face_raw h q as" "adj_at h (as ! j) (A ! j)" using assms by (simp_all add: edges_at_def)
  then show ?thesis
    by (simp add: adj_num_def runs_to_bind get_adjacent_wp [OF _ assms(2)] get_adj_face_wp)
qed

lemma adj_square_wp:
  assumes "edges_at h q as A" and "j < N_EDGES_PER_SIDE" and "k < N_SQUARES_PER_SIDE"
  shows "runs_to (adj_square q j k) h Q \<longleftrightarrow> Q (snd (A ! j) ! k) h"
proof -
  have "face_raw h q as" "adj_at h (as ! j) (A ! j)" using assms by (simp_all add: edges_at_def)
  then show ?thesis
    by (simp add: adj_square_def runs_to_bind get_adjacent_wp [OF _ assms(2)] get_edge_square_wp [OF _ assms(3)])
qed

lemma runs_to_same [wp]:
  "runs_to (same m k) h Q \<longleftrightarrow> runs_to m h (\<lambda>x h'. runs_to k h' (\<lambda>y. Q (x = y)))"
  by (simp add: same_def runs_to_bind)

lemma adjacent_face_tests_pass:
  assumes "0 < quota h" and "next_addr h \<noteq> NULL"
  shows "runs_to face_1_int h (\<lambda>r h'. r)" and "runs_to face_1_adjacent_faces h (\<lambda>r h'. r)"
proof -
  have new: "runs_to (make_adjacent_face 1 [1, 2, 3]) h (\<lambda>a h'. adj_at h' a (1, [1, 2, 3]))"
    by (rule runs_to_mono [OF make_adjacent_face_wp [OF assms]]) simp_all
  show "runs_to face_1_int h (\<lambda>r h'. r)"
    unfolding face_1_int_def
    by (rule runs_to_bindI [OF new]) (simp add: runs_to_same get_adj_face_wp)
  show "runs_to face_1_adjacent_faces h (\<lambda>r h'. r)"
    unfolding face_1_adjacent_faces_def
    by (rule runs_to_bindI [OF new], rule runs_to_mono [OF runs_to_check_all [where P = "\<lambda>_. True"]])
      (auto simp: runs_to_same get_edge_square_wp runs_to_lift)
qed

lemma copy_adjacent_face_tests_pass:
  assumes "2 \<le> quota h" and "next_addr h \<noteq> NULL"
  shows "runs_to copy_adjacent_face_check_face h (\<lambda>r h'. r)"
    and "runs_to copy_adjacent_face_check_edge_squares h (\<lambda>r h'. r)"
proof -
  let ?v = "(3, [0, 3, 6])"
  have both: "runs_to (bindM (make_adjacent_face 3 [0, 3, 6]) (\<lambda>a. bindM blank_adjacent_face (\<lambda>b.
      thenM (copy_adjacent_face a b) (k a b)))) h (\<lambda>r h'. r)"
    if k: "\<And>a b g. adj_at g a ?v \<Longrightarrow> adj_at g b ?v \<Longrightarrow> runs_to (k a b) g (\<lambda>r h'. r)" for k
  proof (rule runs_to_bindI)
    show "runs_to (make_adjacent_face 3 [0, 3, 6]) h (\<lambda>a g. a = next_addr h \<and> adj_at g a ?v \<and> allocated 1 h g)"
      using assms by (intro make_adjacent_face_wp) auto
    fix a g assume g: "a = next_addr h \<and> adj_at g a ?v \<and> allocated 1 h g"
    have "runs_to blank_adjacent_face g (\<lambda>b g'. a \<noteq> b \<and> adj_at g' a ?v \<and> adj_raw g' b)"
      using g assms by (auto simp: blank_adjacent_face_def adj.malloc_wp allocated_def adj_at_def adj_raw_def NULL_def)
    then show "runs_to (bindM blank_adjacent_face (\<lambda>b. thenM (copy_adjacent_face a b) (k a b))) g (\<lambda>r h'. r)"
    proof (rule runs_to_bindI)
      fix b g' assume b: "a \<noteq> b \<and> adj_at g' a ?v \<and> adj_raw g' b"
      then have c: "runs_to (copy_adjacent_face a b) g'
          (\<lambda>_ h'. adj_at h' b ?v \<and> unchanged {b} g' h' \<and> same_alloc g' h')"
        by (intro copy_adjacent_face_wp) auto
      show "runs_to (thenM (copy_adjacent_face a b) (k a b)) g' (\<lambda>r h'. r)"
        by (rule runs_to_thenI [OF c]) (use b in \<open>auto intro!: k intro: adj_at_frame\<close>)
    qed
  qed
  show "runs_to copy_adjacent_face_check_face h (\<lambda>r h'. r)"
    unfolding copy_adjacent_face_check_face_def
    by (rule both) (simp add: runs_to_same get_adj_face_wp)
  show "runs_to copy_adjacent_face_check_edge_squares h (\<lambda>r h'. r)"
    unfolding copy_adjacent_face_check_edge_squares_def
    by (rule both, rule runs_to_mono [OF runs_to_check_all [where P = "\<lambda>_. True"]])
      (auto simp: runs_to_same get_edge_square_wp)
qed

text \<open>A face that has just been allocated, after \<open>initialize_adjacent_faces\<close>.\<close>

lemma initialized_wp:
  assumes ok: "tables_ok fs es" and h: "5 \<le> quota h" "next_addr h \<noteq> NULL"
  shows "runs_to (bindM blank_face (\<lambda>q. thenM (initialize_adjacent_faces q fs es) (returnM q))) h
    (\<lambda>q g. edges_at g q [Suc q..<Suc q + 4] (map (\<lambda>f. (f, es ! nat f)) fs) \<and> allocated 5 h g)"
proof -
  let ?cs = "replicate N_SQUARES_PER_FACE None"
  let ?blank = "\<lambda>g. allocated 1 h g \<and>
    face_heap g (next_addr h) = Some \<lparr>colors = ?cs, adjacent_faces = replicate N_EDGES_PER_SIDE None\<rparr>"
  have new: "runs_to blank_face h (\<lambda>q g. q = next_addr h \<and> ?blank g)"
    using h by (simp add: blank_face_def fce.malloc_wp allocated_def unchanged_def)
  have init: "runs_to (initialize_adjacent_faces (next_addr h) fs es) g
      (\<lambda>_. edges_done g (next_addr h) ?cs fs es N_EDGES_PER_SIDE)" if "?blank g" for g
    using that h by (intro initialize_wp [OF ok]) (auto simp: allocated_def)
  have "edges_at g' (next_addr h) [Suc (next_addr h)..<Suc (next_addr h) + 4] (map (\<lambda>f. (f, es ! nat f)) fs) \<and>
      allocated 5 h g'"
    if g: "?blank g" and I: "edges_done g (next_addr h) ?cs fs es N_EDGES_PER_SIDE g'" for g g'
  proof
    have nxt: "next_addr g = Suc (next_addr h)" using g by (simp add: allocated_def)
    show "edges_at g' (next_addr h) [Suc (next_addr h)..<Suc (next_addr h) + 4] (map (\<lambda>f. (f, es ! nat f)) fs)"
      using I ok h by (auto simp: edges_at_def face_raw_def edges_done_def nxt tables_ok_def intro: adj_at_raw)
    show "allocated 5 h g'"
      using I g by (auto simp: edges_done_def allocated_def unchanged_def)
  qed
  with init show ?thesis
    by (intro runs_to_bindI [OF new]) (auto simp: runs_to_then intro: runs_to_mono [OF init])
qed

lemma with_initialized:
  assumes ok: "tables_ok fs es" and h: "5 \<le> quota h" "next_addr h \<noteq> NULL"
    and k: "\<And>q g. edges_at g q [Suc q..<Suc q + 4] (map (\<lambda>f. (f, es ! nat f)) fs) \<Longrightarrow>
      allocated 5 h g \<Longrightarrow> runs_to (k q) g Q"
  shows "runs_to (bindM blank_face (\<lambda>q. thenM (initialize_adjacent_faces q fs es) (k q))) h Q"
proof -
  have "bindM blank_face (\<lambda>q. thenM (initialize_adjacent_faces q fs es) (k q)) =
      bindM (bindM blank_face (\<lambda>q. thenM (initialize_adjacent_faces q fs es) (returnM q))) k"
    by (rule ext) (simp add: prog_simps split: sum.split)
  moreover have "runs_to (bindM (bindM blank_face
      (\<lambda>q. thenM (initialize_adjacent_faces q fs es) (returnM q))) k) h Q"
    by (rule runs_to_bindI [OF initialized_wp [OF ok h]], elim conjE, rule k)
  ultimately show ?thesis by simp
qed

lemma initialize_tests_pass:
  assumes "5 \<le> quota h" and "next_addr h \<noteq> NULL"
  shows "runs_to update_adjacent_faces h (\<lambda>r h'. r)"
    and "runs_to update_adjacent_edge_squares h (\<lambda>r h'. r)"
proof -
  have ok: "tables_ok [2, 1, 3, 4] test_edge_squares"
    by (simp add: tables_ok_def test_edge_squares_def)
  show "runs_to update_adjacent_faces h (\<lambda>r h'. r)"
    unfolding update_adjacent_faces_def
    by (rule with_initialized [OF ok assms])
      (simp add: runs_to_bind runs_to_same adj_num_wp runs_to_return)
  show "runs_to update_adjacent_edge_squares h (\<lambda>r h'. r)"
    unfolding update_adjacent_edge_squares_def
    by (rule with_initialized [OF ok assms])
      (simp add: runs_to_bind runs_to_same adj_square_wp test_edge_squares_def)
qed

lemma face_4_tests_pass:
  assumes "10 \<le> quota h" and "next_addr h \<noteq> NULL"
  shows "runs_to face_4_colors h (\<lambda>r h'. r)" and "runs_to face_4_adjacent_faces h (\<lambda>r h'. r)"
proof -
  have new: "runs_to (make_face 4) h (\<lambda>q g. q = next_addr h \<and> face_at g q [q + 1..<5 + q] (face_of 4) \<and> allocated 5 h g)"
    using make_face_of_wp [of 4 h] assms by simp
  have c: "fst (face_of 4) ! 0 = 4" by code_simp
  show "runs_to face_4_colors h (\<lambda>r h'. r)"
    unfolding face_4_colors_def
  proof (rule runs_to_bindI [OF new], elim conjE)
    fix q g assume "face_at g q [q + 1..<5 + q] (face_of 4)"
    from get_color_wp [OF this, of 0] show "runs_to (same (get_color q 0) (returnM 4)) g (\<lambda>r h'. r)"
      by (simp add: runs_to_same c)
  qed
  let ?fs = "[FACE_FRONT, FACE_BOTTOM, FACE_BACK, FACE_TOP]" and ?es = "[[SQUARE_UL, SQUARE_ML, SQUARE_LL],
      no_edge, [SQUARE_UR, SQUARE_UM, SQUARE_UL], [SQUARE_LL, SQUARE_LM, SQUARE_LR], no_edge,
      [SQUARE_LR, SQUARE_MR, SQUARE_UR]]"
  let ?A = "map (\<lambda>f. (f, ?es ! nat f)) ?fs"
  have ok: "tables_ok ?fs ?es" by (simp add: tables_ok_def)
  have A: "snd (face_of 4) = ?A" by code_simp
  show "runs_to face_4_adjacent_faces h (\<lambda>r h'. r)"
    unfolding face_4_adjacent_faces_def
  proof (rule runs_to_bindI [OF new], rule with_initialized [OF ok])
    fix q g r g'
    assume q: "q = next_addr h \<and> face_at g q [q + 1..<5 + q] (face_of 4) \<and> allocated 5 h g"
      and r: "edges_at g' r [Suc r..<Suc r + 4] ?A" and al: "allocated 5 g g'"
    have "edges_at g q [q + 1..<5 + q] (snd (face_of 4))" using q by (blast intro: face_edges)
    then have q': "edges_at g' q [q + 1..<5 + q] ?A"
      unfolding A using q al by (elim edges_frame) (auto simp: allocated_def)
    show "runs_to (check_all [0..<4] (\<lambda>i. check_all [0..<3] (\<lambda>j. same (adj_square q i j) (adj_square r i j)))) g' (\<lambda>r h'. r)"
      by (rule all_pass, rule all_equal) (simp add: runs_to_same adj_square_wp [OF q'] adj_square_wp [OF r])
  qed (use assms in \<open>auto simp: allocated_def NULL_def\<close>)
qed

lemma copy_face_test_wp:
  assumes h: "10 \<le> quota h" "next_addr h \<noteq> NULL" and f: "f < N_FACES"
    and k: "\<And>q as r bs g. face_at g q as (face_of f) \<Longrightarrow> face_at g r bs (face_of f) \<Longrightarrow>
      runs_to (k q r) g (\<lambda>r h'. r)"
  shows "runs_to (copy_face_test f k) h (\<lambda>r h'. r)"
  unfolding copy_face_test_def
proof (rule runs_to_bindI [OF make_face_of_wp [OF f]])
  fix q g assume q: "q = next_addr h \<and> face_at g q [q + 1..<5 + q] (face_of f) \<and> allocated 5 h g"
  have new: "runs_to (make_face 0) g (\<lambda>r g'. r = next_addr g \<and> face_at g' r [r + 1..<5 + r] (face_of 0) \<and> allocated 5 g g')"
    using make_face_of_wp [of 0 g] q h by (simp add: allocated_def NULL_def)
  show "runs_to (bindM (make_face 0) (\<lambda>r. thenM (copy_face q r) (k q r))) g (\<lambda>r h'. r)"
  proof (rule runs_to_bindI [OF new])
    fix r g' assume r: "r = next_addr g \<and> face_at g' r [r + 1..<5 + r] (face_of 0) \<and> allocated 5 g g'"
    have d: "set (q # [q + 1..<5 + q]) \<inter> set (r # [r + 1..<5 + r]) = {}"
      using q r by (auto simp: allocated_def)
    have u: "unchanged {next_addr g..<next_addr g + 5} g g'" using r by (simp add: allocated_def)
    have qf: "face_at g q [q + 1..<5 + q] (face_of f)" using q by blast
    have q': "face_at g' q [q + 1..<5 + q] (face_of f)"
      by (rule face_at_frame [OF qf u]) (use q in \<open>auto simp: allocated_def\<close>)
    have c: "runs_to (copy_face q r) g' (\<lambda>_ h'. face_at h' r [r + 1..<5 + r] (face_of f) \<and>
        unchanged (set (r # [r + 1..<5 + r])) g' h' \<and> same_alloc g' h')"
      by (rule copy_face_wp [OF q' face_at_raw d]) (use r in blast)
    show "runs_to (thenM (copy_face q r) (k q r)) g' (\<lambda>r h'. r)"
      by (rule runs_to_thenI [OF c], elim conjE, rule k, rule face_at_frame [OF q' _ d])
  qed
qed (use h in auto)

lemma copy_face_tests_pass:
  assumes "10 \<le> quota h" and "next_addr h \<noteq> NULL"
  shows "runs_to copy_face_check_colors h (\<lambda>r h'. r)"
    and "runs_to copy_face_check_adjacent_face_nums h (\<lambda>r h'. r)"
    and "runs_to copy_face_check_adjacent_face_edge_squares h (\<lambda>r h'. r)"
  unfolding copy_face_check_colors_def copy_face_check_adjacent_face_nums_def
    copy_face_check_adjacent_face_edge_squares_def
  by (rule copy_face_test_wp [OF assms], simp, rule all_pass,
      simp add: runs_to_same get_color_wp adj_num_wp [OF face_edges])
    (rule copy_face_test_wp [OF assms], simp, rule all_pass,
      simp add: runs_to_same adj_num_wp [OF face_edges],
    rule copy_face_test_wp [OF assms], simp, rule all_pass, rule all_equal,
      simp add: runs_to_same adj_square_wp [OF face_edges])

section \<open>Adjacency records of a whole cube\<close>

definition writes_adjacent :: "(addr \<Rightarrow> (mem, unit) prog) \<Rightarrow> bool" where
  "writes_adjacent m \<longleftrightarrow> (\<forall>h a v. adj_at h a v \<longrightarrow>
     runs_to (m a) h (\<lambda>_ h'. (\<exists>w. adj_at h' a w) \<and> unchanged {a} h h' \<and> face_heap h' = face_heap h))"

lemma writes_set:
  "writes_adjacent (\<lambda>a. set_adj_face a x)"
  "k < N_SQUARES_PER_SIDE \<Longrightarrow> writes_adjacent (\<lambda>a. set_edge_square a (int k) x)"
proof -
  have u: "unchanged {a} h (adjacent_heap_update (\<lambda>m. m(a \<mapsto> y)) h)" for a h y
    by (simp add: unchanged_def)
  have w: "adj_at (adjacent_heap_update (\<lambda>m. m(a \<mapsto> \<lparr>face = Some n, edge_squares = map Some sq\<rparr>)) h) a (n, sq)"
    if "a \<noteq> NULL" "length sq = N_SQUARES_PER_SIDE" for a h n sq
    using that by (simp add: adj_at_def)
  show "writes_adjacent (\<lambda>a. set_adj_face a x)"
    unfolding writes_adjacent_def
    by (intro allI impI) (auto simp: adj_at_def set_adj_face_def heap_wp unchanged_def)
  show "writes_adjacent (\<lambda>a. set_edge_square a (int k) x)" if k: "k < N_SQUARES_PER_SIDE"
    unfolding writes_adjacent_def
  proof (intro allI impI)
    fix h a v assume a: "adj_at h a v"
    then have "adj_at (adjacent_heap_update (\<lambda>m. m(a \<mapsto> \<lparr>face = Some (fst v),
        edge_squares = map Some ((snd v)[k := x])\<rparr>)) h) a (fst v, (snd v)[k := x])"
      by (intro w) (simp_all add: adj_at_def)
    then show "runs_to (set_edge_square a (int k) x) h (\<lambda>_ h'. (\<exists>w. adj_at h' a w) \<and>
        unchanged {a} h h' \<and> face_heap h' = face_heap h)"
      using a k by (auto simp: adj_at_def set_edge_square_def heap_wp map_update unchanged_def
        intro!: exI [of _ "(snd v)[k := x]"])
  qed
qed

text \<open>The colours stay, whatever is written into the adjacency records.\<close>

definition recolored :: "mem \<Rightarrow> addr \<Rightarrow> layout \<Rightarrow> face_val list \<Rightarrow> mem \<Rightarrow> bool" where
  "recolored h q M W g \<longleftrightarrow> (\<exists>W'. cube_at g q M W' \<and> map fst W' = map fst W) \<and>
     unchanged (set (cube_addrs q M)) h g"

lemma write_adjacent_wp:
  assumes m: "writes_adjacent m" and W: "recolored h q M W g" and i: "i < N_FACES" and j: "j < N_EDGES_PER_SIDE"
  shows "runs_to (of_face q i (\<lambda>f. bindM (get_adjacent f (int j)) m)) g (\<lambda>_. recolored h q M W)"
proof -
  obtain W' where c: "cube_at g q M W'" and W': "map fst W' = map fst W"
    and u: "unchanged (set (cube_addrs q M)) h g"
    using W by (auto simp: recolored_def)
  let ?f = "fst (M ! i)" and ?as = "snd (M ! i)" and ?v = "W' ! i"
  have f: "face_at g ?f ?as ?v" by (rule cube_at_face [OF c i])
  let ?a = "?as ! j"
  have a: "adj_at g ?a (snd ?v ! j)" and aM: "?a \<in> set (face_addrs (M ! i))"
    using f j by (auto simp: face_at_def face_addrs_def)
  have "recolored h q M W g'"
    if w: "adj_at g' ?a w" and ua: "unchanged {?a} g g'" and fh: "face_heap g' = face_heap g" for g' w
  proof -
    let ?v' = "(fst ?v, (snd ?v)[j := w])"
    have "adj_at g' (?as ! k) ((snd ?v)[j := w] ! k)" if k: "k < N_EDGES_PER_SIDE" for k
    proof (cases "k = j")
      case True
      then show ?thesis using w f j by (simp add: face_at_def)
    next
      case False
      then have "?as ! k \<noteq> ?a" using f j k by (auto simp: face_at_def nth_eq_iff_index_eq)
      then show ?thesis
        using f k False by (intro adj_at_frame [OF _ ua]) (auto simp: face_at_def)
    qed
    then have "face_at g' ?f ?as ?v'" using f fh by (auto simp: face_at_def)
    then have "cube_at g' q M (W'[i := ?v'])"
      using ua aM by (intro cube_at_update_face [OF c i]) (auto elim: unchanged_mono)
    moreover have "map fst (W'[i := ?v']) = map fst W"
      using c i by (simp add: W' [symmetric] map_update list_update_same_conv cube_at_def)
    moreover have "unchanged (set (cube_addrs q M)) h g'"
      using aM cube_face_addrs(3) [OF c i] unchanged_trans [OF u ua] by (auto elim: unchanged_mono)
    ultimately show ?thesis by (auto simp: recolored_def)
  qed
  then have "runs_to (m ?a) g (\<lambda>_. recolored h q M W)"
    using m a unfolding writes_adjacent_def by (blast intro: runs_to_mono)
  then show ?thesis
    by (simp add: of_face_def runs_to_bind get_face_wp [OF c i] get_adjacent_face_wp [OF f j])
qed

lemma write_all_wp:
  assumes "\<And>i s. i \<in> set is \<Longrightarrow> I s \<Longrightarrow> runs_to (body i) s (\<lambda>_. I)" and "I s"
  shows "runs_to (for_each is body) s (\<lambda>_. I)"
  using assms by (induction "is" arbitrary: s) (auto intro: runs_to_thenI)

lemma same_colors_fst: "map fst W' = map fst W \<Longrightarrow> i < length W \<Longrightarrow> view W' (i, j) = view W (i, j)"
  by (metis fst_conv length_map nth_map snd_conv view_def)

lemma copy_cube_tests_pass:
  assumes h: "wf_mem h" "62 \<le> quota h"
  shows "runs_to copy_cube_check_faces_adjacent_faces_edge_squares h (\<lambda>r h'. r)"
    and "runs_to copy_cube_check_faces_adjacent_faces_face_nums h (\<lambda>r h'. r)"
proof -
  have q: "62 + 0 \<le> quota h" using h by simp
  show "runs_to copy_cube_check_faces_adjacent_faces_edge_squares h (\<lambda>r h'. r)"
    unfolding copy_cube_check_faces_adjacent_faces_edge_squares_def
  proof (rule two_new [OF h(1) q])
    fix p q g assume "two_cubes g p solved_val q solved_val 0"
    then obtain L M where c: "cube_at g p L solved_val" and d: "cube_at g q M solved_val"
      and disj: "set (cube_addrs p L) \<inter> set (cube_addrs q M) = {}"
      by (auto simp: two_cubes_def)
    let ?I = "recolored g q M solved_val"
    have wr: "runs_to (for_each [0..<N_FACES] (\<lambda>jind. for_each [0..<N_EDGES_PER_SIDE] (\<lambda>ind.
        for_each [0..<N_SQUARES_PER_SIDE] (\<lambda>kind. of_face q jind (\<lambda>f.
          bindM (get_adjacent f (int ind)) (\<lambda>a. set_edge_square a (int kind) 9)))))) g (\<lambda>_. ?I)"
      by (intro write_all_wp write_adjacent_wp writes_set(2)) (use d in \<open>auto simp: recolored_def\<close>)
    show "runs_to (thenM (for_each [0..<N_FACES] (\<lambda>jind. for_each [0..<N_EDGES_PER_SIDE] (\<lambda>ind.
        for_each [0..<N_SQUARES_PER_SIDE] (\<lambda>kind. of_face q jind (\<lambda>f.
          bindM (get_adjacent f (int ind)) (\<lambda>a. set_edge_square a (int kind) 9))))))
      (thenM (copy_cube p q) (check_all [0..<N_FACES] (\<lambda>jind. check_all [0..<N_EDGES_PER_SIDE] (\<lambda>ind.
        check_all [0..<N_SQUARES_PER_SIDE] (\<lambda>kind. same (of_face q jind (\<lambda>f. adj_square f ind kind))
          (of_face p jind (\<lambda>f. adj_square f ind kind)))))))) g (\<lambda>r h'. r)"
    proof (rule runs_to_thenI [OF wr])
      fix g1 assume "?I g1"
      then obtain W where d1: "cube_at g1 q M W" and u: "unchanged (set (cube_addrs q M)) g g1"
        by (auto simp: recolored_def)
      have c1: "cube_at g1 p L solved_val" by (rule cube_at_frame [OF c u disj])
      show "runs_to (thenM (copy_cube p q) (check_all [0..<N_FACES] (\<lambda>jind. check_all [0..<N_EDGES_PER_SIDE]
          (\<lambda>ind. check_all [0..<N_SQUARES_PER_SIDE] (\<lambda>kind. same (of_face q jind (\<lambda>f. adj_square f ind kind))
            (of_face p jind (\<lambda>f. adj_square f ind kind))))))) g1 (\<lambda>r h'. r)"
      proof (rule runs_to_thenI [OF copy_cube_wp [OF c1 d1 disj]], elim conjE)
        fix g2 assume d2: "cube_at g2 q M solved_val" and u2: "unchanged (set (cube_addrs q M)) g1 g2"
        have c2: "cube_at g2 p L solved_val" by (rule cube_at_frame [OF c1 u2 disj])
        show "runs_to (check_all [0..<N_FACES] (\<lambda>jind. check_all [0..<N_EDGES_PER_SIDE] (\<lambda>ind.
            check_all [0..<N_SQUARES_PER_SIDE] (\<lambda>kind. same (of_face q jind (\<lambda>f. adj_square f ind kind))
              (of_face p jind (\<lambda>f. adj_square f ind kind)))))) g2 (\<lambda>r h'. r)"
          by (rule all_pass, rule all_equal, rule all_equal)
            (simp add: runs_to_same of_face_def runs_to_bind get_face_wp [OF c2] get_face_wp [OF d2]
              adj_square_wp [OF face_edges [OF cube_at_face [OF c2]]]
              adj_square_wp [OF face_edges [OF cube_at_face [OF d2]]])
      qed
    qed
  qed
  show "runs_to copy_cube_check_faces_adjacent_faces_face_nums h (\<lambda>r h'. r)"
    unfolding copy_cube_check_faces_adjacent_faces_face_nums_def
  proof (rule two_new [OF h(1) q], rule runs_to_thenI [OF copy_first], assumption)
    fix p q g assume "two_cubes g p solved_val q solved_val 0"
    then obtain L M where c: "cube_at g p L solved_val" and d: "cube_at g q M solved_val"
      and disj: "set (cube_addrs p L) \<inter> set (cube_addrs q M) = {}"
      by (auto simp: two_cubes_def)
    let ?I = "recolored g q M solved_val"
    have wr: "runs_to (for_each [0..<N_FACES] (\<lambda>jind. for_each [0..<N_EDGES_PER_SIDE] (\<lambda>ind.
        of_face q jind (\<lambda>f. bindM (get_adjacent f (int ind)) (\<lambda>a. set_adj_face a 9))))) g (\<lambda>_. ?I)"
      by (intro write_all_wp write_adjacent_wp writes_set(1)) (use d in \<open>auto simp: recolored_def\<close>)
    show "runs_to (thenM (for_each [0..<N_FACES] (\<lambda>jind. for_each [0..<N_EDGES_PER_SIDE] (\<lambda>ind.
        of_face q jind (\<lambda>f. bindM (get_adjacent f (int ind)) (\<lambda>a. set_adj_face a 9)))))
      (check_all [0..<N_FACES] (\<lambda>ind. check_all [0..<N_SQUARES_PER_FACE] (same_color p q ind)))) g (\<lambda>r h'. r)"
    proof (rule runs_to_thenI [OF wr])
      fix g1 assume "?I g1"
      then obtain W where d1: "cube_at g1 q M W" and W: "map fst W = map fst solved_val"
        and u: "unchanged (set (cube_addrs q M)) g g1"
        by (auto simp: recolored_def)
      have c1: "cube_at g1 p L solved_val" by (rule cube_at_frame [OF c u disj])
      show "runs_to (check_all [0..<N_FACES] (\<lambda>ind. check_all [0..<N_SQUARES_PER_FACE] (same_color p q ind))) g1
          (\<lambda>r h'. r)"
        by (rule all_pass, rule all_equal)
          (use same_colors_fst [OF W] c in \<open>simp add: same_color_def runs_to_same color_of_wp [OF c1]
            color_of_wp [OF d1] cube_at_def\<close>)
    qed
  qed
qed

section \<open>The outcome\<close>

definition passing_tests :: "platform \<Rightarrow> seed \<Rightarrow> (mem, bool) prog list" where
  "passing_tests pf now =
     [face_1_int, face_1_adjacent_faces, update_adjacent_faces, update_adjacent_edge_squares,
      face_4_colors, face_4_adjacent_faces, copy_adjacent_face_check_face,
      copy_adjacent_face_check_edge_squares, copy_face_check_colors,
      copy_face_check_adjacent_face_nums, copy_face_check_adjacent_face_edge_squares,
      copy_cube_check_faces_adjacent_faces_edge_squares, copy_cube_check_faces_adjacent_faces_face_nums,
      copy_cube_check_faces_colors, test_rotate_clockwise_front_face,
      test_rotate_counterclockwise_front_face, test_rotate_clockwise_other_faces,
      test_rotate_counterclockwise_other_faces, test_rotate_counterclockwise_other_faces_first_to_last,
      test_shuffle_min_max_zero pf now, test_solved_cube, test_one_wrong_square, is_solved_rotated,
      decodes_properly pf now]"

text \<open>C40. The repository's own tests. Whatever the well-formed memory with room for the objects they make,
  the platform and the random numbers, twenty-four tests pass, and so does the one of \<open>encode_user_input\<close>.
  The last test of \<open>is_solved\<close> passes exactly when the twenty rotations drawn do not solve the cube again.
  The two tests of the text form cannot pass: their array of 54 characters is too short, and \<open>encode\<close>
  writes outside it before anything is compared.\<close>

theorem unit_tests_outcome:
  assumes "wf_mem h" and "651 \<le> quota h" and "rng_ok (rand_r pf)"
  shows "(\<forall>t\<in>set (passing_tests pf now). runs_to t h (\<lambda>r h'. r)) \<and> encodes_properly = Inr True \<and>
    runs_to (is_solved_shuffled pf now) h (\<lambda>r h'. r = (\<not> solved_colors (fold apply_turn
      (map (\<lambda>t. (fst t, snd t = 0)) (draws (rand_r pf) (face_first pf) 20 (snd (rand_r pf now)))) solved_val))) \<and>
    encode_properly sg h = Inl Out_Of_Bounds \<and> decode_properly sg h = Inl Out_Of_Bounds"
proof -
  have nn: "next_addr h \<noteq> NULL" using assms(1) by (simp add: wf_mem_def mem_ok_def)
  have q: "93 \<le> quota h" "62 \<le> quota h" "10 \<le> quota h" "5 \<le> quota h" "2 \<le> quota h" "0 < quota h"
    using assms(2) by auto
  note small = adjacent_face_tests_pass [OF q(6) nn] initialize_tests_pass [OF q(4) nn]
    face_4_tests_pass [OF q(3) nn] copy_adjacent_face_tests_pass [OF q(5) nn] copy_face_tests_pass [OF q(3) nn]
  note large = copy_cube_tests_pass [OF assms(1) q(2)] copy_colors_passes [OF assms(1) q(2)]
    rotate_tests_pass [OF assms(1) q(1)] shuffle_zero_passes [OF assms(3,1) q(2)]
    is_solved_tests_pass [OF assms(1) q(2)] decodes_properly_passes [OF assms(1) q(2)]
  have "encode_properly sg h = Inl Out_Of_Bounds" "decode_properly sg h = Inl Out_Of_Bounds"
    unfolding encode_properly_def decode_properly_def
    by (rule encoding_test_wp(1) [OF assms(1) q(2)]; simp add: on_cube_def codable_def)+
  with small large encodes_properly_passes is_solved_shuffled_wp [OF assms(3,1,2)] show ?thesis
    by (simp only: passing_tests_def list.set ball_simps insert_iff empty_iff simp_thms)
qed

theorem unit_tests_outcome_witness:
  "runs_to test_rotate_clockwise_other_faces (init_mem 700) (\<lambda>r h'. r) \<and>
   encode_properly True (init_mem 700) = Inl Out_Of_Bounds"
proof -
  have "rng_ok (rand_r \<lparr>signed_char = True, rand_r = (\<lambda>s. (uint s mod 100, s + 1)), face_first = True\<rparr>)"
    by (auto simp: rng_ok_def INT_MAX_def intro!: order_trans [OF less_imp_le [OF pos_mod_bound]])
  from unit_tests_outcome [OF init_wf_mem _ this, of 700] show ?thesis
    by (simp add: init_mem_def passing_tests_def)
qed

end
