(* ===== verification/Server_Properties.thy ===== *)
theory Server_Properties
  imports Cube_Properties Server_Threads
begin

text \<open>
  The properties of the threads of the server, in an environment that may write any text, and the
  integrity of the memory.
\<close>

section \<open>The threads of the server\<close>

text \<open>C5. Mutual exclusion: in every reachable state at most one of the seven threads of the server is
  between its lock and its unlock, the only places where the global cube is read or written.\<close>

theorem server_mutual_exclusion:
  assumes "rng_ok (rand_r pf)" and "cube_in h p solved_val" and "reachable pf (server_start fds h p) s"
    and "i < N_FACES" and "inside (listeners s ! i)"
  shows "(\<forall>j<N_FACES. inside (listeners s ! j) \<longrightarrow> j = i) \<and> \<not> casting (broadcaster s)"
proof -
  obtain V where "server_inv V s" using server_inv_reachable [OF assms(1-3)] by blast
  then have "lock_ok s" by (simp add: server_inv_def)
  with assms(4,5) show ?thesis unfolding lock_ok_def by auto
qed

text \<open>A run in which the first client sends a line and its listener takes the lock.\<close>

lemma demo_locked:
  assumes "is_line l"
  shows "\<exists>p h s. cube_in h p solved_val \<and> reachable demo_platform (server_start [] h p) s \<and>
    listeners s ! 0 = Locked l \<and> crashed s = None \<and> quota (server_mem s) = 4969"
proof -
  obtain p h where c: "cube_in h p solved_val" and q: "quota h = 4969" using demo_cube by blast
  let ?s0 = "server_start [] h p"
  let ?s1 = "?s0\<lparr>to_server := (to_server ?s0)[0 := pipe_write l (to_server ?s0 ! 0)]\<rparr>"
  have "env_step ?s0 ?s1"
    by (rule client_writes) (simp_all add: server_start_def fresh_pipe_def)
  then have r1: "reachable demo_platform ?s0 ?s1" by (rule reachable.env [OF reachable.start])
  have "newline \<in> set l" using assms by (auto simp: is_line_def)
  then have p1: "pipe_getline (to_server ?s1 ! 0) = Some (l, (pipe_write l fresh_pipe)\<lparr>taken := length l\<rparr>)"
    using getline_line [OF assms, of "[]"]
    by (simp add: server_start_def pipe_getline_def unread_def pipe_write_def fresh_pipe_def fputs_def)
  obtain s2 where s2: "listener_step demo_platform 0 0 ?s1 = Some s2" "listeners s2 ! 0 = Got l"
    "crashed s2 = None" "global_cube_state_lock s2 = None" "length (listeners s2) = 6"
    "quota (server_mem s2) = 4969"
    using p1 q by (auto simp: listener_step_def listener_read_def set_listener_def server_print_def
      server_start_def printed_def)
  have "internal_step demo_platform ?s1 s2"
    using s2(1) by (intro internal_step.listener) (simp_all add: server_start_def)
  then have r2: "reachable demo_platform ?s0 s2" by (rule reachable.internal [OF r1])
  obtain s3 where s3: "listener_step demo_platform 0 0 s2 = Some s3" "listeners s3 ! 0 = Locked l"
    "crashed s3 = None" "quota (server_mem s3) = 4969"
    using s2 by (auto simp: listener_step_def listener_lock_def set_listener_def)
  have "internal_step demo_platform s2 s3"
    using s3(1) s2(3) by (intro internal_step.listener) simp_all
  then have "reachable demo_platform ?s0 s3" by (rule reachable.internal [OF r2])
  with c s3 show ?thesis by blast
qed

lemma demo_line: "is_line (c # d # [newline])" if "c \<notin> {newline, nul}" "d \<notin> {newline, nul}"
  using that unfolding is_line_def by (intro exI [of _ "[c, d]"]) auto

lemma demo_inside:
  "\<exists>p h s. cube_in h p solved_val \<and> reachable demo_platform (server_start [] h p) s \<and>
    inside (listeners s ! 0) \<and> crashed s = None"
  using demo_locked [OF demo_line [of "CHR ''0''" "CHR ''0''"]] by fastforce

theorem server_mutual_exclusion_witness:
  "\<exists>p h s. reachable demo_platform (server_start [] h p) s \<and> inside (listeners s ! 0) \<and>
    (\<forall>j<N_FACES. inside (listeners s ! j) \<longrightarrow> j = 0)"
proof -
  obtain p h s where c: "cube_in h p solved_val" and r: "reachable demo_platform (server_start [] h p) s"
    and "inside (listeners s ! 0)" using demo_inside by blast
  with server_mutual_exclusion [OF demo_rng c r, of 0] r show ?thesis by auto
qed

text \<open>C4. Whatever text the clients send, in whatever order the threads run, and as long as the server has
  not crashed and even at the crash, the global cube is complete and can be solved by turns, and all
  the server has ever written to each client is a sequence of whole messages, each the line of a
  cube that can be solved.\<close>

theorem server_always_consistent:
  assumes "rng_ok (rand_r pf)" and "cube_in h p solved_val" and "reachable pf (server_start fds h p) s"
  shows "\<exists>V. cube_in (server_mem s) (global_cube_state s) V \<and> solvable V \<and>
    (\<forall>k<N_FACES. \<exists>Vs. (\<forall>W\<in>set Vs. solvable W) \<and> written (to_client s ! k) = concat (map cube_line Vs))"
proof -
  obtain V where "server_inv V s" using server_inv_reachable [OF assms] by blast
  then show ?thesis by (auto simp: server_inv_def holds_def casts_def frames_def)
qed

theorem server_always_consistent_witness:
  "\<exists>p h s V. reachable demo_platform (server_start [] h p) s \<and> inside (listeners s ! 0) \<and>
    cube_in (server_mem s) (global_cube_state s) V \<and> solvable V"
proof -
  obtain p h s where c: "cube_in h p solved_val" and r: "reachable demo_platform (server_start [] h p) s"
    and "inside (listeners s ! 0)" using demo_inside by blast
  with server_always_consistent [OF demo_rng c r] r show ?thesis by blast
qed

text \<open>C15. The server comes to rest and is then consistent. From every reachable state the threads of the
  server, by themselves, get to a state where the server has crashed or where every complete line has
  been executed, no broadcast is due and the lock is free; at rest either no cube was ever sent
  because nothing has changed, or the last message written to every client is the global cube.\<close>

theorem server_settles_consistently:
  assumes "rng_ok (rand_r pf)" and "cube_in h p solved_val" and "reachable pf (server_start fds h p) s"
  shows "\<exists>s' V. (internal_step pf)\<^sup>*\<^sup>* s s' \<and> cube_in (server_mem s') (global_cube_state s') V \<and>
    (crashed s' \<noteq> None \<or>
     (\<forall>i<N_FACES. listeners s' ! i = Idle \<and> newline \<notin> set (unread (to_server s' ! i)) \<or> listeners s' ! i = Ended) \<and>
     global_cube_state_lock s' = None \<and> broadcaster s' = Waiting \<and> broadcast_message_ready s' = 0 \<and>
     ((\<forall>k<N_FACES. sent V (written (to_client s' ! k))) \<or>
      V = solved_val \<and> (\<forall>k<N_FACES. written (to_client s' ! k) = [])))"
proof -
  have "\<exists>V. server_inv V s" by (rule server_inv_reachable [OF assms])
  then obtain s' V where run: "(internal_step pf)\<^sup>*\<^sup>* s s'" and inv: "server_inv V s'"
    and e: "crashed s' \<noteq> None \<or> resting s'"
    using server_settles [OF assms(1)] by blast
  have c: "cube_in (server_mem s') (global_cube_state s') V"
    using inv by (simp add: server_inv_def holds_def)
  have "resting s' \<Longrightarrow> (\<forall>i<N_FACES. listeners s' ! i = Idle \<and> newline \<notin> set (unread (to_server s' ! i)) \<or>
      listeners s' ! i = Ended) \<and> global_cube_state_lock s' = None \<and> broadcaster s' = Waiting \<and>
      broadcast_message_ready s' = 0 \<and> ((\<forall>k<N_FACES. sent V (written (to_client s' ! k))) \<or>
      V = solved_val \<and> (\<forall>k<N_FACES. written (to_client s' ! k) = []))"
    using resting_current [OF inv] by (simp add: resting_def)
  with run c e show ?thesis by blast
qed

theorem server_settles_consistently_witness:
  "\<exists>p h s s'. reachable demo_platform (server_start [] h p) s \<and> inside (listeners s ! 0) \<and>
    (internal_step demo_platform)\<^sup>*\<^sup>* s s' \<and> (crashed s' \<noteq> None \<or> broadcaster s' = Waiting)"
proof -
  obtain p h s where c: "cube_in h p solved_val" and r: "reachable demo_platform (server_start [] h p) s"
    and "inside (listeners s ! 0)" using demo_inside by blast
  with server_settles_consistently [OF demo_rng c r] r show ?thesis by blast
qed

text \<open>The threads of the server cannot run for ever on their own: from a reachable state they make
  at most as many steps as a measure of the work left says (unread characters, posts of the
  semaphore, and the program counters), so only new input keeps the server busy.\<close>

theorem server_steps_bounded:
  assumes "rng_ok (rand_r pf)" and "cube_in h p solved_val" and "reachable pf (server_start fds h p) s"
    and "(internal_step pf ^^ n) s s'"
  shows "n + work s' \<le> work s"
  using assms(4)
proof (induction n arbitrary: s')
  case (Suc n)
  then obtain t where t: "(internal_step pf ^^ n) s t" and st: "internal_step pf t s'" by auto
  have "(internal_step pf)\<^sup>*\<^sup>* s t" using t by (rule relpowp_imp_rtranclp)
  then have "reachable pf (server_start fds h p) t"
    using assms(3) by (induction rule: rtranclp_induct) (auto intro: reachable.internal)
  then obtain V where "server_inv V t" using server_inv_reachable [OF assms(1,2)] by blast
  then have "work s' < work t" using st by (intro work_less) (simp_all add: server_inv_def)
  with Suc.IH [OF t] show ?case by simp
qed simp

theorem server_steps_bounded_witness:
  "\<exists>p h s s'. reachable demo_platform (server_start [] h p) s \<and> (internal_step demo_platform ^^ 1) s s' \<and>
    1 + work s' \<le> work s"
proof -
  obtain p h s where c: "cube_in h p solved_val" and r: "reachable demo_platform (server_start [] h p) s"
    and l: "listeners s ! 0 = Locked (''00'' @ [newline])" and cr: "crashed s = None"
    using demo_locked [OF demo_line [of "CHR ''0''" "CHR ''0''"]] by auto
  obtain s' where "listener_step demo_platform 0 0 s = Some s'"
    using listener_apply_moves [of demo_platform 0 0 "''00'' @ [newline]" s] l
    by (auto simp: listener_step_def)
  then have "internal_step demo_platform s s'" using cr by (intro internal_step.listener) simp_all
  then have st: "(internal_step demo_platform ^^ 1) s s'" by auto
  with server_steps_bounded [OF demo_rng c r st] r show ?thesis by blast
qed

text \<open>C29. Why a server crashes: a step of a reachable server that crashes it is the execution of a line
  whose first character is not a face's digit, or there is not enough memory for a shuffle left, or the
  broadcaster writes to a pipe that nobody reads any more.\<close>

theorem server_crash_cause:
  assumes "rng_ok (rand_r pf)" and "cube_in h p solved_val" and "reachable pf (server_start fds h p) s"
    and "internal_step pf s s'" and "crashed s' = Some e"
  shows "(\<exists>i<N_FACES. \<exists>l. listeners s ! i = Locked l \<and>
      (command_of (signed_char pf) l = Bad \<or> quota (server_mem s) < 930)) \<or>
    (\<exists>k<N_FACES. \<exists>m. broadcaster s = Sending m k \<and> broken (to_client s ! k) \<and> e = Signal ''SIGPIPE'')"
proof -
  obtain V where inv: "server_inv V s" using server_inv_reachable [OF assms(1-3)] by blast
  show ?thesis by (rule crash_cause [OF inv assms(1,4,5)])
qed

theorem server_crash_cause_witness:
  "\<exists>p h s s' i l. reachable demo_platform (server_start [] h p) s \<and> crashed s' = Some Out_Of_Bounds \<and>
    internal_step demo_platform s s' \<and> i < N_FACES \<and> listeners s ! i = Locked l"
proof -
  obtain p h s where c: "cube_in h p solved_val" and r: "reachable demo_platform (server_start [] h p) s"
    and l: "listeners s ! 0 = Locked (''60'' @ [newline])" and cr: "crashed s = None"
    and q: "quota (server_mem s) = 4969"
    using demo_locked [OF demo_line [of "CHR ''6''" "CHR ''0''"]] by auto
  obtain V where "server_inv V s" using server_inv_reachable [OF demo_rng c r] by blast
  then have "cube_in (server_mem s) (global_cube_state s) V" by (simp add: server_inv_def holds_def)
  moreover have "command_of (signed_char demo_platform) (''60'' @ [newline]) = Bad"
    by (simp add: demo_platform_def command_of_def char_value_def)
  ultimately have "decode_user_input demo_platform 0 (line_buffer (''60'' @ [newline]) [])
      (global_cube_state s) (server_mem s) = Inl Out_Of_Bounds"
    using q by (intro decode_user_input_bad) simp_all
  then have "listener_step demo_platform 0 0 s = Some (s\<lparr>crashed := Some Out_Of_Bounds\<rparr>)"
    using l by (simp add: listener_step_def listener_apply_def)
  then have st: "internal_step demo_platform s (s\<lparr>crashed := Some Out_Of_Bounds\<rparr>)"
    using cr by (intro internal_step.listener) simp_all
  have cr': "crashed (s\<lparr>crashed := Some Out_Of_Bounds\<rparr>) = Some Out_Of_Bounds" by simp
  from server_crash_cause [OF demo_rng c r st cr'] r st cr' show ?thesis by blast
qed

end
