(* ===== verification/Os.thy ===== *)
theory Os
  imports Encoding
begin

text \<open>
  The operating system as the program sees it, and \<open>src/server/server_util.c\<close>. The kernel, the
  thread library and the allocator for what is not a cube are a parameter: from the calls made so
  far and the next call to the reply. A process records its calls with their replies, so that
  every property of a run of the code is one of its record. What POSIX says about descriptors
  is the predicate \<open>posix\<close>, a hypothesis of the properties that need it.
\<close>

section \<open>Calls and replies\<close>

record sockaddr_in =
  sin_family :: int
  sin_addr :: "32 word"
  sin_port :: "16 word"

datatype os_call =
    Socket | Connect int sockaddr_in | Setsockopt int | Bind int sockaddr_in | Listen int int | Accept4 int
  | Pipe2 | Close int | Fdopen int string | Fclose int
  | Fork | Pthread_Create string | Pthread_Join string | Sem_Destroy
  | Malloc string | Free string | Curses string | Stderr string

text \<open>\<open>ret\<close> is the value the call returns (a descriptor, a process id, \<open>-1\<close>; for \<open>malloc\<close> and
  \<open>fdopen\<close> whether the pointer is not null), \<open>ends\<close> the two ends of a new pipe.\<close>

record reply =
  ret :: int
  ends :: "int \<times> int"

type_synonym record_of_calls = "(os_call \<times> reply) list"
type_synonym kernel = "record_of_calls \<Rightarrow> os_call \<Rightarrow> reply"

record process =
  calls :: record_of_calls
  process_mem :: mem

definition on_process :: "(mem, 'a) prog \<Rightarrow> (process, 'a) prog" where
  "on_process m = (\<lambda>p. case m (process_mem p) of
     Inl e \<Rightarrow> Inl e | Inr r \<Rightarrow> Inr (fst r, p\<lparr>process_mem := snd r\<rparr>))"

definition after_call :: "kernel \<Rightarrow> os_call \<Rightarrow> process \<Rightarrow> process" where
  "after_call k c p = p\<lparr>calls := calls p @ [(c, k (calls p) c)]\<rparr>"

definition os :: "kernel \<Rightarrow> os_call \<Rightarrow> (process, reply) prog" where
  "os k c = (\<lambda>p. Inr (k (calls p) c, after_call k c p))"

definition os_ignore :: "kernel \<Rightarrow> os_call \<Rightarrow> (process, unit) prog" where
  "os_ignore k c = bindM (os k c) (\<lambda>r. returnM ())"

definition say :: "string \<Rightarrow> (process, unit) prog" where
  "say t = on_process (print t)"

section \<open>server_util.c\<close>

abbreviation (input) PF_INET :: int where "PF_INET \<equiv> 2"

definition PORT :: "16 word" where "PORT = 4244"

definition ADDRESS :: string where "ADDRESS = ''192.168.35.59''"

abbreviation (input) BACKLOG_SIZE :: int where "BACKLOG_SIZE \<equiv> 10"

definition error_and_exit :: "string \<Rightarrow> (process, 'a) prog" where
  "error_and_exit error_msg = failM (Exit_Failure error_msg)"

text \<open>A call whose result \<open>-1\<close> ends the process.\<close>

definition os_check :: "kernel \<Rightarrow> os_call \<Rightarrow> string \<Rightarrow> (process, reply) prog" where
  "os_check k c error_msg = bindM (os k c) (\<lambda>r.
     if ret r = - 1 then error_and_exit error_msg else returnM r)"

text \<open>A call whose result \<open>0\<close> stands for a null pointer, and one whose result must be \<open>0\<close>.\<close>

definition os_pointer :: "kernel \<Rightarrow> os_call \<Rightarrow> string \<Rightarrow> (process, unit) prog" where
  "os_pointer k c msg = bindM (os k c) (\<lambda>r. if ret r = 0 then error_and_exit msg else returnM ())"

definition os_zero :: "kernel \<Rightarrow> os_call \<Rightarrow> string \<Rightarrow> (process, unit) prog" where
  "os_zero k c msg = bindM (os k c) (\<lambda>r. if ret r \<noteq> 0 then error_and_exit msg else returnM ())"

definition open_tcp_socket :: "kernel \<Rightarrow> (process, int) prog" where
  "open_tcp_socket k = bindM (os_check k Socket ''Failed to open socket.'') (\<lambda>r. returnM (ret r))"

definition close_tcp_socket :: "kernel \<Rightarrow> int \<Rightarrow> (process, unit) prog" where
  "close_tcp_socket k sock =
     bindM (os_check k (Close sock) ''Failed to close socket.'') (\<lambda>r. returnM ())"

text \<open>\<open>htons\<close> belongs to the C library of the platform.\<close>

definition socket_address :: "(16 word \<Rightarrow> 16 word) \<Rightarrow> 32 word \<Rightarrow> 16 word \<Rightarrow> sockaddr_in" where
  "socket_address htons addr port = \<lparr>sin_family = PF_INET, sin_addr = addr, sin_port = htons port\<rparr>"

section \<open>Descriptors\<close>

text \<open>The descriptors a process has open after its calls, and what POSIX promises: a new descriptor
  is none of the open ones, an open one can be closed, and a closed one cannot.\<close>

fun fds_after :: "int set \<Rightarrow> os_call \<times> reply \<Rightarrow> int set" where
  "fds_after S (Socket, r) = (if ret r = - 1 then S else insert (ret r) S)"
| "fds_after S (Accept4 fd, r) = (if ret r = - 1 then S else insert (ret r) S)"
| "fds_after S (Pipe2, r) = (if ret r = - 1 then S else insert (fst (ends r)) (insert (snd (ends r)) S))"
| "fds_after S (Close fd, r) = (if ret r = - 1 then S else S - {fd})"
| "fds_after S (Fclose fd, r) = (if ret r \<noteq> 0 then S else S - {fd})"
| "fds_after S (c, r) = S"

definition open_fds :: "record_of_calls \<Rightarrow> int set" where
  "open_fds cs = foldl fds_after {} cs"

definition posix :: "kernel \<Rightarrow> bool" where
  "posix k \<longleftrightarrow> (\<forall>cs.
     (ret (k cs Socket) \<noteq> - 1 \<longrightarrow> ret (k cs Socket) \<notin> open_fds cs) \<and>
     (\<forall>fd. ret (k cs (Accept4 fd)) \<noteq> - 1 \<longrightarrow> ret (k cs (Accept4 fd)) \<notin> open_fds cs) \<and>
     (ret (k cs Pipe2) \<noteq> - 1 \<longrightarrow> fst (ends (k cs Pipe2)) \<notin> open_fds cs \<and>
        snd (ends (k cs Pipe2)) \<notin> open_fds cs \<and> fst (ends (k cs Pipe2)) \<noteq> snd (ends (k cs Pipe2))) \<and>
     (\<forall>fd. ret (k cs (Close fd)) = (if fd \<in> open_fds cs then 0 else - 1)) \<and>
     (\<forall>fd. ret (k cs (Fclose fd)) = (if fd \<in> open_fds cs then 0 else - 1)))"

text \<open>What the C library adds: a stream is made of an open descriptor only.\<close>

definition fdopen_needs_open :: "kernel \<Rightarrow> bool" where
  "fdopen_needs_open k \<longleftrightarrow> (\<forall>cs fd m. fd \<notin> open_fds cs \<longrightarrow> ret (k cs (Fdopen fd m)) = 0)"

definition fds_of :: "process \<Rightarrow> int set" where
  "fds_of p = open_fds (calls p)"

lemma open_fds_snoc: "open_fds (cs @ [c]) = fds_after (open_fds cs) c"
  by (simp add: open_fds_def)

lemma runs_to_os [wp]: "runs_to (os k c) p Q \<longleftrightarrow> Q (k (calls p) c) (after_call k c p)"
  by (simp add: os_def runs_to_def)

lemma runs_to_os_ignore [wp]:
  "runs_to (os_ignore k c) p Q \<longleftrightarrow> Q () (after_call k c p)"
  by (simp add: os_ignore_def wp)

lemma runs_to_os_check [wp]:
  "runs_to (os_check k c msg) p Q \<longleftrightarrow> ret (k (calls p) c) \<noteq> - 1 \<and>
     Q (k (calls p) c) (after_call k c p)"
  by (simp add: os_check_def wp error_and_exit_def)

lemma runs_to_on_process [wp]:
  "runs_to (on_process m) p Q \<longleftrightarrow> runs_to m (process_mem p) (\<lambda>x h. Q x (p\<lparr>process_mem := h\<rparr>))"
  by (simp add: runs_to_def on_process_def split: sum.split)

lemma runs_to_say [wp]:
  "runs_to (say t) p Q \<longleftrightarrow> Q () (p\<lparr>process_mem := printed t (process_mem p)\<rparr>)"
  by (simp add: say_def wp print_def printed_def)

lemma fds_mem [simp]: "fds_of (p\<lparr>process_mem := h\<rparr>) = fds_of p"
  by (simp add: fds_of_def)

lemma fds_call [simp]: "fds_of (after_call k c p) = fds_after (fds_of p) (c, k (calls p) c)"
  by (simp add: fds_of_def open_fds_snoc after_call_def)

lemma fds_same:
  "fds_of (after_call k (Malloc s) p) = fds_of p" "fds_of (after_call k (Free s) p) = fds_of p"
  "fds_of (after_call k Fork p) = fds_of p" "fds_of (after_call k (Fdopen fd s) p) = fds_of p"
  "fds_of (after_call k (Pthread_Create s) p) = fds_of p" "fds_of (after_call k (Pthread_Join s) p) = fds_of p"
  "fds_of (after_call k (Curses s) p) = fds_of p" "fds_of (after_call k (Stderr s) p) = fds_of p"
  by simp_all

lemma mem_call [simp]: "process_mem (after_call k c p) = process_mem p"
  by (simp add: after_call_def)

section \<open>The descriptors a piece of code holds\<close>

lemma posixD:
  assumes "posix k"
  shows "ret (k cs Socket) \<noteq> - 1 \<Longrightarrow> ret (k cs Socket) \<notin> open_fds cs"
    and "ret (k cs (Accept4 fd)) \<noteq> - 1 \<Longrightarrow> ret (k cs (Accept4 fd)) \<notin> open_fds cs"
    and "ret (k cs Pipe2) \<noteq> - 1 \<Longrightarrow> fst (ends (k cs Pipe2)) \<notin> open_fds cs \<and>
        snd (ends (k cs Pipe2)) \<notin> open_fds cs \<and> fst (ends (k cs Pipe2)) \<noteq> snd (ends (k cs Pipe2))"
    and "ret (k cs (Close fd)) = (if fd \<in> open_fds cs then 0 else - 1)"
    and "ret (k cs (Fclose fd)) = (if fd \<in> open_fds cs then 0 else - 1)"
  using assms unfolding posix_def by blast+

text \<open>Besides \<open>S\<close> the process has exactly the descriptors of the list open, all different.\<close>

definition holding :: "int set \<Rightarrow> int list \<Rightarrow> process \<Rightarrow> bool" where
  "holding S xs p \<longleftrightarrow> distinct xs \<and> S \<inter> set xs = {} \<and> fds_of p = S \<union> set xs"

lemma holding_mem [simp]: "holding S xs (p\<lparr>process_mem := h\<rparr>) \<longleftrightarrow> holding S xs p"
  by (simp add: holding_def)

lemma holding_start: "holding (fds_of p) [] p"
  by (simp add: holding_def)

lemma holding_socket:
  assumes "posix k" and "holding S xs p" and "ret (k (calls p) Socket) \<noteq> - 1"
  shows "holding S (xs @ [ret (k (calls p) Socket)]) (after_call k Socket p)"
  using assms(2,3) posixD(1) [OF assms(1,3)] by (auto simp: holding_def fds_of_def [symmetric])

lemma holding_accept:
  assumes "posix k" and "holding S xs p" and "ret (k (calls p) (Accept4 fd)) \<noteq> - 1"
  shows "holding S (xs @ [ret (k (calls p) (Accept4 fd))]) (after_call k (Accept4 fd) p)"
  using assms(2,3) posixD(2) [OF assms(1,3)] by (auto simp: holding_def fds_of_def [symmetric])

lemma holding_pipe:
  assumes "posix k" and "holding S xs p" and "ret (k (calls p) Pipe2) \<noteq> - 1"
  shows "holding S (xs @ [fst (ends (k (calls p) Pipe2)), snd (ends (k (calls p) Pipe2))]) (after_call k Pipe2 p)"
  using assms(2,3) posixD(3) [OF assms(1,3)] by (auto simp: holding_def fds_of_def [symmetric])

lemma holding_close:
  assumes "posix k" and "holding S xs p" and "fd \<in> set xs"
  shows "ret (k (calls p) (Close fd)) = 0" and "holding S (remove1 fd xs) (after_call k (Close fd) p)"
proof -
  have "fd \<in> open_fds (calls p)" using assms(2,3) by (auto simp: holding_def fds_of_def)
  then show r: "ret (k (calls p) (Close fd)) = 0" using posixD(4) [OF assms(1)] by simp
  show "holding S (remove1 fd xs) (after_call k (Close fd) p)"
    using assms(2,3) r by (auto simp: holding_def)
qed

lemma holding_call:
  "holding S xs p \<Longrightarrow> (\<And>T r. fds_after T (c, r) = T) \<Longrightarrow> holding S xs (after_call k c p)"
  by (simp add: holding_def)

section \<open>Runs that may end in error_and_exit\<close>

text \<open>\<open>m\<close> either ends the process through \<open>error_and_exit\<close> or returns with \<open>Q\<close>; nothing else goes wrong.\<close>

definition returns_or_exits :: "('s, 'a) prog \<Rightarrow> 's \<Rightarrow> ('a \<Rightarrow> 's \<Rightarrow> bool) \<Rightarrow> bool" where
  "returns_or_exits m s Q = (case m s of
     Inl e \<Rightarrow> (\<exists>msg. e = Exit_Failure msg) | Inr r \<Rightarrow> Q (fst r) (snd r))"

named_theorems roe "rules that push returns_or_exits through a program"

lemma roe_return [roe]: "returns_or_exits (returnM x) s Q \<longleftrightarrow> Q x s"
  by (simp add: returns_or_exits_def prog_simps)

lemma roe_fail [roe]: "returns_or_exits (failM e) s Q \<longleftrightarrow> (\<exists>msg. e = Exit_Failure msg)"
  by (simp add: returns_or_exits_def prog_simps)

lemma roe_exit [roe]: "returns_or_exits (error_and_exit msg) s Q"
  by (simp add: error_and_exit_def roe)

lemma roe_bind [roe]:
  "returns_or_exits (bindM m f) s Q \<longleftrightarrow> returns_or_exits m s (\<lambda>x s'. returns_or_exits (f x) s' Q)"
  by (simp add: returns_or_exits_def prog_simps split: sum.split)

lemma roe_then [roe]:
  "returns_or_exits (thenM m n) s Q \<longleftrightarrow> returns_or_exits m s (\<lambda>_ s'. returns_or_exits n s' Q)"
  by (simp add: thenM_def roe)

lemma roe_runs_to: "runs_to m s Q \<Longrightarrow> returns_or_exits m s Q"
  by (auto simp: returns_or_exits_def runs_to_def split: sum.splits)

lemma roe_mono:
  "returns_or_exits m s P \<Longrightarrow> (\<And>x s'. P x s' \<Longrightarrow> Q x s') \<Longrightarrow> returns_or_exits m s Q"
  by (auto simp: returns_or_exits_def split: sum.splits)

lemma roe_conj:
  "returns_or_exits m s P \<Longrightarrow> returns_or_exits m s Q \<Longrightarrow> returns_or_exits m s (\<lambda>x s'. P x s' \<and> Q x s')"
  by (auto simp: returns_or_exits_def split: sum.splits)

lemma roe_exits: "returns_or_exits m s (\<lambda>_ _. False) \<longleftrightarrow> (\<exists>msg. m s = Inl (Exit_Failure msg))"
  by (auto simp: returns_or_exits_def split: sum.split)

lemma roe_os [roe]:
  "returns_or_exits (os k c) p Q \<longleftrightarrow> Q (k (calls p) c) (after_call k c p)"
  by (simp add: os_def returns_or_exits_def)

lemma roe_os_ignore [roe]:
  "returns_or_exits (os_ignore k c) p Q \<longleftrightarrow> Q () (after_call k c p)"
  by (simp add: os_ignore_def roe)

lemma roe_os_check [roe]:
  "returns_or_exits (os_check k c msg) p Q \<longleftrightarrow> (ret (k (calls p) c) \<noteq> - 1 \<longrightarrow>
     Q (k (calls p) c) (after_call k c p))"
  by (simp add: os_check_def roe)

lemma os_zero_roe [roe]:
  "returns_or_exits (os_zero k c msg) p Q \<longleftrightarrow> (ret (k (calls p) c) = 0 \<longrightarrow> Q () (after_call k c p))"
  by (simp add: os_zero_def roe)

lemma os_pointer_roe [roe]:
  "returns_or_exits (os_pointer k c msg) p Q \<longleftrightarrow> (ret (k (calls p) c) \<noteq> 0 \<longrightarrow> Q () (after_call k c p))"
  by (simp add: os_pointer_def roe)

lemma roe_say [roe]:
  "returns_or_exits (say t) p Q \<longleftrightarrow> Q () (p\<lparr>process_mem := printed t (process_mem p)\<rparr>)"
  by (simp add: say_def on_process_def print_def returns_or_exits_def prog_simps printed_def)

lemma roe_on_process [roe]:
  "returns_or_exits (on_process m) p Q \<longleftrightarrow> returns_or_exits m (process_mem p) (\<lambda>x h. Q x (p\<lparr>process_mem := h\<rparr>))"
  by (simp add: returns_or_exits_def on_process_def split: sum.split)

lemma roe_lift [roe]: "returns_or_exits (liftM (Inr x)) s Q \<longleftrightarrow> Q x s"
  by (simp add: returns_or_exits_def prog_simps)

lemma roe_for_fold:
  assumes "I 0 b s" and "\<And>i b s. i < n \<Longrightarrow> I i b s \<Longrightarrow> returns_or_exits (body i b) s (I (Suc i))"
  shows "returns_or_exits (for_fold [0..<n] body b) s (I n)"
proof -
  have "returns_or_exits (for_fold [m..<n] body b) s (I n)" if "I m b s" "m \<le> n" for m b s
    using that
  proof (induction "n - m" arbitrary: m b s)
    case 0
    then show ?case by (simp add: roe)
  next
    case (Suc d)
    then have m: "m < n" by simp
    have "returns_or_exits (bindM (body m b) (for_fold [Suc m..<n] body)) s (I n)"
      unfolding roe_bind
      by (rule roe_mono [OF assms(2) [OF m Suc.prems(1)]]) (use Suc m in simp)
    then show ?case using m by (simp add: upt_conv_Cons)
  qed
  then show ?thesis using assms(1) by simp
qed

section \<open>A system that has everything\<close>

text \<open>A kernel whose calls succeed, those of \<open>close\<close>, \<open>fclose\<close> and \<open>fdopen\<close> apart, which depend on the
  descriptors.\<close>

definition obliging :: "kernel \<Rightarrow> bool" where
  "obliging k \<longleftrightarrow> (\<forall>cs. ret (k cs Socket) \<noteq> - 1 \<and> ret (k cs Pipe2) \<noteq> - 1 \<and> ret (k cs Fork) \<noteq> - 1 \<and>
     (\<forall>fd. ret (k cs (Setsockopt fd)) \<noteq> - 1 \<and> ret (k cs (Accept4 fd)) \<noteq> - 1) \<and>
     (\<forall>fd a. ret (k cs (Connect fd a)) \<noteq> - 1 \<and> ret (k cs (Bind fd a)) \<noteq> - 1) \<and>
     (\<forall>fd b. ret (k cs (Listen fd b)) \<noteq> - 1) \<and> (\<forall>fd m. fd \<in> open_fds cs \<longrightarrow> ret (k cs (Fdopen fd m)) \<noteq> 0) \<and>
     (\<forall>t. ret (k cs (Malloc t)) \<noteq> 0 \<and> ret (k cs (Pthread_Create t)) = 0 \<and> ret (k cs (Pthread_Join t)) = 0))"

definition never_exits :: "('s, 'a) prog \<Rightarrow> 's \<Rightarrow> bool" where
  "never_exits m s \<longleftrightarrow> (\<forall>msg. m s \<noteq> Inl (Exit_Failure msg))"

definition quiet :: "('s, 'a) prog \<Rightarrow> bool" where
  "quiet m \<longleftrightarrow> (\<forall>s. never_exits m s)"

lemma roe_returns: "returns_or_exits m s Q \<Longrightarrow> never_exits m s \<Longrightarrow> runs_to m s Q"
  by (auto simp: returns_or_exits_def never_exits_def runs_to_def split: sum.splits)

lemma runs_to_never_exits: "runs_to m s Q \<Longrightarrow> never_exits m s"
  by (auto simp: never_exits_def runs_to_def)

lemma never_exits_bind: "never_exits m s \<Longrightarrow> (\<And>x. quiet (f x)) \<Longrightarrow> never_exits (bindM m f) s"
  by (auto simp: never_exits_def quiet_def prog_simps split: sum.splits)

named_theorems quiet_intro "code that does not call error_and_exit"

lemma quiet_bind [quiet_intro]: "quiet m \<Longrightarrow> (\<And>x. quiet (f x)) \<Longrightarrow> quiet (bindM m f)"
  by (simp only: quiet_def, intro allI never_exits_bind) (simp_all add: quiet_def)

lemma quiet_then [quiet_intro]: "quiet m \<Longrightarrow> quiet n \<Longrightarrow> quiet (thenM m n)"
  unfolding thenM_def by (rule quiet_bind)

lemma quiet_return [quiet_intro]: "quiet (returnM x)"
  by (simp add: quiet_def never_exits_def prog_simps)

lemma quiet_null [quiet_intro]: "quiet (failM Null_Deref)"
  by (simp add: quiet_def never_exits_def prog_simps)

lemma quiet_idx [quiet_intro]: "quiet (liftM (idx xs i))"
  by (simp add: quiet_def never_exits_def prog_simps idx_def)

lemma quiet_for_each [quiet_intro]: "(\<And>i. quiet (body i)) \<Longrightarrow> quiet (for_each is body)"
  by (induction "is") (auto intro: quiet_return quiet_then)

lemma quiet_for_fold [quiet_intro]: "(\<And>i b. quiet (body i b)) \<Longrightarrow> quiet (for_fold is body b)"
  by (induction "is" arbitrary: b) (auto intro: quiet_return quiet_bind)

lemma quiet_if [quiet_intro]: "quiet m \<Longrightarrow> quiet n \<Longrightarrow> quiet (if b then m else n)"
  by simp

lemma quiet_os [quiet_intro]: "quiet (os k c)" "quiet (os_ignore k c)"
  by (simp_all add: quiet_def never_exits_def os_ignore_def os_def prog_simps)

lemma quiet_say [quiet_intro]: "quiet (say t)"
  by (simp add: quiet_def never_exits_def say_def on_process_def print_def prog_simps)

lemma quiet_check [quiet_intro]: "(\<And>cs. ret (k cs c) \<noteq> - 1) \<Longrightarrow> quiet (os_check k c msg)"
  by (simp add: quiet_def never_exits_def os_check_def os_def prog_simps)

lemma quiet_pointer [quiet_intro]: "(\<And>cs. ret (k cs c) \<noteq> 0) \<Longrightarrow> quiet (os_pointer k c msg)"
  by (simp add: quiet_def never_exits_def os_pointer_def os_def prog_simps)

lemma quiet_zero [quiet_intro]: "(\<And>cs. ret (k cs c) = 0) \<Longrightarrow> quiet (os_zero k c msg)"
  by (simp add: quiet_def never_exits_def os_zero_def os_def prog_simps)

lemma obligingD:
  assumes "obliging k"
  shows "ret (k cs Socket) \<noteq> - 1" "ret (k cs Pipe2) \<noteq> - 1" "ret (k cs Fork) \<noteq> - 1"
    "ret (k cs (Setsockopt fd)) \<noteq> - 1" "ret (k cs (Accept4 fd)) \<noteq> - 1" "ret (k cs (Connect fd a)) \<noteq> - 1"
    "ret (k cs (Bind fd a)) \<noteq> - 1" "ret (k cs (Listen fd b)) \<noteq> - 1" "fd \<in> open_fds cs \<Longrightarrow> ret (k cs (Fdopen fd t)) \<noteq> 0"
    "ret (k cs (Malloc t)) \<noteq> 0" "ret (k cs (Pthread_Create t)) = 0" "ret (k cs (Pthread_Join t)) = 0"
  using assms unfolding obliging_def by blast+

section \<open>Two threads beside the main one\<close>

text \<open>What a thread does outside its loop, one call after the other. Between two of its calls the other thread
  may make some of its own: a schedule says which of the two goes on (\<open>True\<close> the first), and ends at
  the moment at which the process is looked at. \<open>early\<close> calls of the first thread come before the second one has been
  created. A thread goes past its loop when its \<open>getline\<close> or \<open>getch\<close> tells it to; a schedule in which
  it does not is one in which it is still in the loop.\<close>

primrec steps :: "('s, unit) prog list \<Rightarrow> ('s, unit) prog" where
  "steps [] = returnM ()"
| "steps (a # as) = thenM a (steps as)"

record schedule =
  early :: nat
  order :: "bool list"

text \<open>The result: how many calls each of the two has not made yet.\<close>

primrec interleave :: "bool list \<Rightarrow> ('s, unit) prog list \<Rightarrow> ('s, unit) prog list \<Rightarrow> ('s, nat \<times> nat) prog" where
  "interleave [] A B = returnM (length A, length B)"
| "interleave (b # bs) A B =
    (if b then (case A of [] \<Rightarrow> interleave bs A B | a # A' \<Rightarrow> thenM a (interleave bs A' B))
     else (case B of [] \<Rightarrow> interleave bs A B | a # B' \<Rightarrow> thenM a (interleave bs A B')))"

text \<open>\<open>a\<close> calls of the first and \<open>b\<close> of the second thread are made; no more than that are made.\<close>

definition runs_out :: "schedule \<Rightarrow> nat \<Rightarrow> nat \<Rightarrow> bool" where
  "runs_out s a b \<longleftrightarrow> a \<le> early s + count_list (order s) True \<and> b \<le> count_list (order s) False"

definition stays_within :: "schedule \<Rightarrow> nat \<Rightarrow> nat \<Rightarrow> bool" where
  "stays_within s a b \<longleftrightarrow> early s + count_list (order s) True \<le> a \<and> count_list (order s) False \<le> b"

text \<open>The rules come twice, for runs that may end in \<open>error_and_exit\<close> and for those that return.\<close>

lemma steps_roe:
  assumes "\<And>a p. a \<in> set as \<Longrightarrow> I p \<Longrightarrow> returns_or_exits a p (\<lambda>_. I)" and "I p"
  shows "returns_or_exits (steps as) p (\<lambda>_. I)"
  using assms
proof (induction as arbitrary: p)
  case (Cons a as)
  have "returns_or_exits a p (\<lambda>_. I)" using Cons.prems by simp
  then show ?case unfolding steps.simps roe_then by (rule roe_mono) (use Cons in simp)
qed (simp add: roe)

lemma steps_runs:
  assumes "\<And>a p. a \<in> set as \<Longrightarrow> I p \<Longrightarrow> runs_to a p (\<lambda>_. I)" and "I p"
  shows "runs_to (steps as) p (\<lambda>_. I)"
  using assms by (induction as arbitrary: p) (auto intro!: runs_to_thenI)

lemma interleave_roe:
  assumes "\<And>a p. a \<in> set (take m A) \<union> set (take n B) \<Longrightarrow> I p \<Longrightarrow> returns_or_exits a p (\<lambda>_. I)"
    and "count_list bs True \<le> m" and "count_list bs False \<le> n" and "I p"
  shows "returns_or_exits (interleave bs A B) p (\<lambda>r p'. I p' \<and>
    r = (length A - count_list bs True, length B - count_list bs False))"
  using assms
proof (induction bs arbitrary: A B m n p)
  case Nil
  then show ?case by (simp add: roe)
next
  case (Cons b bs)
  show ?case
  proof (cases b)
    case True
    then obtain m' where m: "m = Suc m'" using Cons.prems(2) by (cases m) auto
    show ?thesis
    proof (cases A)
      case Nil
      then show ?thesis using Cons.IH [of m A n B p] Cons.prems True by (simp add: m)
    next
      case (Cons a A')
      have "returns_or_exits a p (\<lambda>_. I)" using Cons.prems(1) [of a p] Cons.prems(4) Cons by (simp add: m)
      moreover have "returns_or_exits (interleave bs A' B) p' (\<lambda>r p'. I p' \<and>
          r = (length A' - count_list bs True, length B - count_list bs False))" if "I p'" for p'
        using Cons.IH [of m' A' n B p'] Cons.prems Cons True that by (simp add: m)
      ultimately show ?thesis using Cons True by (simp add: roe) (erule roe_mono, simp)
    qed
  next
    case False
    then obtain n' where n: "n = Suc n'" using Cons.prems(3) by (cases n) auto
    show ?thesis
    proof (cases B)
      case Nil
      then show ?thesis using Cons.IH [of m A n B p] Cons.prems False by (simp add: n)
    next
      case (Cons a B')
      have "returns_or_exits a p (\<lambda>_. I)" using Cons.prems(1) [of a p] Cons.prems(4) Cons by (simp add: n)
      moreover have "returns_or_exits (interleave bs A B') p' (\<lambda>r p'. I p' \<and>
          r = (length A - count_list bs True, length B' - count_list bs False))" if "I p'" for p'
        using Cons.IH [of m A n' B' p'] Cons.prems Cons False that by (simp add: n)
      ultimately show ?thesis using Cons False by (simp add: roe) (erule roe_mono, simp)
    qed
  qed
qed

lemma interleave_runs:
  assumes "\<And>a p. a \<in> set (take m A) \<union> set (take n B) \<Longrightarrow> I p \<Longrightarrow> runs_to a p (\<lambda>_. I)"
    and "count_list bs True \<le> m" and "count_list bs False \<le> n" and "I p"
  shows "runs_to (interleave bs A B) p (\<lambda>r p'. I p' \<and>
    r = (length A - count_list bs True, length B - count_list bs False))"
proof (rule roe_returns)
  show "returns_or_exits (interleave bs A B) p (\<lambda>r p'. I p' \<and>
      r = (length A - count_list bs True, length B - count_list bs False))"
    using assms by (intro interleave_roe roe_runs_to)
  show "never_exits (interleave bs A B) p"
    using assms
  proof (induction bs arbitrary: A B m n p)
    case Nil
    then show ?case by (simp add: never_exits_def prog_simps)
  next
    case (Cons b bs)
    have go: "never_exits (thenM a (interleave bs A' B')) p"
      if "runs_to a p (\<lambda>_. I)" and "\<And>q. I q \<Longrightarrow> never_exits (interleave bs A' B') q" for a A' B'
      using that by (auto simp: never_exits_def prog_simps elim!: runs_toE)
    show ?case
    proof (cases "if b then A else B")
      case Nil
      then show ?thesis using Cons.IH [of m A n B p] Cons.prems by (cases b) simp_all
    next
      case (Cons a C)
      show ?thesis
      proof (cases b)
        case True
        then obtain m' where m: "m = Suc m'" using Cons.prems(2) by (cases m) auto
        show ?thesis using True Cons Cons.prems m by (simp, intro go Cons.IH [of m' C n B]) auto
      next
        case False
        then obtain n' where n: "n = Suc n'" using Cons.prems(3) by (cases n) auto
        show ?thesis using False Cons Cons.prems n by (simp, intro go Cons.IH [of m A n' C]) auto
      qed
    qed
  qed
qed

text \<open>A schedule that stays within the first \<open>a\<close> and \<open>b\<close> calls makes none of the others.\<close>

lemma set_take_le: "n \<le> a \<or> length xs \<le> a \<Longrightarrow> set (take n xs) \<subseteq> set (take a xs)"
  using set_take_subset_set_take [of n a xs] by (auto dest: in_set_takeD)

lemma steps_part:
  assumes keep: "\<And>x p. x \<in> set (take a A) \<Longrightarrow> I p \<Longrightarrow> returns_or_exits x p (\<lambda>_. I)"
    and "e \<le> a \<or> length A \<le> a" and p: "I p"
  shows "returns_or_exits (steps (take e A)) p (\<lambda>_. I)"
proof (rule steps_roe [where I = I])
  fix x q assume "x \<in> set (take e A)" "I q"
  then show "returns_or_exits x q (\<lambda>_. I)" using set_take_le [OF assms(2)] keep by blast
qed (rule p)

lemma interleave_part:
  assumes keep: "\<And>x p. x \<in> set (take a A) \<union> set (take b B) \<Longrightarrow> I p \<Longrightarrow> returns_or_exits x p (\<lambda>_. I)"
    and A: "e + count_list bs True \<le> a \<or> length A \<le> a" and B: "count_list bs False \<le> b \<or> length B \<le> b" and p: "I p"
  shows "returns_or_exits (interleave bs (drop e A) B) p (\<lambda>r p'. I p' \<and>
    r = (length A - e - count_list bs True, length B - count_list bs False))"
proof -
  let ?m = "count_list bs True" and ?n = "count_list bs False"
  have "set (take ?m (drop e A)) \<subseteq> set (take (e + ?m) A)"
    using set_drop_subset [of e "take (e + ?m) A"] by (simp add: take_drop add.commute)
  then have sub: "set (take ?m (drop e A)) \<union> set (take ?n B) \<subseteq> set (take a A) \<union> set (take b B)"
    using set_take_le [OF A] set_take_le [OF B] by blast
  have "returns_or_exits (interleave bs (drop e A) B) p (\<lambda>r p'. I p' \<and>
      r = (length (drop e A) - ?m, length B - ?n))"
    by (rule interleave_roe [where m = ?m and n = ?n]) (use sub keep p in blast)+
  then show ?thesis by simp
qed

text \<open>A call that ends the process when it is made for the second time.\<close>

definition only_once :: "('s, unit) prog \<Rightarrow> ('s \<Rightarrow> bool) \<Rightarrow> ('s, unit) prog set \<Rightarrow> bool" where
  "only_once c G X \<longleftrightarrow> (\<forall>p. returns_or_exits c p (\<lambda>_. G)) \<and> (\<forall>p. G p \<longrightarrow> returns_or_exits c p (\<lambda>_ _. False)) \<and>
     (\<forall>a\<in>X. \<forall>p. returns_or_exits a p (\<lambda>_ p'. G p \<longrightarrow> G p'))"

lemma only_onceD:
  assumes "only_once c G X"
  shows "returns_or_exits c p (\<lambda>_. G)" and "G p \<Longrightarrow> returns_or_exits c p (\<lambda>_ _. False)"
    and "a \<in> X \<Longrightarrow> returns_or_exits a p (\<lambda>_ p'. G p \<longrightarrow> G p')"
  using assms unfolding only_once_def by blast+

lemma steps_twice:
  assumes "only_once c G X" and "set A \<subseteq> X" and "G p \<or> c \<in> set A"
  shows "returns_or_exits (steps (take e A)) p (\<lambda>_ p'. G p' \<or> c \<in> set (drop e A))"
  using assms(2,3)
proof (induction A arbitrary: e p)
  case (Cons a A)
  show ?case
  proof (cases e)
    case 0
    then show ?thesis using Cons.prems by (simp add: roe)
  next
    case (Suc e')
    have "returns_or_exits a p (\<lambda>_ p'. G p' \<or> c \<in> set A)"
    proof (cases "a = c")
      case True
      show ?thesis unfolding True by (rule roe_mono [OF only_onceD(1) [OF assms(1)]]) simp
    next
      case False
      then show ?thesis using only_onceD(3) [OF assms(1), of a p] Cons.prems by (auto elim!: roe_mono)
    qed
    then show ?thesis
      using Cons.IH Cons.prems(1) by (simp add: Suc roe) (erule roe_mono, simp)
  qed
qed (simp add: roe)

lemma interleave_twice:
  assumes "only_once c G X" and "set A \<union> set B \<subseteq> X" and "G p \<or> c \<in> set A" and "G p \<or> c \<in> set B"
    and "c \<in> set A \<or> c \<in> set B"
  shows "returns_or_exits (interleave bs A B) p (\<lambda>r p'. r \<noteq> (0, 0))"
  using assms(2-)
proof (induction bs arbitrary: A B p)
  case Nil
  then show ?case by (auto simp: roe)
next
  case (Cons b bs)
  have go: "returns_or_exits (thenM a (interleave bs A' B')) p (\<lambda>r p'. r \<noteq> (0, 0))"
    if a: "a \<in> X" and X: "set A' \<union> set B' \<subseteq> X" and p: "a \<noteq> c \<Longrightarrow> (G p \<or> c \<in> set A') \<and> (G p \<or> c \<in> set B') \<and> (c \<in> set A' \<or> c \<in> set B')"
      and c: "a = c \<Longrightarrow> G p \<or> c \<in> set A' \<or> c \<in> set B'" for a A' B'
  proof (cases "a = c")
    case True
    show ?thesis
    proof (cases "G p")
      case G: True
      show ?thesis unfolding roe_then True using only_onceD(2) [OF assms(1) G] by (rule roe_mono) simp
    next
      case False
      show ?thesis
        unfolding roe_then True using only_onceD(1) [OF assms(1), of p]
        by (rule roe_mono, intro Cons.IH) (use True False X c in auto)
    qed
  next
    case False
    show ?thesis
      unfolding roe_then using only_onceD(3) [OF assms(1) a, of p]
      by (rule roe_mono, intro Cons.IH) (use False X p in auto)
  qed
  show ?case
  proof (cases "if b then A else B")
    case Nil
    then show ?thesis using Cons.IH [of A B p] Cons.prems by (cases b) simp_all
  next
    case (Cons a C)
    show ?thesis
    proof (cases b)
      case True
      then show ?thesis using Cons Cons.prems by (simp, intro go) auto
    next
      case False
      then show ?thesis using Cons Cons.prems by (simp, intro go) auto
    qed
  qed
qed

text \<open>Once the first thread has no call left, all of its calls have been made.\<close>

lemma interleave_made:
  assumes "only_once c G X" and "set A \<union> set B \<subseteq> X" and "G p \<or> c \<in> set A"
  shows "returns_or_exits (interleave bs A B) p (\<lambda>r p'. fst r = 0 \<longrightarrow> G p')"
  using assms(2-)
proof (induction bs arbitrary: A B p)
  case Nil
  then show ?case by (auto simp: roe)
next
  case (Cons b bs)
  have go: "returns_or_exits (thenM a (interleave bs A' B')) p (\<lambda>r p'. fst r = 0 \<longrightarrow> G p')"
    if a: "a \<in> X" and X: "set A' \<union> set B' \<subseteq> X" and p: "a \<noteq> c \<Longrightarrow> G p \<or> c \<in> set A'" for a A' B'
  proof -
    have "returns_or_exits a p (\<lambda>_ p'. G p' \<or> c \<in> set A')"
    proof (cases "a = c")
      case True
      show ?thesis unfolding True by (rule roe_mono [OF only_onceD(1) [OF assms(1)]]) simp
    next
      case False
      show ?thesis by (rule roe_mono [OF only_onceD(3) [OF assms(1) a]]) (use p False in blast)
    qed
    then show ?thesis unfolding roe_then by (rule roe_mono) (use Cons.IH X in simp)
  qed
  show ?case
  proof (cases "if b then A else B")
    case Nil
    then show ?thesis using Cons.IH [of A B p] Cons.prems by (cases b) simp_all
  next
    case (Cons a C)
    show ?thesis
    proof (cases b)
      case True
      then show ?thesis using Cons Cons.prems by (simp, intro go) auto
    next
      case False
      then show ?thesis using Cons Cons.prems by (simp, intro go) auto
    qed
  qed
qed

text \<open>What the threads of the program call outside their loops.\<close>

fun thread_call :: "os_call \<Rightarrow> bool" where
  "thread_call (Malloc t) = True" | "thread_call (Free t) = True"
| "thread_call (Fdopen fd m) = True" | "thread_call (Curses t) = (t = ''endwin'')"
| "thread_call c = False"

definition thread_step :: "kernel \<Rightarrow> int set \<Rightarrow> (process, unit) prog \<Rightarrow> bool" where
  "thread_step k F a \<longleftrightarrow> (\<exists>t. a = say t) \<or>
     (\<exists>c msg. thread_call c \<and> (a = os_pointer k c msg \<or> a = os_ignore k c)) \<or>
     (\<exists>fd\<in>F. \<exists>msg. a = os_zero k (Fclose fd) msg)"

lemma thread_step_roe:
  assumes "thread_step k F a" and "I p" and "\<And>t. I (p\<lparr>process_mem := printed t (process_mem p)\<rparr>)"
    and "\<And>c. thread_call c \<Longrightarrow> I (after_call k c p)"
    and "\<And>fd. fd \<in> F \<Longrightarrow> ret (k (calls p) (Fclose fd)) = 0 \<Longrightarrow> I (after_call k (Fclose fd) p)"
  shows "returns_or_exits a p (\<lambda>_. I)"
  using assms by (auto simp: thread_step_def roe)

lemma thread_steps [simp]:
  "thread_step k F (say t)" "thread_call c \<Longrightarrow> thread_step k F (os_pointer k c msg)"
  "thread_call c \<Longrightarrow> thread_step k F (os_ignore k c)" "fd \<in> F \<Longrightarrow> thread_step k F (os_zero k (Fclose fd) msg)"
  unfolding thread_step_def by blast+

lemma thread_call_fds: "thread_call c \<Longrightarrow> fds_of (after_call k c p) = fds_of p"
  by (cases c) (simp_all add: fds_same del: fds_call)

lemma fclose_once:
  assumes k: "posix k" and X: "\<And>a. a \<in> X \<Longrightarrow> thread_step k F a"
  shows "only_once (os_zero k (Fclose fd) msg) (\<lambda>p. fd \<notin> fds_of p) X"
  unfolding only_once_def
proof (intro conjI allI impI ballI)
  fix p :: process
  show "returns_or_exits (os_zero k (Fclose fd) msg) p (\<lambda>_ p'. fd \<notin> fds_of p')" by (simp add: roe)
  show "returns_or_exits (os_zero k (Fclose fd) msg) p (\<lambda>_ _. False)" if "fd \<notin> fds_of p"
    using posixD(5) [OF k, of "calls p" fd] that by (simp add: roe fds_of_def [symmetric])
  show "returns_or_exits a p (\<lambda>_ p'. fd \<notin> fds_of p \<longrightarrow> fd \<notin> fds_of p')" if "a \<in> X" for a
    by (rule thread_step_roe [OF X [OF that]]) (simp_all add: thread_call_fds del: fds_call, simp)
qed

end
