(* ===== verification/Server_Setup.thy ===== *)
theory Server_Setup
  imports Os Server_Commands
begin

text \<open>
  How the server of \<open>src/server/rubiks_server.c\<close> and \<open>src/server/run_server.c\<close> is set up and taken
  down: the server object with its pipes, the accept loop, the process that serves one client,
  and what each thread does before and after its loop (the loops are in \<open>Server_Threads\<close> and
  \<open>Pipes\<close>). The lemmas are about the descriptors that every process holds.
\<close>

section \<open>The server object\<close>

text \<open>\<open>client_pipes ! i\<close>: the two ends, to read and to write, of the pipe from client \<open>i\<close> to the server
  and of the pipe from the server to client \<open>i\<close>.\<close>

record server_object =
  listener_socket :: int
  addr :: sockaddr_in
  max_backlog :: int
  client_pipes :: "((int \<times> int) \<times> int \<times> int) list"
  cube_object :: addr

definition pipe_note :: "nat \<Rightarrow> reply \<Rightarrow> reply \<Rightarrow> string" where
  "pipe_note i a b = concat (map (\<lambda>(what, fd).
     ''Process '' @ show_nat i @ '': Pipe '' @ what @ '': '' @ show_int fd @ [newline])
     [(''client to server (read)'', fst (ends a)), (''client to server (write)'', snd (ends a)),
      (''server to client (read)'', fst (ends b)), (''server to client (write)'', snd (ends b))])"

definition make_client_pipes ::
    "kernel \<Rightarrow> nat \<Rightarrow> ((int \<times> int) \<times> int \<times> int) list \<Rightarrow> (process, ((int \<times> int) \<times> int \<times> int) list) prog" where
  "make_client_pipes k cube_face_id pipes =
     bindM (os_check k Pipe2 ''Failed to create pipe for client-handling processes.'') (\<lambda>a.
     bindM (os_check k Pipe2 ''Failed to create pipe for client-handling processes.'') (\<lambda>b.
     thenM (say (pipe_note cube_face_id a b)) (returnM (pipes @ [(ends a, ends b)]))))"

text \<open>The result of \<open>malloc\<close> is not checked: without memory the first assignment faults.\<close>

definition make_echo_server :: "kernel \<Rightarrow> sockaddr_in \<Rightarrow> int \<Rightarrow> addr \<Rightarrow> (process, server_object) prog" where
  "make_echo_server k ip_addr backlog global_cube_state =
     bindM (os k (Malloc ''echo_server'')) (\<lambda>m.
     bindM (open_tcp_socket k) (\<lambda>listener.
     if ret m = 0 then failM Null_Deref else
     bindM (for_fold [0..<N_FACES] (make_client_pipes k) []) (\<lambda>pipes.
     returnM \<lparr>listener_socket = listener, addr = ip_addr, max_backlog = backlog, client_pipes = pipes,
       cube_object = global_cube_state\<rparr>)))"

definition close_client_pipes :: "kernel \<Rightarrow> server_object \<Rightarrow> nat \<Rightarrow> (process, unit) prog" where
  "close_client_pipes k srv cube_face_id =
     bindM (liftM (idx (client_pipes srv) (int cube_face_id))) (\<lambda>p.
     thenM (os_ignore k (Close (fst (fst p))))
    (thenM (os_ignore k (Close (snd (fst p))))
    (thenM (os_ignore k (Close (fst (snd p))))
    (os_ignore k (Close (snd (snd p)))))))"

definition free_echo_server :: "kernel \<Rightarrow> server_object \<Rightarrow> (process, unit) prog" where
  "free_echo_server k srv =
     thenM (for_each [0..<N_FACES] (close_client_pipes k srv))
    (thenM (close_tcp_socket k (listener_socket srv))
    (thenM (on_process (free cube_heap cube_heap_update (cube_object srv)))
    (thenM (os_ignore k (Free ''global_cube_state_lock''))
    (thenM (os_ignore k (Free ''broadcast_message_ready''))
    (os_ignore k (Free ''echo_server''))))))"

definition listen_for_connections :: "kernel \<Rightarrow> server_object \<Rightarrow> (process, unit) prog" where
  "listen_for_connections k srv =
     bindM (os_check k (Setsockopt (listener_socket srv)) ''Failed to set the reuse option on the socket'') (\<lambda>r.
     bindM (os_check k (Bind (listener_socket srv) (addr srv)) ''Failed to bind to socket'') (\<lambda>r.
     bindM (os_check k (Listen (listener_socket srv) BACKLOG_SIZE) ''Server listening failed.'') (\<lambda>r.
     returnM ())))"

section \<open>One client\<close>

record server_thread_listen_to_pipe_args =
  thread_server :: server_object
  thread_client_id :: nat

record client_facing_thread_channels =
  socket_descriptor :: int
  pipe_receiving_end :: int
  pipe_transmitting_end :: int

definition make_server_thread_listen_to_pipe_args ::
    "kernel \<Rightarrow> server_object \<Rightarrow> nat \<Rightarrow> (process, server_thread_listen_to_pipe_args) prog" where
  "make_server_thread_listen_to_pipe_args k srv client_id =
     thenM (os_pointer k (Malloc ''server_thread_listen_to_pipe_args'')
       ''Failed to initialize server_thread_listen_to_pipe_args object'')
     (returnM \<lparr>thread_server = srv, thread_client_id = client_id\<rparr>)"

text \<open>It releases the server object, too, which is not its own.\<close>

definition free_server_thread_listen_to_pipe_args :: "kernel \<Rightarrow> (process, unit) prog" where
  "free_server_thread_listen_to_pipe_args k =
     thenM (os_ignore k (Free ''echo_server'')) (os_ignore k (Free ''server_thread_listen_to_pipe_args''))"

definition make_client_facing_thread_channels ::
    "kernel \<Rightarrow> int \<Rightarrow> int \<Rightarrow> int \<Rightarrow> (process, client_facing_thread_channels) prog" where
  "make_client_facing_thread_channels k sd receiving transmitting =
     thenM (os_pointer k (Malloc ''client_facing_thread_channels'') ''Malloc failed for reading line from pipe.'')
     (returnM \<lparr>socket_descriptor = sd, pipe_receiving_end = receiving, pipe_transmitting_end = transmitting\<rparr>)"

definition free_client_facing_thread_channels :: "kernel \<Rightarrow> (process, unit) prog" where
  "free_client_facing_thread_channels k = os_ignore k (Free ''client_facing_thread_channels'')"

section \<open>The threads that serve one client\<close>

text \<open>What each of the two threads of a client-facing process calls before and after its loop. Both have a stream of
  their own for the socket of the client, and both close it.\<close>

definition pipe_thread_start :: "kernel \<Rightarrow> client_facing_thread_channels \<Rightarrow> (process, unit) prog list" where
  "pipe_thread_start k channels =
    [os_pointer k (Fdopen (socket_descriptor channels) ''w'')
       ''Client facing thread listen to pipe: failed to open socket file'',
     os_pointer k (Fdopen (pipe_receiving_end channels) ''r'')
       ''Client facing thread listen to pipe: failed to open pipe file'',
     os_pointer k (Malloc ''line'') ''Malloc failed for reading line from pipe.'',
     say (''Goodbye world #1'' @ [newline]),
     say (''Client facing thread listen to pipe: Listening to file descriptor '' @
       show_int (pipe_receiving_end channels) @ [newline])]"

definition pipe_thread_end :: "kernel \<Rightarrow> client_facing_thread_channels \<Rightarrow> (process, unit) prog list" where
  "pipe_thread_end k channels =
    [say ''Client facing thread listen to pipe: Finished reading lines and exiting.'',
     os_zero k (Fclose (socket_descriptor channels)) ''Failed to close file.'',
     os_zero k (Fclose (pipe_receiving_end channels)) ''Failed to close file.'',
     os_ignore k (Free ''line'')]"

definition socket_thread_start :: "kernel \<Rightarrow> client_facing_thread_channels \<Rightarrow> (process, unit) prog list" where
  "socket_thread_start k channels =
    [os_pointer k (Fdopen (socket_descriptor channels) ''r+e'')
       ''Client facing thread listen to socket: failed to open socket file'',
     os_pointer k (Fdopen (pipe_transmitting_end channels) ''w'')
       ''Client facing thread listen to socket: failed to open pipe file'',
     os_pointer k (Malloc ''line'') ''Malloc failed for reading line from socket.'',
     say (''Child process is running and awaiting a message from the socket'' @ [newline]),
     say (''Goodbye world #2'' @ [newline])]"

definition socket_thread_end :: "kernel \<Rightarrow> client_facing_thread_channels \<Rightarrow> (process, unit) prog list" where
  "socket_thread_end k channels =
    [os_zero k (Fclose (socket_descriptor channels)) ''Failed to close file.'',
     os_zero k (Fclose (pipe_transmitting_end channels)) ''Failed to close file.'',
     os_ignore k (Free ''line'')]"

text \<open>The whole of each thread but its loop, which uses the descriptors and neither opens nor closes one.\<close>

definition client_facing_thread_listen_to_pipe ::
    "kernel \<Rightarrow> client_facing_thread_channels \<Rightarrow> (process, unit) prog list" where
  "client_facing_thread_listen_to_pipe k channels = pipe_thread_start k channels @ pipe_thread_end k channels"

definition client_facing_thread_listen_to_socket ::
    "kernel \<Rightarrow> client_facing_thread_channels \<Rightarrow> (process, unit) prog list" where
  "client_facing_thread_listen_to_socket k channels = socket_thread_start k channels @ socket_thread_end k channels"

text \<open>What a thread does alone after its loop.\<close>

definition client_facing_thread_listen_to_pipe_end ::
    "kernel \<Rightarrow> client_facing_thread_channels \<Rightarrow> (process, unit) prog" where
  "client_facing_thread_listen_to_pipe_end k channels = steps (pipe_thread_end k channels)"

definition client_facing_thread_listen_to_socket_end ::
    "kernel \<Rightarrow> client_facing_thread_channels \<Rightarrow> (process, unit) prog" where
  "client_facing_thread_listen_to_socket_end k channels = steps (socket_thread_end k channels)"

text \<open>The process, up to the moment at which the schedule \<open>s\<close> ends: \<open>None\<close> says that it then waits for a thread
  that has not ended. Each \<open>pthread_join\<close> waits; its reply is asked for when both threads have stopped for good.\<close>

definition client_facing_process ::
    "kernel \<Rightarrow> schedule \<Rightarrow> int \<Rightarrow> server_object \<Rightarrow> nat \<Rightarrow> (process, unit option) prog" where
  "client_facing_process k s sd srv client_id =
     bindM (liftM (idx (client_pipes srv) (int client_id))) (\<lambda>p.
     thenM (os_ignore k (Close (fst (fst p))))
    (thenM (os_ignore k (Close (snd (snd p))))
    (bindM (make_client_facing_thread_channels k sd (fst (snd p)) (snd (fst p))) (\<lambda>channels.
     thenM (say (''Creating client facing thread #1'' @ [newline]))
    (thenM (os_zero k (Pthread_Create ''client_facing_thread_listen_to_pipe'')
       ''Error creating pipe listener thread during client_facing_process()'')
    (thenM (steps (take (early s) (client_facing_thread_listen_to_pipe k channels)))
    (thenM (say (''Creating client facing thread #2'' @ [newline]))
    (thenM (os_zero k (Pthread_Create ''client_facing_thread_listen_to_socket'')
       ''Error creating socket thread during client_facing_process()'')
    (bindM (interleave (order s) (drop (early s) (client_facing_thread_listen_to_pipe k channels))
       (client_facing_thread_listen_to_socket k channels)) (\<lambda>left.
     if fst left \<noteq> 0 then returnM None
     else thenM (os_zero k (Pthread_Join ''client_facing_thread_listen_to_pipe'') ''Pipe thread failed to join'')
       (if snd left \<noteq> 0 then returnM None
        else thenM (os_zero k (Pthread_Join ''client_facing_thread_listen_to_socket'') ''Socket thread failed to join.'')
         (thenM (free_client_facing_thread_channels k) (returnM (Some ()))))))))))))))"

text \<open>\<open>fork\<close> returns in both processes: a run of the child is one in which its reply is \<open>0\<close>. \<open>None\<close> is a child that
  serves its client.\<close>

definition accept_client :: "kernel \<Rightarrow> schedule \<Rightarrow> server_object \<Rightarrow> nat \<Rightarrow> (process, int option) prog" where
  "accept_client k s srv client_id =
     bindM (os_check k (Accept4 (listener_socket srv)) ''Failed to open socket for accepted client.'') (\<lambda>a.
     bindM (os_check k Fork ''Failed to create fork for accepted client.'') (\<lambda>pid.
     if ret pid = 0 then bindM (client_facing_process k s (ret a) srv client_id) (\<lambda>r. returnM (map_option (\<lambda>_. 0) r))
     else bindM (liftM (idx (client_pipes srv) (int client_id))) (\<lambda>p.
       thenM (os_ignore k (Close (snd (fst p))))
      (thenM (os_ignore k (Close (fst (snd p))))
      (bindM (make_server_thread_listen_to_pipe_args k srv client_id) (\<lambda>thread_args.
       thenM (os_zero k (Pthread_Create ''server_thread_listen_to_pipe'')
         ''Error creating pipe listener thread for server pipe monitoring.'')
       (returnM (Some 0))))))))"

section \<open>run_server.c\<close>

text \<open>The loop \<open>while (accept_status != -1 && num_clients_connected < N_FACES)\<close>, with the clients still to
  come as its bound; \<open>sched i\<close> is the schedule of client \<open>i\<close>'s process.\<close>

primrec accept_loop ::
    "kernel \<Rightarrow> (nat \<Rightarrow> schedule) \<Rightarrow> server_object \<Rightarrow> nat \<Rightarrow> int \<Rightarrow> (process, unit option) prog" where
  "accept_loop k sched srv 0 accept_status = returnM (Some ())"
| "accept_loop k sched srv (Suc n) accept_status =
     (if accept_status = - 1 then returnM (Some ())
      else bindM (accept_client k (sched (N_FACES - Suc n)) srv (N_FACES - Suc n)) (\<lambda>r. case r of
          None \<Rightarrow> returnM None | Some status \<Rightarrow> accept_loop k sched srv n status))"

definition server_setup :: "kernel \<Rightarrow> (16 word \<Rightarrow> 16 word) \<Rightarrow> (process, server_object) prog" where
  "server_setup k htons =
     (let server_addr = socket_address htons 0 PORT in
      bindM (on_process make_cube) (\<lambda>global_cube_state.
      thenM (os_pointer k (Malloc ''global_cube_state_lock'') ''Error initializing global_cube_state_lock mutex'')
     (thenM (os_pointer k (Malloc ''broadcast_message_ready'')
        ''Error initializing broadcast_message_ready semaphore'')
     (bindM (make_echo_server k server_addr BACKLOG_SIZE global_cube_state) (\<lambda>srv.
      thenM (os_zero k (Pthread_Create ''server_thread_wait_and_broadcast'')
        ''Error creating broadcast listener thread for server pipe monitoring.'')
     (thenM (listen_for_connections k srv) (returnM srv)))))))"

text \<open>The broadcasting thread has no end (\<open>Server_Threads\<close>), so that the \<open>pthread_join\<close> for it does not come back; what
  follows is the code after it, should it do so.\<close>

definition run_server ::
    "kernel \<Rightarrow> (nat \<Rightarrow> schedule) \<Rightarrow> (16 word \<Rightarrow> 16 word) \<Rightarrow> (process, int option) prog" where
  "run_server k sched htons = bindM (server_setup k htons) (\<lambda>srv.
     bindM (accept_loop k sched srv N_FACES 0) (\<lambda>r. case r of
       None \<Rightarrow> returnM None
     | Some u \<Rightarrow> thenM (os_ignore k (Pthread_Join ''server_thread_wait_and_broadcast''))
        (thenM (free_echo_server k srv) (returnM (Some 0)))))"

section \<open>What the server's own threads do around their loops\<close>

definition server_thread_listen_to_pipe_start ::
    "kernel \<Rightarrow> server_thread_listen_to_pipe_args \<Rightarrow> (process, int) prog" where
  "server_thread_listen_to_pipe_start k thread_args =
     bindM (liftM (idx (client_pipes (thread_server thread_args)) (int (thread_client_id thread_args)))) (\<lambda>p.
     let fd = fst (fst p) in
     thenM (say (''Server thread listen to pipe: listening to file descriptor '' @ show_int fd @
       '' because client_id is '' @ show_nat (thread_client_id thread_args) @ [newline]))
    (thenM (os_pointer k (Fdopen fd ''r'') ''Client facing thread listen to pipe: failed to open pipe file'')
    (thenM (os_pointer k (Malloc ''line'') ''Malloc failed for reading line from pipe.'')
    (returnM fd))))"

definition server_thread_listen_to_pipe_end :: "kernel \<Rightarrow> int \<Rightarrow> (process, unit) prog" where
  "server_thread_listen_to_pipe_end k fd =
     thenM (os_zero k (Fclose fd) ''Failed to close file.'') (os_ignore k (Free ''line''))"

definition server_thread_wait_and_broadcast_start :: "kernel \<Rightarrow> server_object \<Rightarrow> (process, unit) prog" where
  "server_thread_wait_and_broadcast_start k srv =
     for_each [0..<N_FACES] (\<lambda>client_id.
       bindM (liftM (idx (client_pipes srv) (int client_id))) (\<lambda>p.
       os_pointer k (Fdopen (snd (snd p)) ''we'') ''Broadcast message: failed to open pipe.''))"

section \<open>The descriptors of the server\<close>

fun pipe_fds :: "(int \<times> int) \<times> int \<times> int \<Rightarrow> int list" where
  "pipe_fds ((a, b), (c, d)) = [a, b, c, d]"

definition server_fds :: "server_object \<Rightarrow> int list" where
  "server_fds srv = listener_socket srv # concat (map pipe_fds (client_pipes srv))"

lemma make_client_pipes_roe:
  assumes k: "posix k" and h: "holding S (xs @ concat (map pipe_fds pipes)) p"
  shows "returns_or_exits (make_client_pipes k i pipes) p (\<lambda>pipes' p'. length pipes' = Suc (length pipes) \<and>
    holding S (xs @ concat (map pipe_fds pipes')) p' \<and>
    cube_in (process_mem p') c V = cube_in (process_mem p) c V)"
proof -
  have app: "xs @ concat (map pipe_fds (pipes @ [(a, b)])) =
      ((xs @ concat (map pipe_fds pipes)) @ [fst a, snd a]) @ [fst b, snd b]" for a b
    by (cases a; cases b) simp
  show ?thesis
    unfolding make_client_pipes_def roe app
    using holding_pipe [OF k holding_pipe [OF k h]] by simp
qed

lemma make_echo_server_roe:
  assumes k: "posix k" and m: "ret (k (calls p) (Malloc ''echo_server'')) \<noteq> 0"
  shows "returns_or_exits (make_echo_server k ip backlog c) p (\<lambda>srv p'. length (client_pipes srv) = N_FACES \<and>
    cube_object srv = c \<and> addr srv = ip \<and> holding (fds_of p) (server_fds srv) p' \<and>
    cube_in (process_mem p') c V = cube_in (process_mem p) c V)"
proof -
  let ?p1 = "after_call k (Malloc ''echo_server'') p"
  let ?p2 = "after_call k Socket ?p1" and ?fd = "ret (k (calls ?p1) Socket)"
  let ?I = "\<lambda>n pipes p'. length pipes = n \<and> holding (fds_of p) ([?fd] @ concat (map pipe_fds pipes)) p' \<and>
    cube_in (process_mem p') c V = cube_in (process_mem p) c V"
  have loop: "returns_or_exits (for_fold [0..<N_FACES] (make_client_pipes k) []) ?p2 (?I N_FACES)"
    if "?fd \<noteq> - 1"
  proof (rule roe_for_fold [where I = ?I])
    have "holding (fds_of p) [] ?p1" by (intro holding_call holding_start) simp
    from holding_socket [OF k this that] show "?I 0 [] ?p2" by simp
    fix n pipes q assume I: "?I n pipes q"
    then show "returns_or_exits (make_client_pipes k n pipes) q (?I (Suc n))"
      by (intro roe_mono [OF make_client_pipes_roe [OF k, of "fds_of p" "[?fd]", where c = c and V = V]]) auto
  qed
  show ?thesis
    unfolding make_echo_server_def open_tcp_socket_def roe server_fds_def
    by (simp only: m if_False roe) (rule impI, rule roe_mono [OF loop], assumption, simp)
qed

lemma close_client_pipes_wp:
  assumes k: "posix k" and h: "holding S (xs @ pipe_fds pp @ ys) p" and n: "i < length (client_pipes srv)"
    and pp: "client_pipes srv ! i = pp"
  shows "runs_to (close_client_pipes k srv i) p (\<lambda>_ p'. holding S (xs @ ys) p' \<and> process_mem p' = process_mem p)"
proof -
  obtain a b c d where q: "pp = ((a, b), (c, d))" by (cases pp) (metis surj_pair)
  let ?p1 = "after_call k (Close a) p" let ?p2 = "after_call k (Close b) ?p1"
  let ?p3 = "after_call k (Close c) ?p2" let ?p4 = "after_call k (Close d) ?p3"
  have dist: "distinct (xs @ [a, b, c, d] @ ys)" using h by (simp add: holding_def q)
  have "holding S (xs @ [b, c, d] @ ys) ?p1"
    using holding_close(2) [OF k h, of a] dist by (simp add: q remove1_append)
  from holding_close(2) [OF k this, of b] have "holding S (xs @ [c, d] @ ys) ?p2"
    using dist by (simp add: remove1_append)
  from holding_close(2) [OF k this, of c] have "holding S (xs @ [d] @ ys) ?p3"
    using dist by (simp add: remove1_append)
  from holding_close(2) [OF k this, of d] have "holding S (xs @ ys) ?p4"
    using dist by (simp add: remove1_append)
  then show ?thesis
    using n by (simp add: close_client_pipes_def wp pp q)
qed

lemma free_echo_server_wp:
  assumes k: "posix k" and h: "holding S (server_fds srv) p" and len: "length (client_pipes srv) = N_FACES"
    and c: "cube_heap (process_mem p) (cube_object srv) \<noteq> None"
  shows "runs_to (free_echo_server k srv) p (\<lambda>_ p'. fds_of p' = S)"
proof -
  let ?l = "listener_socket srv"
  let ?I = "\<lambda>n p'. holding S ([?l] @ concat (map pipe_fds (drop n (client_pipes srv)))) p' \<and>
    process_mem p' = process_mem p"
  have loop: "runs_to (for_each [0..<N_FACES] (close_client_pipes k srv)) p (\<lambda>_. ?I N_FACES)"
  proof (rule runs_to_for [where I = ?I])
    show "?I 0 p" using h by (simp add: server_fds_def)
    fix n q assume n: "n < N_FACES" and I: "?I n q"
    have "drop n (client_pipes srv) = client_pipes srv ! n # drop (Suc n) (client_pipes srv)"
      using n len by (simp add: Cons_nth_drop_Suc)
    then have "holding S ([?l] @ pipe_fds (client_pipes srv ! n) @
        concat (map pipe_fds (drop (Suc n) (client_pipes srv)))) q" using I by simp
    from close_client_pipes_wp [OF k this _ refl] n len I
    show "runs_to (close_client_pipes k srv n) q (\<lambda>_. ?I (Suc n))"
      by (auto elim!: runs_to_mono)
  qed
  have rest: "runs_to (thenM (close_tcp_socket k ?l)
      (thenM (on_process (free cube_heap cube_heap_update (cube_object srv)))
      (thenM (os_ignore k (Free ''global_cube_state_lock''))
      (thenM (os_ignore k (Free ''broadcast_message_ready''))
      (os_ignore k (Free ''echo_server'')))))) q (\<lambda>_ p'. fds_of p' = S)" if I: "?I N_FACES q" for q
  proof -
    have "holding S [?l] q" and m: "process_mem q = process_mem p" using I len by simp_all
    from holding_close [OF k this(1), of ?l] have "ret (k (calls q) (Close ?l)) = 0"
      and "holding S [] (after_call k (Close ?l) q)" by simp_all
    then have "fds_of (after_call k (Close ?l) q) = S" by (simp add: holding_def)
    then show ?thesis
      using c m \<open>ret (k (calls q) (Close ?l)) = 0\<close> by (simp add: close_tcp_socket_def wp heap_wp)
  qed
  show ?thesis
    unfolding free_echo_server_def using loop rest by (rule runs_to_thenI)
qed

text \<open>What each of the two processes holds after a client has been accepted: besides the ends it needs,
  both keep all the other pipes, and the parent keeps the socket of the client.\<close>

lemma fds_close: "posix k \<Longrightarrow> fds_of (after_call k (Close fd) p) = fds_of p - {fd}"
  using posixD(4) [of k "calls p" fd] by (auto simp: fds_of_def [symmetric])

lemma client_threads:
  fixes k ch
  defines "F \<equiv> {socket_descriptor ch, pipe_receiving_end ch, pipe_transmitting_end ch}"
  shows "list_all (thread_step k F) (client_facing_thread_listen_to_pipe k ch)"
    and "list_all (thread_step k F) (client_facing_thread_listen_to_socket k ch)"
    and "list_all (thread_step k {}) (take 5 (client_facing_thread_listen_to_pipe k ch))"
    and "list_all (thread_step k {}) (take 5 (client_facing_thread_listen_to_socket k ch))"
  by (simp_all add: client_facing_thread_listen_to_pipe_def client_facing_thread_listen_to_socket_def
    pipe_thread_start_def pipe_thread_end_def socket_thread_start_def socket_thread_end_def F_def)

lemma client_threads_length:
  "length (client_facing_thread_listen_to_pipe k ch) = 9" "length (client_facing_thread_listen_to_socket k ch) = 8"
  by (simp_all add: client_facing_thread_listen_to_pipe_def client_facing_thread_listen_to_socket_def
    pipe_thread_start_def pipe_thread_end_def socket_thread_start_def socket_thread_end_def)

lemma client_threads_close:
  "os_zero k (Fclose (socket_descriptor ch)) ''Failed to close file.'' \<in> set (client_facing_thread_listen_to_pipe k ch)"
  "os_zero k (Fclose (socket_descriptor ch)) ''Failed to close file.'' \<in> set (client_facing_thread_listen_to_socket k ch)"
  by (simp_all add: client_facing_thread_listen_to_pipe_def client_facing_thread_listen_to_socket_def
    pipe_thread_end_def socket_thread_end_def)

text \<open>Whatever the two threads do and in whatever order, \<open>I\<close> is kept if their calls keep it one by one; and never have both ended,
  because the one that is the second to close the socket ends the process. A schedule within the calls before
  the loops closes nothing.\<close>

lemma client_facing_process_roe:
  assumes k: "posix k" and i: "i < length (client_pipes srv)"
    and pp: "client_pipes srv ! i = ((cr, cw), (sr, sw))"
    and start: "I (after_call k (Close sw) (after_call k (Close cr) p))"
    and mem: "\<And>p h. I p \<Longrightarrow> I (p\<lparr>process_mem := h\<rparr>)"
    and call: "\<And>p c. I p \<Longrightarrow> thread_call c \<or> (\<exists>t. c = Pthread_Create t \<or> c = Pthread_Join t) \<Longrightarrow> I (after_call k c p)"
    and close: "\<And>p fd. I p \<Longrightarrow> fd \<in> {sd, sr, cw} \<Longrightarrow> \<not> stays_within s 5 5 \<Longrightarrow> fd \<in> fds_of p \<Longrightarrow> I (after_call k (Fclose fd) p)"
  shows "returns_or_exits (client_facing_process k s sd srv i) p (\<lambda>r p'. r = None \<and> \<not> runs_out s 9 8 \<and> I p')"
proof -
  let ?ch = "\<lparr>socket_descriptor = sd, pipe_receiving_end = sr, pipe_transmitting_end = cw\<rparr>"
  let ?A = "client_facing_thread_listen_to_pipe k ?ch" and ?B = "client_facing_thread_listen_to_socket k ?ch"
  let ?F = "{sd, sr, cw}" let ?c = "os_zero k (Fclose sd) ''Failed to close file.''"
  let ?G = "\<lambda>p. sd \<notin> fds_of p" and ?e = "early s" and ?bs = "order s"
  define part where "part = stays_within s 5 5"
  define a where "a = (if part then 5 else 9 :: nat)"
  define b where "b = (if part then 5 else 8 :: nat)"
  have len: "length ?A = 9" "length ?B = 8" by (rule client_threads_length)+
  have le: "?e \<le> a \<or> length ?A \<le> a" "?e + count_list ?bs True \<le> a \<or> length ?A \<le> a"
    "count_list ?bs False \<le> b \<or> length ?B \<le> b"
    unfolding len by (auto simp: part_def a_def b_def stays_within_def)
  have kind: "thread_step k (if part then {} else ?F) x" if "x \<in> set (take a ?A) \<union> set (take b ?B)" for x
    using that client_threads [of k ?ch] len by (auto simp: a_def b_def list_all_iff split: if_splits)
  have step: "returns_or_exits x q (\<lambda>_. I)" if x: "x \<in> set (take a ?A) \<union> set (take b ?B)" and q: "I q" for x q
  proof (rule thread_step_roe [where I = I, OF kind [OF x] q])
    fix fd assume fd: "fd \<in> (if part then {} else ?F)" "ret (k (calls q) (Fclose fd)) = 0"
    then have "fd \<in> fds_of q" using posixD(5) [OF k, of "calls q" fd] by (auto simp: fds_of_def split: if_splits)
    with fd show "I (after_call k (Fclose fd) q)"
      by (intro close [OF q]) (simp_all add: part_def split: if_splits)
  qed (rule mem [OF q], rule call [OF q], simp)
  have once: "only_once ?c ?G (set ?A \<union> set ?B)"
    using client_threads(1,2) [of k ?ch] by (intro fclose_once [OF k, where F = ?F]) (auto simp: list_all_iff)
  have first: "returns_or_exits (steps (take ?e ?A)) q (\<lambda>_ q'. I q' \<and> (?G q' \<or> ?c \<in> set (drop ?e ?A)))" if q: "I q" for q
  proof (rule roe_conj)
    show "returns_or_exits (steps (take ?e ?A)) q (\<lambda>_. I)"
      by (rule steps_part [where I = I, OF step le(1) q]) (simp_all)
    show "returns_or_exits (steps (take ?e ?A)) q (\<lambda>_ q'. ?G q' \<or> ?c \<in> set (drop ?e ?A))"
      using client_threads_close [of k ?ch] by (intro steps_twice [OF once]) simp_all
  qed
  have second: "returns_or_exits (interleave ?bs (drop ?e ?A) ?B) q
      (\<lambda>r q'. (I q' \<and> r = (length ?A - ?e - count_list ?bs True, length ?B - count_list ?bs False)) \<and> r \<noteq> (0, 0))"
    if q: "I q" and G: "?G q \<or> ?c \<in> set (drop ?e ?A)" for q
  proof (rule roe_conj)
    show "returns_or_exits (interleave ?bs (drop ?e ?A) ?B) q (\<lambda>r q'. I q' \<and>
        r = (length ?A - ?e - count_list ?bs True, length ?B - count_list ?bs False))"
      by (rule interleave_part [where I = I, OF step le(2,3) q])
    show "returns_or_exits (interleave ?bs (drop ?e ?A) ?B) q (\<lambda>r q'. r \<noteq> (0, 0))"
      using client_threads_close [of k ?ch] G set_drop_subset [of ?e ?A] by (intro interleave_twice [OF once]) auto
  qed
  have out: "runs_out s 9 8 \<longleftrightarrow> length ?A - ?e - count_list ?bs True = 0 \<and> length ?B - count_list ?bs False = 0"
    unfolding len by (auto simp: runs_out_def)
  have other: "I (after_call k (Malloc t) q)" "I (after_call k (Pthread_Create t) q)"
    "I (after_call k (Pthread_Join t) q)" if "I q" for q t
    using call [OF that] by simp_all
  have third: "returns_or_exits (interleave ?bs (drop ?e ?A) ?B) (after_call k (Pthread_Create t) (q\<lparr>process_mem := h\<rparr>))
      (\<lambda>r q'. (I q' \<and> r = (length ?A - ?e - count_list ?bs True, length ?B - count_list ?bs False)) \<and> r \<noteq> (0, 0))"
    if "I q \<and> (?G q \<or> ?c \<in> set (drop ?e ?A))" for q t h
    using that by (intro second other mem) (auto simp: fds_same simp del: fds_call)
  show ?thesis
    using i unfolding client_facing_process_def make_client_facing_thread_channels_def
    by (simp only: roe pp fst_conv snd_conv idx_nat)
      (intro impI roe_mono [OF first] other mem start, rule roe_mono [OF third], assumption,
        auto simp: roe out free_client_facing_thread_channels_def other)
qed

text \<open>Set-up leaves the state the threads of \<open>Server_Threads\<close> start from: a solved cube, and the
  descriptors of the server object and no others.\<close>

lemma server_setup_roe:
  assumes k: "posix k" and m: "\<And>cs. ret (k cs (Malloc ''echo_server'')) \<noteq> 0"
    and p: "wf_mem (process_mem p)" "31 \<le> quota (process_mem p)"
  shows "returns_or_exits (server_setup k htons) p (\<lambda>srv p'. length (client_pipes srv) = N_FACES \<and>
    addr srv = socket_address htons 0 PORT \<and>
    holding (fds_of p) (server_fds srv) p' \<and> cube_in (process_mem p') (cube_object srv) solved_val)"
proof -
  have "returns_or_exits make_cube (process_mem p) (\<lambda>c h. cube_in h c solved_val)"
    using lib.make_law [OF p] by (intro roe_runs_to) (auto elim!: runs_to_mono)
  then show ?thesis
    unfolding server_setup_def Let_def roe
  proof (rule roe_mono)
    fix c h assume c: "cube_in h c solved_val"
    let ?q = "after_call k (Malloc ''broadcast_message_ready'')
      (after_call k (Malloc ''global_cube_state_lock'') (p\<lparr>process_mem := h\<rparr>))"
    have q: "fds_of ?q = fds_of p" "process_mem ?q = h" by (simp_all add: fds_same del: fds_call)
    have mk: "returns_or_exits (make_echo_server k (socket_address htons 0 PORT) BACKLOG_SIZE c) ?q
        (\<lambda>srv p'. length (client_pipes srv) = N_FACES \<and> cube_object srv = c \<and>
          addr srv = socket_address htons 0 PORT \<and> holding (fds_of p) (server_fds srv) p' \<and>
          cube_in (process_mem p') c solved_val)"
      using make_echo_server_roe [OF k m, where p = ?q and c = c and V = solved_val] c
      unfolding q by simp
    show "ret (k (calls (p\<lparr>process_mem := h\<rparr>)) (Malloc ''global_cube_state_lock'')) \<noteq> 0 \<longrightarrow>
      ret (k (calls (after_call k (Malloc ''global_cube_state_lock'') (p\<lparr>process_mem := h\<rparr>)))
        (Malloc ''broadcast_message_ready'')) \<noteq> 0 \<longrightarrow>
      returns_or_exits (make_echo_server k (socket_address htons 0 PORT) BACKLOG_SIZE c) ?q
        (\<lambda>srv p'. ret (k (calls p') (Pthread_Create ''server_thread_wait_and_broadcast'')) = 0 \<longrightarrow>
          returns_or_exits (listen_for_connections k srv)
            (after_call k (Pthread_Create ''server_thread_wait_and_broadcast'') p')
            (\<lambda>x p'. length (client_pipes srv) = N_FACES \<and> addr srv = socket_address htons 0 PORT \<and>
              holding (fds_of p) (server_fds srv) p' \<and> cube_in (process_mem p') (cube_object srv) solved_val))"
      by (intro impI roe_mono [OF mk]) (simp add: listen_for_connections_def roe holding_call)
  qed
qed

text \<open>The connections a process has accepted, and the calls of \<open>fork\<close> that returned in it as the child.\<close>

definition accepts :: "process \<Rightarrow> nat" where
  "accepts p = length (filter (\<lambda>c. case fst c of Accept4 fd \<Rightarrow> True | _ \<Rightarrow> False) (calls p))"

definition children :: "process \<Rightarrow> nat" where
  "children p = length (filter (\<lambda>c. fst c = Fork \<and> ret (snd c) = 0) (calls p))"

lemma accepts_call [simp]:
  "accepts (after_call k c p) = accepts p + (case c of Accept4 fd \<Rightarrow> 1 | _ \<Rightarrow> 0)"
  by (simp add: accepts_def after_call_def split: os_call.split)

lemma accepts_mem [simp]: "accepts (p\<lparr>process_mem := h\<rparr>) = accepts p"
  by (simp add: accepts_def)

lemma children_call [simp]:
  "children (after_call k c p) = children p + (if c = Fork \<and> ret (k (calls p) c) = 0 then 1 else 0)"
  by (auto simp: children_def after_call_def)

lemma children_mem [simp]: "children (p\<lparr>process_mem := h\<rparr>) = children p"
  by (simp add: children_def)

lemma accept_client_counts:
  assumes k: "posix k" and i: "i < length (client_pipes srv)"
  shows "returns_or_exits (accept_client k s srv i) p (\<lambda>r p'. accepts p' = Suc (accepts p) \<and>
    (case r of None \<Rightarrow> children p' = Suc (children p) \<and> \<not> runs_out s 9 8
     | Some status \<Rightarrow> status = 0 \<and> children p' = children p))"
proof -
  obtain cr cw sr sw where pp: "client_pipes srv ! i = ((cr, cw), (sr, sw))" by (metis surj_pair)
  let ?p1 = "after_call k (Accept4 (listener_socket srv)) p"
  show ?thesis
  proof (cases "ret (k (calls ?p1) Fork) = 0")
    case True
    let ?I = "\<lambda>q. accepts q = Suc (accepts p) \<and> children q = Suc (children p)"
    have child: "returns_or_exits (client_facing_process k s sd srv i) (after_call k Fork ?p1)
        (\<lambda>r p'. r = None \<and> \<not> runs_out s 9 8 \<and> ?I p')" for sd
    proof (rule client_facing_process_roe [OF k i pp])
      show "?I (after_call k (Close sw) (after_call k (Close cr) (after_call k Fork ?p1)))" by (simp add: True)
      show "?I (after_call k c q)" if "?I q" "thread_call c \<or> (\<exists>t. c = Pthread_Create t \<or> c = Pthread_Join t)" for q c
        using that by (cases c) auto
    qed simp_all
    show ?thesis
      unfolding accept_client_def roe by (simp only: True if_True refl roe) (intro impI roe_mono [OF child], simp)
  next
    case False
    then show ?thesis
      unfolding accept_client_def make_server_thread_listen_to_pipe_args_def using i by (simp add: roe)
  qed
qed

text \<open>Who comes out of the accept loop is the server; a client-facing process stays in the round in which it was made.\<close>

lemma accept_loop_counts:
  assumes k: "posix k" and len: "length (client_pipes srv) = N_FACES" and n: "n \<le> N_FACES"
  shows "returns_or_exits (accept_loop k sched srv n 0) p (\<lambda>r p'. case r of
      Some u \<Rightarrow> accepts p' = accepts p + n \<and> children p' = children p
    | None \<Rightarrow> children p' = Suc (children p) \<and>
        (\<exists>j<n. accepts p' = accepts p + Suc j \<and> \<not> runs_out (sched (N_FACES - n + j)) 9 8))"
  using n
proof (induction n arbitrary: p)
  case (Suc n)
  let ?i = "N_FACES - Suc n"
  have i: "?i < length (client_pipes srv)" "N_FACES - n = Suc ?i" using Suc.prems len by simp_all
  show ?case
    unfolding accept_loop.simps roe_bind if_not_P [OF zero_neq_neg_one]
  proof (rule roe_mono [OF accept_client_counts [OF k i(1), where p = p]])
    fix r :: "int option" and p1
    assume r: "accepts p1 = Suc (accepts p) \<and> (case r of None \<Rightarrow> children p1 = Suc (children p) \<and> \<not> runs_out (sched ?i) 9 8
      | Some status \<Rightarrow> status = 0 \<and> children p1 = children p)"
    show "returns_or_exits (case r of None \<Rightarrow> returnM None | Some status \<Rightarrow> accept_loop k sched srv n status) p1
       (\<lambda>r p'. case r of Some u \<Rightarrow> accepts p' = accepts p + Suc n \<and> children p' = children p
        | None \<Rightarrow> children p' = Suc (children p) \<and>
            (\<exists>j<Suc n. accepts p' = accepts p + Suc j \<and> \<not> runs_out (sched (?i + j)) 9 8))"
    proof (cases r)
      case None
      then show ?thesis using r by (auto simp: roe)
    next
      case (Some status)
      then have "status = 0" using r by simp
      have "returns_or_exits (accept_loop k sched srv n 0) p1 (\<lambda>r p'. case r of
          Some u \<Rightarrow> accepts p' = accepts p1 + n \<and> children p' = children p1
        | None \<Rightarrow> children p' = Suc (children p1) \<and>
            (\<exists>j<n. accepts p' = accepts p1 + Suc j \<and> \<not> runs_out (sched (N_FACES - n + j)) 9 8))"
        using Suc by simp
      then show ?thesis
        unfolding Some option.case \<open>status = 0\<close>
      proof (rule roe_mono)
        fix r' p2
        assume "case r' of Some u \<Rightarrow> accepts p2 = accepts p1 + n \<and> children p2 = children p1
          | None \<Rightarrow> children p2 = Suc (children p1) \<and>
            (\<exists>j<n. accepts p2 = accepts p1 + Suc j \<and> \<not> runs_out (sched (N_FACES - n + j)) 9 8)"
        then show "case r' of Some u \<Rightarrow> accepts p2 = accepts p + Suc n \<and> children p2 = children p
          | None \<Rightarrow> children p2 = Suc (children p) \<and>
            (\<exists>j<Suc n. accepts p2 = accepts p + Suc j \<and> \<not> runs_out (sched (?i + j)) 9 8)"
        proof (cases r')
          case None
          assume "case r' of Some u \<Rightarrow> accepts p2 = accepts p1 + n \<and> children p2 = children p1
            | None \<Rightarrow> children p2 = Suc (children p1) \<and>
              (\<exists>j<n. accepts p2 = accepts p1 + Suc j \<and> \<not> runs_out (sched (N_FACES - n + j)) 9 8)"
          then obtain j where "j < n" "accepts p2 = accepts p1 + Suc j" "\<not> runs_out (sched (?i + Suc j)) 9 8"
            "children p2 = Suc (children p1)" unfolding None i(2) by auto
          then show ?thesis using r Some None by (auto intro!: exI [of _ "Suc j"])
        qed (use r Some in simp)
      qed
    qed
  qed
qed (simp add: roe)

text \<open>The first of the two threads to end closes the socket, the second one cannot.\<close>

lemma fclose_eq:
  assumes k: "posix k"
  shows "os_zero k (Fclose fd) msg p = (if fd \<in> fds_of p then Inr ((), after_call k (Fclose fd) p)
      else Inl (Exit_Failure msg))"
    and "fds_of (after_call k (Fclose fd) p) = fds_of p - {fd}"
  using posixD(5) [OF k, of "calls p" fd]
  by (auto simp: os_zero_def os_def prog_simps error_and_exit_def fds_of_def [symmetric])

lemma say_eq: "say s p = Inr ((), p\<lparr>process_mem := printed s (process_mem p)\<rparr>)"
  by (simp add: say_def on_process_def print_def printed_def prog_simps)

lemma os_ignore_eq: "os_ignore k c p = Inr ((), after_call k c p)"
  by (simp add: os_ignore_def os_def prog_simps)

section \<open>With a kernel that has everything\<close>

lemma setup_quiet:
  assumes k: "obliging k"
  shows "quiet (make_echo_server k ip b c)" and "quiet (listen_for_connections k srv)"
  unfolding make_echo_server_def make_client_pipes_def open_tcp_socket_def listen_for_connections_def
  by (intro quiet_intro obligingD [OF k])+

lemma server_setup_never_exits:
  assumes k: "obliging k" and p: "wf_mem (process_mem p)" "31 \<le> quota (process_mem p)"
  shows "never_exits (server_setup k htons) p"
proof -
  have "runs_to (on_process make_cube) p (\<lambda>_ _. True)"
    unfolding runs_to_on_process using lib.make_law [OF p] by (rule runs_to_mono) simp
  then show ?thesis
    unfolding server_setup_def Let_def
    by (intro never_exits_bind runs_to_never_exits quiet_intro setup_quiet [OF k] obligingD [OF k])
qed

lemma accept_loop_returns:
  assumes k: "obliging k" and f: "\<And>cs. ret (k cs Fork) \<noteq> 0" and len: "length (client_pipes srv) = N_FACES"
    and n: "n \<le> N_FACES"
  shows "runs_to (accept_loop k sched srv n 0) p (\<lambda>r p'. r = Some ())"
  using n
proof (induction n arbitrary: p)
  case (Suc n)
  have "N_FACES - Suc n < length (client_pipes srv)" using Suc.prems len by simp
  then have "runs_to (accept_client k s srv (N_FACES - Suc n)) p (\<lambda>r p'. r = Some 0)" for s
    unfolding accept_client_def wp using obligingD [OF k] f
    by (simp add:  make_server_thread_listen_to_pipe_args_def os_pointer_def os_zero_def wp) (metis surj_pair)
  then show ?case
    unfolding accept_loop.simps runs_to_bind if_not_P [OF zero_neq_neg_one]
    by (rule runs_to_mono) (use Suc in simp)
qed simp

text \<open>A schedule in which the threads have not done anything yet.\<close>

lemma accept_client_quiet:
  assumes k: "obliging k"
  shows "quiet (accept_client k \<lparr>early = 0, order = []\<rparr> srv i)"
  unfolding accept_client_def client_facing_process_def make_client_facing_thread_channels_def
    free_client_facing_thread_channels_def make_server_thread_listen_to_pipe_args_def
    schedule.simps take_0 drop_0 steps.simps interleave.simps
  by (intro quiet_intro obligingD [OF k])

end
