(* ===== verification/Pipe_Ends.thy ===== *)
theory Pipe_Ends
  imports Server_Setup
begin

text \<open>
  Which process holds which end of which pipe, once the accept loop of \<open>src/server/run_server.c\<close> has
  forked the client-facing processes. The number of a descriptor that has been closed is used
  again, for the socket of the next client, so the ends are followed as files: a file is
  known by the call that opened it. The result is what \<open>no_writer\<close> and \<open>no_reader\<close> of \<open>System\<close> say.
\<close>

section \<open>Files\<close>

text \<open>The number of the call in the record, and for \<open>pipe2\<close> which of the two ends.\<close>

type_synonym open_file = "nat \<times> bool"

fun files_after :: "nat \<Rightarrow> (int \<rightharpoonup> open_file) \<Rightarrow> os_call \<times> reply \<Rightarrow> (int \<rightharpoonup> open_file)" where
  "files_after n f (Socket, r) = (if ret r = - 1 then f else f(ret r \<mapsto> (n, False)))"
| "files_after n f (Accept4 fd, r) = (if ret r = - 1 then f else f(ret r \<mapsto> (n, False)))"
| "files_after n f (Pipe2, r) = (if ret r = - 1 then f else f(snd (ends r) \<mapsto> (n, True), fst (ends r) \<mapsto> (n, False)))"
| "files_after n f (Close fd, r) = (if ret r = - 1 then f else f(fd := None))"
| "files_after n f (Fclose fd, r) = (if ret r \<noteq> 0 then f else f(fd := None))"
| "files_after n f (c, r) = f"

definition open_files :: "record_of_calls \<Rightarrow> (int \<rightharpoonup> open_file)" where
  "open_files cs = fst (foldl (\<lambda>(f, n) c. (files_after n f c, Suc n)) (Map.empty, 0) cs)"

definition files_of :: "process \<Rightarrow> (int \<rightharpoonup> open_file)" where
  "files_of p = open_files (calls p)"

lemma open_files_Nil: "open_files [] = Map.empty"
  by (simp add: open_files_def)

lemma open_files_snoc: "open_files (cs @ [c]) = files_after (length cs) (open_files cs) c"
proof -
  let ?g = "\<lambda>(f, n) c. (files_after n f c, Suc n)"
  have "snd (foldl ?g (f, n) cs) = n + length cs" for f n
    by (induction cs arbitrary: f n) simp_all
  then show ?thesis by (simp add: open_files_def split_def)
qed

lemma files_mem [simp]: "files_of (p\<lparr>process_mem := h\<rparr>) = files_of p"
  by (simp add: files_of_def)

lemma files_call [simp]:
  "files_of (after_call k c p) = files_after (length (calls p)) (files_of p) (c, k (calls p) c)"
  by (simp add: files_of_def open_files_snoc after_call_def)

lemma open_files_dom: "dom (open_files cs) = open_fds cs"
proof (induction cs rule: rev_induct)
  case (snoc c cs)
  have "dom (files_after n f c) = fds_after (dom f) c" for n f
    by (cases "(dom f, c)" rule: fds_after.cases) auto
  then show ?case using snoc by (simp add: open_files_snoc open_fds_snoc)
qed (simp add: open_files_Nil open_fds_def)

lemma open_files_old: "open_files cs fd = Some x \<Longrightarrow> fst x < length cs"
proof (induction cs arbitrary: fd x rule: rev_induct)
  case (snoc c cs)
  have "open_files cs fd = Some x \<or> fst x = length cs"
    using snoc.prems by (cases "(length cs, open_files cs, c)" rule: files_after.cases)
      (auto simp: open_files_snoc split: if_splits)
  then show ?case using snoc.IH by fastforce
qed (simp add: open_files_Nil)

lemma open_files_inj: "open_files cs a = Some x \<Longrightarrow> open_files cs b = Some x \<Longrightarrow> a = b"
proof (induction cs arbitrary: a b x rule: rev_induct)
  case (snoc c cs)
  have old: "open_files cs fd \<noteq> Some (length cs, e)" for fd e using open_files_old by fastforce
  show ?case
    using snoc old by (cases "(length cs, open_files cs, c)" rule: files_after.cases)
      (auto simp: open_files_snoc split: if_splits)
qed (simp add: open_files_Nil)

section \<open>What is left of the files of an earlier moment\<close>

text \<open>Of the files \<open>q\<close> had open, \<open>p\<close> has those open that had no number in \<open>D\<close>, under the same numbers.\<close>

definition keeps_files :: "process \<Rightarrow> int set \<Rightarrow> process \<Rightarrow> bool" where
  "keeps_files q D p \<longleftrightarrow> length (calls q) \<le> length (calls p) \<and>
     (\<forall>fd x. fst x < length (calls q) \<longrightarrow>
        (files_of p fd = Some x \<longleftrightarrow> files_of q fd = Some x \<and> fd \<notin> D))"

lemma keeps_files_start: "keeps_files p {} p"
  by (simp add: keeps_files_def)

lemma keeps_filesD:
  "keeps_files q D p \<Longrightarrow> fst x < length (calls q) \<Longrightarrow>
    files_of p fd = Some x \<longleftrightarrow> files_of q fd = Some x \<and> fd \<notin> D"
  unfolding keeps_files_def by blast

lemma keeps_files_mem [simp]: "keeps_files q D (p\<lparr>process_mem := h\<rparr>) \<longleftrightarrow> keeps_files q D p"
  by (simp add: keeps_files_def)

lemma length_after_call [simp]: "length (calls (after_call k c p)) = Suc (length (calls p))"
  by (simp add: after_call_def)

lemma keeps_files_same:
  "keeps_files q D p \<Longrightarrow> files_of (after_call k c p) = files_of p \<Longrightarrow> keeps_files q D (after_call k c p)"
  unfolding keeps_files_def by (metis length_after_call le_SucI)

lemma keeps_files_accept:
  assumes k: "posix k" and h: "keeps_files q D p"
  shows "keeps_files q D (after_call k (Accept4 fd) p)"
proof (cases "ret (k (calls p) (Accept4 fd)) = - 1")
  case True
  then show ?thesis by (intro keeps_files_same [OF h]) simp
next
  case False
  let ?n = "ret (k (calls p) (Accept4 fd))"
  have "?n \<notin> dom (files_of p)"
    using posixD(2) [OF k False] by (simp add: files_of_def open_files_dom)
  then have "files_of p ?n = None" by blast
  then have "\<not> (files_of q ?n = Some x \<and> ?n \<notin> D)" if "fst x < length (calls q)" for x
    using keeps_filesD [OF h that, of ?n] by simp
  then show ?thesis using h False unfolding keeps_files_def by (auto simp: le_SucI)
qed

lemma keeps_files_close:
  assumes k: "posix k" and h: "keeps_files q D p"
  shows "keeps_files q (insert fd D) (after_call k (Close fd) p)"
proof -
  have "files_of (after_call k (Close fd) p) = (files_of p)(fd := None)"
    using posixD(4) [OF k, of "calls p" fd] open_files_dom [of "calls p"]
    by (auto simp: files_of_def [symmetric] fun_eq_iff split: if_splits)
  then show ?thesis using h unfolding keeps_files_def by (auto simp: le_SucI)
qed

lemma keeps_files_fclose:
  assumes k: "posix k" and h: "keeps_files q D p"
  shows "keeps_files q (insert fd D) (after_call k (Fclose fd) p)"
proof -
  have "files_of (after_call k (Fclose fd) p) = (files_of p)(fd := None)"
    using posixD(5) [OF k, of "calls p" fd] open_files_dom [of "calls p"]
    by (auto simp: files_of_def [symmetric] fun_eq_iff split: if_splits)
  then show ?thesis using h unfolding keeps_files_def by (auto simp: le_SucI)
qed

text \<open>A number that is free now belongs to none of the old files that are left.\<close>

lemma keeps_files_fresh:
  assumes h: "keeps_files q D p" and new: "fd \<notin> fds_of p"
  shows "keeps_files q (insert fd D) p' \<longleftrightarrow> keeps_files q D p'"
proof -
  have "fd \<notin> dom (files_of p)" using new by (simp add: fds_of_def files_of_def open_files_dom)
  then have "files_of p fd = None" by blast
  then have "\<not> (files_of q fd = Some x \<and> fd \<notin> D)" if "fst x < length (calls q)" for x
    using keeps_filesD [OF h that, of fd] by simp
  then show ?thesis unfolding keeps_files_def by blast
qed

definition held :: "process \<Rightarrow> open_file set" where
  "held p = ran (files_of p)"

lemma held_iff:
  assumes h: "keeps_files q D p" and x: "files_of q fd = Some x"
  shows "x \<in> held p \<longleftrightarrow> fd \<notin> D"
proof -
  have old: "fst x < length (calls q)" using open_files_old x by (simp add: files_of_def)
  have inj: "files_of q a = Some x \<Longrightarrow> a = fd" for a using open_files_inj x by (simp add: files_of_def)
  have "x \<in> held p \<longleftrightarrow> (\<exists>a. files_of p a = Some x)" by (simp add: held_def ran_def)
  also have "\<dots> \<longleftrightarrow> (\<exists>a. files_of q a = Some x \<and> a \<notin> D)" by (simp add: keeps_filesD [OF h old])
  also have "\<dots> \<longleftrightarrow> fd \<notin> D" using x inj by blast
  finally show ?thesis .
qed

section \<open>The accept loop\<close>

definition forks :: "record_of_calls \<Rightarrow> nat" where
  "forks cs = length (filter (\<lambda>c. fst c = Fork) cs)"

lemma forks_call [simp]: "forks (calls (after_call k c p)) = forks (calls p) + (if c = Fork then 1 else 0)"
  by (simp add: forks_def after_call_def)

text \<open>What becomes of the files when a client is accepted, in the child (whose \<open>fork\<close> returns 0) and in the parent.
  The child's threads close its own ends after their loops and no other old file.\<close>

lemma keeps_files_two:
  "posix k \<Longrightarrow> keeps_files q D p \<Longrightarrow>
    keeps_files q (D \<union> {a, b}) (after_call k (Close b) (after_call k (Close a) p))"
  using keeps_files_close [of k q "insert a D" "after_call k (Close a) p" b] keeps_files_close [of k q D p a]
  by (simp add: insert_commute)

lemma keeps_files_others:
  assumes "keeps_files q D p"
  shows "keeps_files q D (after_call k Fork p)" and "keeps_files q D (after_call k (Malloc t) p)"
    and "keeps_files q D (after_call k (Free t) p)" and "keeps_files q D (after_call k (Pthread_Create t) p)"
    and "keeps_files q D (after_call k (Pthread_Join t) p)" and "keeps_files q D (after_call k (Fdopen fd t) p)"
    and "keeps_files q D (after_call k (Curses t) p)"
  by (intro keeps_files_same [OF assms]; simp)+

definition own_ends :: "schedule \<Rightarrow> int \<Rightarrow> int \<Rightarrow> int set \<Rightarrow> bool" where
  "own_ends s cw sr X \<longleftrightarrow> X \<subseteq> {cw, sr} \<and> (stays_within s 5 5 \<longrightarrow> X = {})"

lemma child_files:
  assumes k: "posix k" and i: "i < length (client_pipes srv)" and pp: "client_pipes srv ! i = ((cr, cw), (sr, sw))"
    and old: "keeps_files q D p0" "sd \<notin> fds_of p0" and h: "keeps_files q D p"
  shows "returns_or_exits (client_facing_process k s sd srv i) p (\<lambda>r p'. r = None \<and>
    (\<exists>X. own_ends s cw sr X \<and> keeps_files q (D \<union> {cr, sw} \<union> X) p'))"
proof -
  let ?I = "\<lambda>p. \<exists>X. own_ends s cw sr X \<and> keeps_files q (D \<union> {cr, sw} \<union> X) p"
  have sd: "keeps_files q (D \<union> E) p'" if "keeps_files q (insert sd (D \<union> E)) p'" for E p'
  proof -
    have "keeps_files q (insert sd D \<union> E) p'" using that by simp
    moreover have "files_of q sd = Some x \<Longrightarrow> sd \<in> D" for x
    proof -
      assume x: "files_of q sd = Some x"
      then have "fst x < length (calls q)" using open_files_old by (simp add: files_of_def)
      moreover have "files_of p0 sd = None"
        using old(2) open_files_dom [of "calls p0"] by (auto simp: fds_of_def files_of_def)
      ultimately show "sd \<in> D" using keeps_filesD [OF old(1), of x sd] x by simp
    qed
    ultimately show ?thesis unfolding keeps_files_def by blast
  qed
  have "returns_or_exits (client_facing_process k s sd srv i) p (\<lambda>r p'. r = None \<and> \<not> runs_out s 9 8 \<and> ?I p')"
  proof (rule client_facing_process_roe [OF k i pp])
    show "?I (after_call k (Close sw) (after_call k (Close cr) p))"
      using keeps_files_two [OF k h] by (intro exI [of _ "{}"]) (simp add: own_ends_def)
    show "?I (after_call k c p)" if I: "?I p" and c: "thread_call c \<or> (\<exists>t. c = Pthread_Create t \<or> c = Pthread_Join t)" for p c
    proof -
      from I obtain X where X: "own_ends s cw sr X" "keeps_files q (D \<union> {cr, sw} \<union> X) p" by blast
      have "files_of (after_call k c p) = files_of p" using c by (cases c) auto
      from keeps_files_same [OF X(2) this] X(1) show ?thesis by blast
    qed
    show "?I (after_call k (Fclose fd) p)" if I: "?I p" and fd: "fd \<in> {sd, sr, cw}" "\<not> stays_within s 5 5" for p fd
    proof -
      from I obtain X where X: "own_ends s cw sr X" "keeps_files q (D \<union> {cr, sw} \<union> X) p" by blast
      note c = keeps_files_fclose [OF k X(2), of fd]
      show ?thesis
      proof (cases "fd = sd")
        case True
        have "keeps_files q (D \<union> ({cr, sw} \<union> X)) (after_call k (Fclose fd) p)"
          by (rule sd) (use c True in \<open>simp add: Un_assoc\<close>)
        then show ?thesis using X(1) by (auto simp: Un_assoc)
      next
        case False
        then show ?thesis using X(1) fd c by (intro exI [of _ "insert fd X"]) (auto simp: own_ends_def)
      qed
    qed
  qed simp
  then show ?thesis by (rule roe_mono) blast
qed

lemma accept_client_files:
  assumes k: "posix k" and i: "i < length (client_pipes srv)" and pp: "client_pipes srv ! i = ((cr, cw), (sr, sw))"
    and fork: "\<And>cs. ret (k cs Fork) = 0 \<longleftrightarrow> forks cs = m" and h: "keeps_files q D p"
  shows "forks (calls p) \<noteq> m \<Longrightarrow> returns_or_exits (accept_client k s srv i) p (\<lambda>r p'. r = Some 0 \<and>
      forks (calls p') = Suc (forks (calls p)) \<and> keeps_files q (D \<union> {cw, sr}) p')"
    and "forks (calls p) = m \<Longrightarrow> returns_or_exits (accept_client k s srv i) p (\<lambda>r p'. r = None \<and>
      (\<exists>X. own_ends s cw sr X \<and> keeps_files q (D \<union> {cr, sw} \<union> X) p'))"
proof -
  let ?a = "Accept4 (listener_socket srv)"
  let ?p1 = "after_call k ?a p" let ?p2 = "after_call k Fork ?p1"
  have p2: "keeps_files q D ?p2" by (intro keeps_files_others(1) keeps_files_accept [OF k h])
  have new: "ret (k (calls p) ?a) \<notin> fds_of p" if "ret (k (calls p) ?a) \<noteq> - 1"
    using posixD(2) [OF k that] by (simp add: fds_of_def)
  show "returns_or_exits (accept_client k s srv i) p (\<lambda>r p'. r = Some 0 \<and>
      forks (calls p') = Suc (forks (calls p)) \<and> keeps_files q (D \<union> {cw, sr}) p')" if "forks (calls p) \<noteq> m"
  proof -
    have f: "ret (k (calls ?p1) Fork) \<noteq> 0" using that fork by simp
    show ?thesis
      unfolding accept_client_def make_server_thread_listen_to_pipe_args_def roe
      using i keeps_files_two [OF k p2, of cw sr] by (simp add: f roe pp keeps_files_others)
  qed
  show "returns_or_exits (accept_client k s srv i) p (\<lambda>r p'. r = None \<and>
      (\<exists>X. own_ends s cw sr X \<and> keeps_files q (D \<union> {cr, sw} \<union> X) p'))" if "forks (calls p) = m"
  proof -
    have f: "ret (k (calls ?p1) Fork) = 0" using that fork by simp
    show ?thesis
      unfolding accept_client_def roe
      by (simp only: f if_True refl roe)
        (intro impI roe_mono [OF child_files [OF k i pp h new p2]], assumption, simp)
  qed
qed

text \<open>The first \<open>n\<close> rounds of the loop.\<close>

primrec accept_rounds :: "kernel \<Rightarrow> (nat \<Rightarrow> schedule) \<Rightarrow> server_object \<Rightarrow> nat \<Rightarrow> (process, unit option) prog" where
  "accept_rounds k sched srv 0 = returnM (Some ())"
| "accept_rounds k sched srv (Suc n) = bindM (accept_rounds k sched srv n) (\<lambda>r. case r of
     None \<Rightarrow> returnM None
   | Some u \<Rightarrow> bindM (accept_client k (sched n) srv n) (\<lambda>r. returnM (map_option (\<lambda>_. ()) r)))"

lemma accept_loop_rounds:
  assumes k: "posix k" and len: "length (client_pipes srv) = N_FACES"
  shows "n \<le> N_FACES \<Longrightarrow> accept_loop k sched srv N_FACES 0 p = bindM (accept_rounds k sched srv n) (\<lambda>r. case r of
    None \<Rightarrow> returnM None | Some u \<Rightarrow> accept_loop k sched srv (N_FACES - n) 0) p"
proof (induction n)
  case 0
  then show ?case by (simp add: prog_simps)
next
  case (Suc n)
  then obtain m where m: "N_FACES - n = Suc m" "N_FACES - Suc n = m" "N_FACES - Suc m = n" by (cases "N_FACES - n") auto
  have n: "n < length (client_pipes srv)" using Suc.prems len by simp
  have one: "accept_loop k sched srv (Suc m) 0 q = bindM (bindM (accept_client k (sched n) srv n)
      (\<lambda>r. returnM (map_option (\<lambda>_. ()) r))) (\<lambda>r. case r of None \<Rightarrow> returnM None | Some u \<Rightarrow> accept_loop k sched srv m 0) q" for q
    using accept_client_counts [OF k n, of "sched n" q] m(3)
    by (cases "accept_client k (sched n) srv n q")
      (auto simp: returns_or_exits_def prog_simps split: option.splits)
  show ?case
  proof (cases "accept_rounds k sched srv n p")
    case (Inl e)
    then show ?thesis using Suc by (simp add: prog_simps)
  next
    case (Inr b)
    then show ?thesis using Suc.IH Suc.prems one [of "snd b"] unfolding m(1,2) by (cases "fst b") (simp_all add: prog_simps)
  qed
qed

section \<open>Who holds what\<close>

definition still_open :: "process \<Rightarrow> int \<Rightarrow> process \<Rightarrow> bool" where
  "still_open q fd p \<longleftrightarrow> (\<exists>x. files_of q fd = Some x \<and> x \<in> held p)"

lemma still_open_iff:
  assumes "keeps_files q D p" and "fd \<in> fds_of q"
  shows "still_open q fd p \<longleftrightarrow> fd \<notin> D"
proof -
  have "fd \<in> dom (files_of q)" using assms(2) by (simp add: fds_of_def files_of_def open_files_dom)
  then obtain x where "files_of q fd = Some x" by blast
  then show ?thesis using held_iff [OF assms(1)] by (simp add: still_open_def)
qed

text \<open>The four ends of client \<open>j\<close>'s two pipes.\<close>

abbreviation server_reads :: "server_object \<Rightarrow> nat \<Rightarrow> int" where
  "server_reads srv j \<equiv> fst (fst (client_pipes srv ! j))"

abbreviation client_writes :: "server_object \<Rightarrow> nat \<Rightarrow> int" where
  "client_writes srv j \<equiv> snd (fst (client_pipes srv ! j))"

abbreviation client_reads :: "server_object \<Rightarrow> nat \<Rightarrow> int" where
  "client_reads srv j \<equiv> fst (snd (client_pipes srv ! j))"

abbreviation server_writes :: "server_object \<Rightarrow> nat \<Rightarrow> int" where
  "server_writes srv j \<equiv> snd (snd (client_pipes srv ! j))"

definition given_up :: "server_object \<Rightarrow> nat \<Rightarrow> int set" where
  "given_up srv n = (\<Union>j<n. {client_writes srv j, client_reads srv j})"

lemma given_up_Suc: "given_up srv (Suc n) = given_up srv n \<union> {client_writes srv n, client_reads srv n}"
  by (auto simp: given_up_def lessThan_Suc)

lemma accept_rounds_files:
  assumes k: "posix k" and n: "n \<le> length (client_pipes srv)"
    and fork: "\<And>cs. ret (k cs Fork) = 0 \<longleftrightarrow> forks cs = m" and m: "forks (calls q) + n \<le> m"
  shows "returns_or_exits (accept_rounds k sched srv n) q (\<lambda>r p. r = Some () \<and> forks (calls p) = forks (calls q) + n \<and>
    keeps_files q (given_up srv n) p)"
  using n m
proof (induction n)
  case 0
  show ?case by (simp add: roe keeps_files_start given_up_def)
next
  case (Suc n)
  have n: "n < length (client_pipes srv)" using Suc.prems by simp
  have "returns_or_exits (accept_rounds k sched srv n) q (\<lambda>r p. r = Some () \<and> forks (calls p) = forks (calls q) + n \<and>
      keeps_files q (given_up srv n) p)" using Suc by simp
  then show ?case
    unfolding accept_rounds.simps roe_bind
  proof (rule roe_mono)
    fix u p assume p: "u = Some () \<and> forks (calls p) = forks (calls q) + n \<and> keeps_files q (given_up srv n) p"
    have pp: "client_pipes srv ! n = ((server_reads srv n, client_writes srv n), (client_reads srv n, server_writes srv n))"
      by simp
    have "forks (calls p) \<noteq> m" using p Suc.prems by simp
    from accept_client_files(1) [OF k n pp fork conjunct2 [OF conjunct2 [OF p]] this, where s = "sched n"] p
    show "returns_or_exits (case u of None \<Rightarrow> returnM None | Some u \<Rightarrow> bindM (accept_client k (sched n) srv n)
        (\<lambda>r. returnM (map_option (\<lambda>_. ()) r))) p
        (\<lambda>r p. r = Some () \<and> forks (calls p) = forks (calls q) + Suc n \<and> keeps_files q (given_up srv (Suc n)) p)"
      by (simp add: given_up_Suc roe) (erule roe_mono, simp)
  qed
qed

lemma accept_child_files:
  assumes k: "posix k" and n: "n < length (client_pipes srv)"
    and fork: "\<And>cs. ret (k cs Fork) = 0 \<longleftrightarrow> forks cs = forks (calls q) + n"
  shows "returns_or_exits (accept_rounds k sched srv (Suc n)) q (\<lambda>r p. r = None \<and>
    (\<exists>X. own_ends (sched n) (client_writes srv n) (client_reads srv n) X \<and>
      keeps_files q (given_up srv n \<union> {server_reads srv n, server_writes srv n} \<union> X) p))"
  unfolding accept_rounds.simps roe_bind
proof (rule roe_mono [OF accept_rounds_files [OF k _ fork]])
  fix u p assume p: "u = Some () \<and> forks (calls p) = forks (calls q) + n \<and> keeps_files q (given_up srv n) p"
  have pp: "client_pipes srv ! n = ((server_reads srv n, client_writes srv n), (client_reads srv n, server_writes srv n))"
    by simp
  from accept_client_files(2) [OF k n pp fork conjunct2 [OF conjunct2 [OF p]], where s = "sched n"] p
  show "returns_or_exits (case u of None \<Rightarrow> returnM None | Some u \<Rightarrow> bindM (accept_client k (sched n) srv n)
      (\<lambda>r. returnM (map_option (\<lambda>_. ()) r))) p (\<lambda>r p. r = None \<and>
      (\<exists>X. own_ends (sched n) (client_writes srv n) (client_reads srv n) X \<and>
        keeps_files q (given_up srv n \<union> {server_reads srv n, server_writes srv n} \<union> X) p))"
    by (simp add: roe)
qed (use n in simp_all)

lemma pipe_fds_set: "set (pipe_fds pp) = {fst (fst pp), snd (fst pp), fst (snd pp), snd (snd pp)}"
  by (cases pp rule: pipe_fds.cases) auto

lemma server_fds_apart:
  assumes "distinct (server_fds srv)" and i: "i < length (client_pipes srv)" and j: "j < length (client_pipes srv)"
  shows "distinct [server_reads srv i, client_writes srv i, client_reads srv i, server_writes srv i]"
    and "i \<noteq> j \<Longrightarrow> set (pipe_fds (client_pipes srv ! i)) \<inter> set (pipe_fds (client_pipes srv ! j)) = {}"
proof -
  have d: "distinct (concat (map pipe_fds (client_pipes srv)))" using assms(1) by (simp add: server_fds_def)
  have "distinct (pipe_fds (client_pipes srv ! i))" using d i by (simp add: distinct_concat_iff)
  then show "distinct [server_reads srv i, client_writes srv i, client_reads srv i, server_writes srv i]"
    by (cases "client_pipes srv ! i" rule: pipe_fds.cases) simp
  show "i \<noteq> j \<Longrightarrow> set (pipe_fds (client_pipes srv ! i)) \<inter> set (pipe_fds (client_pipes srv ! j)) = {}"
    using distinct_concat_nth [OF d, of i j] i j by simp
qed

lemma given_up_iff:
  assumes d: "distinct (server_fds srv)" and n: "n \<le> length (client_pipes srv)" and j: "j < length (client_pipes srv)"
  shows "client_writes srv j \<in> given_up srv n \<longleftrightarrow> j < n" and "client_reads srv j \<in> given_up srv n \<longleftrightarrow> j < n"
    and "server_reads srv j \<notin> given_up srv n" and "server_writes srv j \<notin> given_up srv n"
proof -
  have "x \<notin> {client_writes srv i, client_reads srv i}" if "i < n" "i \<noteq> j" "x \<in> set (pipe_fds (client_pipes srv ! j))" for i x
    using server_fds_apart(2) [OF d, of i j] that n j by (auto simp: pipe_fds_set)
  then have o: "x \<in> given_up srv n \<longleftrightarrow> j < n \<and> x \<in> {client_writes srv j, client_reads srv j}"
    if "x \<in> set (pipe_fds (client_pipes srv ! j))" for x
    using that unfolding given_up_def by blast
  note s = server_fds_apart(1) [OF d j j]
  show "client_writes srv j \<in> given_up srv n \<longleftrightarrow> j < n" "client_reads srv j \<in> given_up srv n \<longleftrightarrow> j < n"
    "server_reads srv j \<notin> given_up srv n" "server_writes srv j \<notin> given_up srv n"
    using s by (subst o; auto simp: pipe_fds_set)+
qed

lemma ends_open:
  assumes h: "holding S (server_fds srv) q" and j: "j < length (client_pipes srv)"
  shows "client_writes srv j \<in> fds_of q" and "client_reads srv j \<in> fds_of q"
    and "server_reads srv j \<in> fds_of q" and "server_writes srv j \<in> fds_of q"
proof -
  have "set (pipe_fds (client_pipes srv ! j)) \<subseteq> set (server_fds srv)"
    using j by (auto simp: server_fds_def)
  then have "set (pipe_fds (client_pipes srv ! j)) \<subseteq> fds_of q" using h by (auto simp: holding_def)
  then show "client_writes srv j \<in> fds_of q" "client_reads srv j \<in> fds_of q"
    "server_reads srv j \<in> fds_of q" "server_writes srv j \<in> fds_of q" by (auto simp: pipe_fds_set)
qed

lemma pipe_ends_parent:
  assumes k: "posix k" and h: "holding S (server_fds srv) q" and len: "length (client_pipes srv) = N_FACES"
    and n: "n \<le> N_FACES" and fork: "\<And>cs. ret (k cs Fork) = 0 \<longleftrightarrow> forks cs = forks (calls q) + n"
  shows "returns_or_exits (accept_rounds k sched srv n) q (\<lambda>r p. r = Some () \<and> (\<forall>j<N_FACES.
    (still_open q (client_writes srv j) p \<longleftrightarrow> n \<le> j) \<and> (still_open q (client_reads srv j) p \<longleftrightarrow> n \<le> j) \<and>
    still_open q (server_reads srv j) p \<and> still_open q (server_writes srv j) p))"
proof (rule roe_mono [OF accept_rounds_files [OF k _ fork]])
  fix u p assume p: "u = Some () \<and> forks (calls p) = forks (calls q) + n \<and> keeps_files q (given_up srv n) p"
  then have "\<forall>j<N_FACES. (still_open q (client_writes srv j) p \<longleftrightarrow> n \<le> j) \<and>
      (still_open q (client_reads srv j) p \<longleftrightarrow> n \<le> j) \<and>
      still_open q (server_reads srv j) p \<and> still_open q (server_writes srv j) p"
    using still_open_iff [of q "given_up srv n" p] ends_open [OF h] given_up_iff [of srv n] h n len
    by (auto simp: holding_def not_less)
  with p show "u = Some () \<and> (\<forall>j<N_FACES. (still_open q (client_writes srv j) p \<longleftrightarrow> n \<le> j) \<and>
      (still_open q (client_reads srv j) p \<longleftrightarrow> n \<le> j) \<and>
      still_open q (server_reads srv j) p \<and> still_open q (server_writes srv j) p)" by blast
qed (use n len in simp_all)

text \<open>A client's process gives its own two ends up, at the earliest when a loop has ended, and no other end.\<close>

lemma pipe_ends_child:
  assumes k: "posix k" and h: "holding S (server_fds srv) q" and len: "length (client_pipes srv) = N_FACES"
    and n: "n < N_FACES" and fork: "\<And>cs. ret (k cs Fork) = 0 \<longleftrightarrow> forks cs = forks (calls q) + n"
  shows "returns_or_exits (accept_rounds k sched srv (Suc n)) q (\<lambda>r p. r = None \<and> (\<forall>j<N_FACES.
    (j \<noteq> n \<or> stays_within (sched n) 5 5 \<longrightarrow>
      (still_open q (client_writes srv j) p \<longleftrightarrow> n \<le> j) \<and> (still_open q (client_reads srv j) p \<longleftrightarrow> n \<le> j)) \<and>
    (still_open q (server_reads srv j) p \<longleftrightarrow> j \<noteq> n) \<and> (still_open q (server_writes srv j) p \<longleftrightarrow> j \<noteq> n)))"
proof (rule roe_mono [OF accept_child_files [OF k _ fork]])
  fix u p assume p: "u = None \<and> (\<exists>X. own_ends (sched n) (client_writes srv n) (client_reads srv n) X \<and>
    keeps_files q (given_up srv n \<union> {server_reads srv n, server_writes srv n} \<union> X) p)"
  then obtain X where X: "X \<subseteq> {client_writes srv n, client_reads srv n}" "stays_within (sched n) 5 5 \<Longrightarrow> X = {}"
    and D: "keeps_files q (given_up srv n \<union> {server_reads srv n, server_writes srv n} \<union> X) p"
    by (auto simp: own_ends_def)
  let ?D = "given_up srv n \<union> {server_reads srv n, server_writes srv n} \<union> X"
  have d: "distinct (server_fds srv)" using h by (simp add: holding_def)
  have n': "n < length (client_pipes srv)" using n len by simp
  have one: "(j \<noteq> n \<or> stays_within (sched n) 5 5 \<longrightarrow>
      (still_open q (client_writes srv j) p \<longleftrightarrow> n \<le> j) \<and> (still_open q (client_reads srv j) p \<longleftrightarrow> n \<le> j)) \<and>
      (still_open q (server_reads srv j) p \<longleftrightarrow> j \<noteq> n) \<and> (still_open q (server_writes srv j) p \<longleftrightarrow> j \<noteq> n)"
    if "j < N_FACES" for j
  proof -
    have j: "j < length (client_pipes srv)" using that by (simp only: len)
    note o = still_open_iff [OF D ends_open(1) [OF h j]] still_open_iff [OF D ends_open(2) [OF h j]]
      still_open_iff [OF D ends_open(3) [OF h j]] still_open_iff [OF D ends_open(4) [OF h j]]
    note g = given_up_iff [OF d less_imp_le [OF n'] j]
    have same: "x \<in> set (pipe_fds (client_pipes srv ! n)) \<longleftrightarrow> j = n" if "x \<in> set (pipe_fds (client_pipes srv ! j))" for x
      using server_fds_apart(2) [OF d j n'] that by (cases "j = n") auto
    note s = server_fds_apart(1) [OF d j j]
    show ?thesis
      using same [of "client_writes srv j"] same [of "client_reads srv j"] same [of "server_reads srv j"]
        same [of "server_writes srv j"] g s X unfolding o by (auto simp: pipe_fds_set)
  qed
  with p show "u = None \<and> (\<forall>j<N_FACES. (j \<noteq> n \<or> stays_within (sched n) 5 5 \<longrightarrow>
      (still_open q (client_writes srv j) p \<longleftrightarrow> n \<le> j) \<and> (still_open q (client_reads srv j) p \<longleftrightarrow> n \<le> j)) \<and>
      (still_open q (server_reads srv j) p \<longleftrightarrow> j \<noteq> n) \<and> (still_open q (server_writes srv j) p \<longleftrightarrow> j \<noteq> n))" by blast
qed (use n len in simp_all)

end
