(* ===== verification/Client_Setup.thy ===== *)
theory Client_Setup
  imports Os Client_Threads
begin

text \<open>
  How a client of \<open>src/server/rubiks_client.c\<close> and \<open>src/server/run_client.c\<close> is set up: connecting,
  \<open>run_cube\<close> with its threads, what each thread does before and after its loop (the loops are in
  \<open>Client_Threads\<close>), and the loop of \<open>main\<close>, which does not get beyond the start of its second round.
\<close>

section \<open>Connecting\<close>

definition try_connect :: "kernel \<Rightarrow> int \<Rightarrow> sockaddr_in \<Rightarrow> (process, unit) prog" where
  "try_connect k client_socket server_addr =
     bindM (os_check k (Connect client_socket server_addr) ''Client failed to bind to server.'') (\<lambda>r. returnM ())"

definition get_socket_file :: "kernel \<Rightarrow> int \<Rightarrow> (process, unit) prog" where
  "get_socket_file k client_socket = os_pointer k (Fdopen client_socket ''w+'') ''Couldn't open socket as file stream''"

section \<open>The threads around their loops\<close>

text \<open>The thread that reads the keyboard never closes its stream for the socket, the one that reads the socket does.\<close>

definition listen_to_curses_and_send_message_to_socket :: "kernel \<Rightarrow> int \<Rightarrow> (process, unit) prog list" where
  "listen_to_curses_and_send_message_to_socket k sd =
    [os_pointer k (Fdopen sd ''we'') ''Failed to open socket file for writing'',
     os_ignore k (Curses ''endwin'')]"

definition listen_to_socket_and_signal_semaphore_to_view :: "kernel \<Rightarrow> int \<Rightarrow> (process, unit) prog list" where
  "listen_to_socket_and_signal_semaphore_to_view k sd =
    [os_pointer k (Fdopen sd ''re'') ''Failed to open socket file for reading'',
     os_pointer k (Malloc ''line'') ''Malloc failed for reading line from pipe.'',
     os_zero k (Fclose sd) ''Failed to close file.'',
     os_ignore k (Free ''line'')]"

text \<open>The thread that draws sets up the colours before it waits for its semaphore.\<close>

definition listen_to_semaphore_and_update_view_start :: "(client_thread_args, unit) prog" where
  "listen_to_semaphore_and_update_view_start =
     modifyM (\<lambda>a. a\<lparr>client_screen := client_screen a @ init_colors\<rparr>)"

section \<open>run_cube\<close>

text \<open>\<open>make_client_thread_args\<close> with the replies of the kernel for its three allocations.\<close>

definition keep_args :: "bool \<Rightarrow> bool \<Rightarrow> bool \<Rightarrow> (process, client_thread_args) prog" where
  "keep_args b1 b2 b3 = (\<lambda>p. case make_client_thread_args b1 b2 b3 (process_mem p) of
     Inl e \<Rightarrow> Inl e | Inr a \<Rightarrow> Inr (a, p\<lparr>process_mem := client_mem a\<rparr>))"

definition new_client_thread_args :: "kernel \<Rightarrow> (process, client_thread_args) prog" where
  "new_client_thread_args k =
     bindM (os k (Malloc ''client_thread_args'')) (\<lambda>m1.
     bindM (if ret m1 = 0 then returnM m1 else os k (Malloc ''cube_face_id_ptr'')) (\<lambda>m2.
     bindM (if ret m1 = 0 \<or> ret m2 = 0 then returnM m2 else os k (Malloc ''update_view_semaphore'')) (\<lambda>m3.
     keep_args (ret m1 \<noteq> 0) (ret m2 \<noteq> 0) (ret m3 \<noteq> 0))))"

text \<open>Nothing calls this one. Of the cube only the struct is released, not its faces, and the semaphore is not.\<close>

definition free_client_thread_args :: "kernel \<Rightarrow> client_thread_args \<Rightarrow> (process, unit) prog" where
  "free_client_thread_args k thread_args =
     thenM (os_ignore k (Free ''cube_face_id_ptr''))
    (thenM (on_process (free cube_heap cube_heap_update (cube_state_to_display thread_args)))
    (thenM (os_ignore k Sem_Destroy)
    (os_ignore k (Free ''client_thread_args''))))"

text \<open>One round, up to the moment at which the schedule \<open>s\<close> ends: \<open>None\<close> says that it then waits for a thread. The first
  thread of the schedule is the one that reads the socket. The thread that draws is not waited for, and
  does nothing with a descriptor.\<close>

definition run_cube :: "kernel \<Rightarrow> schedule \<Rightarrow> int \<Rightarrow> (process, int option) prog" where
  "run_cube k s socket_file_descriptor =
     thenM (for_each [''initscr'', ''noecho'', ''cbreak'', ''start_color'', ''clear'', ''refresh'']
       (\<lambda>f. os_ignore k (Curses f)))
    (bindM (new_client_thread_args k) (\<lambda>thread_args.
     thenM (os_zero k (Pthread_Create ''listen_to_semaphore_and_update_view'') ''Error creating curses listener thread'')
    (thenM (os_zero k (Pthread_Create ''listen_to_socket_and_signal_semaphore_to_view'')
       ''Error creating socket listener thread'')
    (thenM (steps (take (early s) (listen_to_socket_and_signal_semaphore_to_view k socket_file_descriptor)))
    (thenM (os_zero k (Pthread_Create ''listen_to_curses_and_send_message_to_socket'')
       ''Error creating curses listener thread'')
    (bindM (interleave (order s)
         (drop (early s) (listen_to_socket_and_signal_semaphore_to_view k socket_file_descriptor))
         (listen_to_curses_and_send_message_to_socket k socket_file_descriptor)) (\<lambda>left.
     if snd left \<noteq> 0 then returnM None
     else thenM (os_zero k (Pthread_Join ''listen_to_curses_and_send_message_to_socket'') ''Curses thread failed to join'')
       (if fst left \<noteq> 0 then returnM None
        else thenM (os_zero k (Pthread_Join ''listen_to_socket_and_signal_semaphore_to_view'')
           ''Socket thread failed to join.'')
         (returnM (Some 0))))))))))"

section \<open>run_client.c\<close>

text \<open>The loop \<open>while (socket_file_status != -1)\<close>, with a schedule for each round: \<open>None\<close> says that it has not ended.\<close>

primrec client_rounds :: "kernel \<Rightarrow> int \<Rightarrow> schedule list \<Rightarrow> int \<Rightarrow> (process, int option) prog" where
  "client_rounds k sd [] status = returnM (if status = - 1 then Some status else None)"
| "client_rounds k sd (s # ss) status =
     (if status = - 1 then returnM (Some status)
      else bindM (run_cube k s sd) (\<lambda>r. case r of
          None \<Rightarrow> returnM None | Some status \<Rightarrow> client_rounds k sd ss status))"

text \<open>\<open>main\<close>; \<open>inet_addr\<close> and \<open>inet_ntop\<close> belong to the C library.\<close>

definition run_client :: "kernel \<Rightarrow> (16 word \<Rightarrow> 16 word) \<Rightarrow> (string \<Rightarrow> 32 word) \<Rightarrow> (32 word \<Rightarrow> string) \<Rightarrow>
    schedule list \<Rightarrow> (process, int option) prog" where
  "run_client k htons inet_addr inet_ntop ss =
     bindM (open_tcp_socket k) (\<lambda>sd.
     thenM (os_ignore k (Stderr (''Client socket descriptor: '' @ show_int sd @ [newline])))
    (let server_addr = socket_address htons (inet_addr ADDRESS) PORT in
     thenM (try_connect k sd server_addr)
    (thenM (os_ignore k (Stderr (''Connected to server at '' @ inet_ntop (sin_addr server_addr) @ '', port '' @
       show_int (uint PORT) @ [newline])))
    (bindM (client_rounds k sd ss 0) (\<lambda>status. case status of
       None \<Rightarrow> returnM None
     | Some s \<Rightarrow> thenM (close_tcp_socket k sd) (returnM (Some 0)))))))"

section \<open>How far a client gets\<close>

text \<open>The rounds that have begun.\<close>

definition rounds_begun :: "process \<Rightarrow> nat" where
  "rounds_begun p = length (filter (\<lambda>c. fst c = Curses ''initscr'') (calls p))"

lemma rounds_begun_call [simp]:
  "rounds_begun (after_call k c p) = rounds_begun p + (if c = Curses ''initscr'' then 1 else 0)"
  by (simp add: rounds_begun_def after_call_def)

lemma rounds_begun_mem [simp]: "rounds_begun (p\<lparr>process_mem := h\<rparr>) = rounds_begun p"
  by (simp add: rounds_begun_def)

text \<open>What the calls of a round leave alone.\<close>

definition same_but_calls :: "process \<Rightarrow> process \<Rightarrow> bool" where
  "same_but_calls p p' \<longleftrightarrow> process_mem p' = process_mem p \<and> rounds_begun p' = rounds_begun p \<and> fds_of p' = fds_of p"

definition args_made :: "process \<Rightarrow> process \<Rightarrow> bool" where
  "args_made p p' \<longleftrightarrow> wf_mem (process_mem p') \<and> quota (process_mem p) \<le> quota (process_mem p') + 31 \<and>
     rounds_begun p' = rounds_begun p \<and> fds_of p' = fds_of p"

lemma new_client_roe:
  assumes "wf_mem (process_mem p)" and "31 \<le> quota (process_mem p)"
  shows "returns_or_exits (new_client_thread_args k) p (\<lambda>a p'. args_made p p')"
proof -
  obtain c h where mk: "make_cube (process_mem p) = Inr (c, h)" "cube_in h c solved_val"
    "quota (process_mem p) = quota h + 31"
    using lib.make_law [OF assms] by (auto elim!: runs_toE)
  have keep: "returns_or_exits (keep_args b1 b2 b3) q (\<lambda>a p'. args_made p p')"
    if "same_but_calls p q" for b1 b2 b3 q
    using mk that by (auto simp: keep_args_def make_client_thread_args_def mapR_def args_made_def same_but_calls_def
      returns_or_exits_def cube_in_def)
  have ask: "returns_or_exits (bindM (if b then returnM m else os k (Malloc t)) f) q Q"
    if "\<And>r q'. same_but_calls p q' \<Longrightarrow> returns_or_exits (f r) q' Q" and "same_but_calls p q" for b m t f q Q
    using that by (simp add: roe same_but_calls_def)
  show ?thesis
    unfolding new_client_thread_args_def roe_bind [of "os k c" for c] roe_os
    by (intro ask keep) (simp_all add: same_but_calls_def)
qed

lemma curses_roe:
  "returns_or_exits (for_each [''initscr'', ''noecho'', ''cbreak'', ''start_color'', ''clear'', ''refresh'']
     (\<lambda>f. os_ignore k (Curses f))) p (\<lambda>_ p'. process_mem p' = process_mem p \<and> fds_of p' = fds_of p \<and>
       rounds_begun p' = Suc (rounds_begun p))"
  by (simp add: roe)

lemma new_client_never_exits:
  assumes k: "obliging k" and p: "wf_mem (process_mem p)" "31 \<le> quota (process_mem p)"
  shows "never_exits (new_client_thread_args k) p"
proof -
  obtain c h where mk: "make_cube (process_mem p) = Inr (c, h)"
    using lib.make_law [OF p] by (auto elim!: runs_toE)
  have "never_exits (keep_args True True True) q" if "process_mem q = process_mem p" for q
    using mk that by (simp add: keep_args_def never_exits_def make_client_thread_args_def mapR_def)
  then show ?thesis
    using obligingD(10) [OF k] by (simp add: new_client_thread_args_def never_exits_def os_def prog_simps)
qed

definition round_started :: "process \<Rightarrow> process \<Rightarrow> bool" where
  "round_started p p' \<longleftrightarrow> wf_mem (process_mem p') \<and> quota (process_mem p) \<le> quota (process_mem p') + 31 \<and>
     rounds_begun p' = Suc (rounds_begun p) \<and> fds_of p' = fds_of p"

lemma round_start:
  assumes p: "wf_mem (process_mem p)" "31 \<le> quota (process_mem p)"
  shows "(\<And>a p'. round_started p p' \<Longrightarrow> returns_or_exits (f a) p' Q) \<Longrightarrow>
      returns_or_exits (thenM (for_each [''initscr'', ''noecho'', ''cbreak'', ''start_color'', ''clear'', ''refresh'']
        (\<lambda>f. os_ignore k (Curses f))) (bindM (new_client_thread_args k) f)) p Q"
    and "obliging k \<Longrightarrow> (\<And>a p'. round_started p p' \<Longrightarrow> runs_to (f a) p' Q) \<Longrightarrow>
      runs_to (thenM (for_each [''initscr'', ''noecho'', ''cbreak'', ''start_color'', ''clear'', ''refresh'']
        (\<lambda>f. os_ignore k (Curses f))) (bindM (new_client_thread_args k) f)) p Q"
proof -
  let ?c = "for_each [''initscr'', ''noecho'', ''cbreak'', ''start_color'', ''clear'', ''refresh''] (\<lambda>f. os_ignore k (Curses f))"
  define J where "J = (\<lambda>(u :: unit) p'. process_mem p' = process_mem p \<and> fds_of p' = fds_of p \<and>
    rounds_begun p' = Suc (rounds_begun p))"
  have c: "returns_or_exits ?c p J" unfolding J_def by (rule curses_roe)
  have m: "wf_mem (process_mem p1)" "31 \<le> quota (process_mem p1)" if "J u p1" for u p1
    using that p by (simp_all add: J_def)
  have st: "round_started p p2" if "J u p1" "args_made p1 p2" for u p1 p2
    using that by (simp add: J_def round_started_def args_made_def)
  show "returns_or_exits (thenM ?c (bindM (new_client_thread_args k) f)) p Q"
    if f: "\<And>a p'. round_started p p' \<Longrightarrow> returns_or_exits (f a) p' Q"
    unfolding roe_then roe_bind
    by (rule roe_mono [OF c], rule roe_mono [OF new_client_roe [OF m]], assumption+, rule f [OF st])
  show "runs_to (thenM ?c (bindM (new_client_thread_args k) f)) p Q"
    if k: "obliging k" and f: "\<And>a p'. round_started p p' \<Longrightarrow> runs_to (f a) p' Q"
  proof -
    have "quiet ?c" by (intro quiet_intro)
    then have "runs_to ?c p J" using c by (intro roe_returns) (simp_all add: quiet_def)
    moreover have "runs_to (bindM (new_client_thread_args k) f) p1 Q" if "J u p1" for u p1
      unfolding runs_to_bind using roe_returns [OF new_client_roe [OF m [OF that]] new_client_never_exits [OF k m [OF that]]]
      by (rule runs_to_mono) (rule f [OF st [OF that]])
    ultimately show ?thesis by (auto intro: runs_to_thenI)
  qed
qed

lemma client_threads_kind:
  "list_all (thread_step k {sd}) (listen_to_socket_and_signal_semaphore_to_view k sd)"
  "list_all (thread_step k {sd}) (listen_to_curses_and_send_message_to_socket k sd)"
  "os_zero k (Fclose sd) ''Failed to close file.'' \<in> set (listen_to_socket_and_signal_semaphore_to_view k sd)"
  "length (listen_to_socket_and_signal_semaphore_to_view k sd) = 4"
  "length (listen_to_curses_and_send_message_to_socket k sd) = 2"
  by (simp_all add: listen_to_socket_and_signal_semaphore_to_view_def listen_to_curses_and_send_message_to_socket_def)

text \<open>A round that is over has closed the socket.\<close>

lemma run_cube_roe:
  assumes k: "posix k" and mem: "wf_mem (process_mem p)" "31 \<le> quota (process_mem p)"
  shows "returns_or_exits (run_cube k s sd) p (\<lambda>r p'. (rounds_begun p' = Suc (rounds_begun p) \<and>
    wf_mem (process_mem p') \<and> quota (process_mem p) \<le> quota (process_mem p') + 31) \<and>
    (case r of None \<Rightarrow> \<not> runs_out s 4 2 | Some x \<Rightarrow> x = 0 \<and> runs_out s 4 2 \<and> sd \<notin> fds_of p'))"
proof -
  let ?A = "listen_to_socket_and_signal_semaphore_to_view k sd" and ?B = "listen_to_curses_and_send_message_to_socket k sd"
  let ?c = "os_zero k (Fclose sd) ''Failed to close file.''" and ?G = "\<lambda>p. sd \<notin> fds_of p"
  let ?e = "early s" and ?bs = "order s"
  let ?I = "\<lambda>p'. rounds_begun p' = Suc (rounds_begun p) \<and> wf_mem (process_mem p') \<and>
    quota (process_mem p) \<le> quota (process_mem p') + 31"
  have kind: "thread_step k {sd} x" if "x \<in> set ?A \<union> set ?B" for x
    using that client_threads_kind(1,2) [of k sd] by (auto simp: list_all_iff)
  have out: "wf_mem (printed t h) = wf_mem h" "quota (printed t h) = quota h" for t h
    by (simp_all add: printed_def wf_mem_def mem_ok_def live_def one_type_def)
  have step: "returns_or_exits x q (\<lambda>_. ?I)" if x: "x \<in> set (take 4 ?A) \<union> set (take 2 ?B)" and q: "?I q" for x q
  proof (rule thread_step_roe [where I = ?I, OF kind q])
    show "x \<in> set ?A \<union> set ?B" using x by (auto dest: in_set_takeD)
  qed (use q out in auto)
  have once: "only_once ?c ?G (set ?A \<union> set ?B)"
    using kind by (intro fclose_once [OF k, where F = "{sd}"])
  have first: "returns_or_exits (steps (take ?e ?A)) q (\<lambda>_ q'. ?I q' \<and> (?G q' \<or> ?c \<in> set (drop ?e ?A)))" if q: "?I q" for q
  proof (rule roe_conj)
    show "returns_or_exits (steps (take ?e ?A)) q (\<lambda>_. ?I)"
      by (rule steps_part [where I = ?I and a = 4, OF step _ q]) (simp_all add: client_threads_kind)
    show "returns_or_exits (steps (take ?e ?A)) q (\<lambda>_ q'. ?G q' \<or> ?c \<in> set (drop ?e ?A))"
      using client_threads_kind(3) [of k sd] by (intro steps_twice [OF once]) simp_all
  qed
  have second: "returns_or_exits (interleave ?bs (drop ?e ?A) ?B) (after_call k (Pthread_Create t) q)
      (\<lambda>r q'. (?I q' \<and> r = (length ?A - ?e - count_list ?bs True, length ?B - count_list ?bs False)) \<and>
        (fst r = 0 \<longrightarrow> ?G q'))"
    if q: "?I q \<and> (?G q \<or> ?c \<in> set (drop ?e ?A))" for q t
  proof (rule roe_conj)
    show "returns_or_exits (interleave ?bs (drop ?e ?A) ?B) (after_call k (Pthread_Create t) q) (\<lambda>r q'. ?I q' \<and>
        r = (length ?A - ?e - count_list ?bs True, length ?B - count_list ?bs False))"
      by (rule interleave_part [where I = ?I and a = 4 and b = 2, OF step]) (use q in \<open>simp_all add: client_threads_kind\<close>)
    show "returns_or_exits (interleave ?bs (drop ?e ?A) ?B) (after_call k (Pthread_Create t) q) (\<lambda>r q'. fst r = 0 \<longrightarrow> ?G q')"
      using q set_drop_subset [of ?e ?A] by (intro interleave_made [OF once]) (auto simp: fds_same simp del: fds_call)
  qed
  have over: "runs_out s 4 2 \<longleftrightarrow> length ?A - ?e - count_list ?bs True = 0 \<and> length ?B - count_list ?bs False = 0"
    by (auto simp: runs_out_def client_threads_kind)
  have I: "?I (after_call k (Pthread_Create t') (after_call k (Pthread_Create t) q))" if "round_started p q" for t t' q
    using that by (simp add: round_started_def)
  show ?thesis
    unfolding run_cube_def
    by (rule round_start(1) [OF mem], simp only: roe, intro impI roe_mono [OF first] I, assumption,
      rule roe_mono [OF second], assumption, auto simp: roe over)
qed

text \<open>In a round that finds the socket closed each of the two threads ends the process with its first call.\<close>

lemma run_cube_closed:
  assumes k: "fdopen_needs_open k" and sd: "sd \<notin> fds_of p" and mem: "wf_mem (process_mem p)" "31 \<le> quota (process_mem p)"
  shows "returns_or_exits (run_cube k s sd) p (\<lambda>r p'. r = None \<and> rounds_begun p' = Suc (rounds_begun p) \<and>
    early s = 0 \<and> order s = [])"
proof -
  let ?A = "listen_to_socket_and_signal_semaphore_to_view k sd" and ?B = "listen_to_curses_and_send_message_to_socket k sd"
  let ?e = "early s" and ?bs = "order s"
  let ?I = "\<lambda>q. rounds_begun q = Suc (rounds_begun p) \<and> sd \<notin> fds_of q"
  have shut: "ret (k (calls q) (Fdopen sd m)) = 0" if "?I q" for q m
    using k that by (simp add: fdopen_needs_open_def fds_of_def)
  have first: "returns_or_exits (steps (take ?e ?A)) q (\<lambda>_ q'. ?I q' \<and> ?e = 0)" if "?I q" for q
    using that shut [OF that] by (cases ?e) (simp_all add: roe listen_to_socket_and_signal_semaphore_to_view_def)
  have second: "returns_or_exits (interleave ?bs (drop ?e ?A) ?B) (after_call k (Pthread_Create t) q)
      (\<lambda>r q'. ?I q' \<and> ?bs = [] \<and> snd r = 2 \<and> ?e = 0)" if q: "?I q \<and> ?e = 0" for q t
  proof (cases ?bs)
    case Nil
    then show ?thesis using q by (simp add: roe client_threads_kind)
  next
    case (Cons b bs)
    have "?I (after_call k (Pthread_Create t) q)" using q by simp
    from shut [OF this] show ?thesis using q
      by (simp add: Cons roe listen_to_socket_and_signal_semaphore_to_view_def
        listen_to_curses_and_send_message_to_socket_def)
  qed
  have I: "?I (after_call k (Pthread_Create t') (after_call k (Pthread_Create t) q))" if "round_started p q" for t t' q
    using that sd by (simp add: round_started_def)
  show ?thesis
    unfolding run_cube_def
    by (rule round_start(1) [OF mem], simp only: roe, intro impI roe_mono [OF first] I, assumption,
      rule roe_mono [OF second], assumption, auto simp: roe)
qed

text \<open>The rounds a client can have begun. The second is the last, and nothing happens in it: the socket is closed.\<close>

fun rounds_of :: "schedule list \<Rightarrow> nat \<Rightarrow> bool" where
  "rounds_of [] n \<longleftrightarrow> n = 0"
| "rounds_of [s] n \<longleftrightarrow> n = 1"
| "rounds_of (s # t # ss) n \<longleftrightarrow> (if runs_out s 4 2 then n = 2 \<and> early t = 0 \<and> order t = [] else n = 1)"

lemma client_rounds_roe:
  assumes k: "posix k" "fdopen_needs_open k" and mem: "wf_mem (process_mem p)" "62 \<le> quota (process_mem p)"
  shows "returns_or_exits (client_rounds k sd ss 0) p (\<lambda>r p'. r = None \<and>
    (\<exists>n. rounds_of ss n \<and> rounds_begun p' = rounds_begun p + n))"
proof (cases ss)
  case Nil
  then show ?thesis by (simp add: roe)
next
  case (Cons s ss')
  have q: "31 \<le> quota (process_mem p)" using mem by simp
  show ?thesis
    unfolding Cons client_rounds.simps roe_bind if_not_P [OF zero_neq_neg_one]
  proof (rule roe_mono [OF run_cube_roe [OF k(1) mem(1) q, of s sd]])
    fix r :: "int option" and p1
    assume r: "(rounds_begun p1 = Suc (rounds_begun p) \<and> wf_mem (process_mem p1) \<and> quota (process_mem p) \<le> quota (process_mem p1) + 31) \<and>
      (case r of None \<Rightarrow> \<not> runs_out s 4 2 | Some x \<Rightarrow> x = 0 \<and> runs_out s 4 2 \<and> sd \<notin> fds_of p1)"
    show "returns_or_exits (case r of None \<Rightarrow> returnM None | Some status \<Rightarrow> client_rounds k sd ss' status) p1 (\<lambda>r p'. r = None \<and>
      (\<exists>n. rounds_of (s # ss') n \<and> rounds_begun p' = rounds_begun p + n))"
    proof (cases r)
      case None
      then show ?thesis using r by (cases ss') (auto simp: roe)
    next
      case (Some x)
      then have p1: "x = 0" "runs_out s 4 2" "sd \<notin> fds_of p1" "wf_mem (process_mem p1)" "31 \<le> quota (process_mem p1)"
        using r mem(2) by auto
      show ?thesis
      proof (cases ss')
        case Nil
        then show ?thesis using Some p1(1) r by (simp add: roe)
      next
        case (Cons t ss2)
        show ?thesis
          unfolding Some option.case Cons client_rounds.simps p1(1) roe_bind if_not_P [OF zero_neq_neg_one]
          by (rule roe_mono [OF run_cube_closed [OF k(2) p1(3-5), of t]]) (use r p1(2) in \<open>auto simp: roe\<close>)
      qed
    qed
  qed
qed

text \<open>With a kernel that has everything a client serves its user until a thread leaves its loop.\<close>

lemma run_cube_serves:
  assumes k: "obliging k" and s: "stays_within s 2 1" and sd: "sd \<in> fds_of p"
    and p: "wf_mem (process_mem p)" "31 \<le> quota (process_mem p)"
  shows "runs_to (run_cube k s sd) p (\<lambda>r p'. r = None)"
proof -
  let ?A = "listen_to_socket_and_signal_semaphore_to_view k sd" and ?B = "listen_to_curses_and_send_message_to_socket k sd"
  let ?e = "early s" and ?bs = "order s" and ?I = "\<lambda>q. sd \<in> fds_of q"
  have step: "runs_to x q (\<lambda>_. ?I)" if "x \<in> set (take 2 ?A) \<union> set (take 1 ?B)" "?I q" for x q
  proof -
    have "x = os_pointer k (Fdopen sd ''re'') ''Failed to open socket file for reading'' \<or>
        x = os_pointer k (Malloc ''line'') ''Malloc failed for reading line from pipe.'' \<or>
        x = os_pointer k (Fdopen sd ''we'') ''Failed to open socket file for writing''"
      using that(1) by (auto simp: listen_to_socket_and_signal_semaphore_to_view_def listen_to_curses_and_send_message_to_socket_def)
    then show ?thesis
      using that(2) obligingD(9,10) [OF k] by (auto simp: os_pointer_def wp fds_of_def [symmetric])
  qed
  have le: "?e \<le> 2" "count_list ?bs True \<le> 2 - ?e" "count_list ?bs False \<le> 1"
    using s by (auto simp: stays_within_def)
  have sub: "set (take ?e ?A) \<subseteq> set (take 2 ?A)" "set (take (2 - ?e) (drop ?e ?A)) \<subseteq> set (take 2 ?A)"
    using set_take_le [of ?e 2 ?A] set_drop_subset [of ?e "take 2 ?A"] le(1) by (simp_all add: take_drop)
  have first: "runs_to (steps (take ?e ?A)) q (\<lambda>_. ?I)" if "?I q" for q
    by (rule steps_runs [where I = ?I]) (use step sub that in blast)+
  have second: "runs_to (interleave ?bs (drop ?e ?A) ?B) q (\<lambda>r q'. snd r \<noteq> 0)" if q: "?I q" for q
  proof -
    have "runs_to (interleave ?bs (drop ?e ?A) ?B) q (\<lambda>r q'. ?I q' \<and>
        r = (length (drop ?e ?A) - count_list ?bs True, length ?B - count_list ?bs False))"
      by (rule interleave_runs [where I = ?I, OF _ le(2,3)]) (use step sub q in blast)+
    then show ?thesis by (rule runs_to_mono) (use le(3) in \<open>simp add: client_threads_kind\<close>)
  qed
  have I: "?I (after_call k (Pthread_Create t') (after_call k (Pthread_Create t) q))" if "round_started p q" for t t' q
    using that sd by (simp add: round_started_def)
  show ?thesis
    unfolding run_cube_def
    by (rule round_start(2) [OF p k], simp add: os_zero_def wp obligingD [OF k], rule runs_to_mono [OF first], erule I,
      rule runs_to_mono [OF second], simp_all add: wp)
qed

end
