(* ===== verification/Setup_Properties.thy ===== *)
theory Setup_Properties
  imports Cube_Properties Pipe_Ends Client_Setup
begin

text \<open>
  The properties of set-up and of the two \<open>main\<close> functions: the descriptors that the processes hold and
  the ways out of the code, tried with a kernel in which every call succeeds.
\<close>

section \<open>The descriptors\<close>

text \<open>A kernel in which every call succeeds and a new descriptor is the next one after those open.\<close>

definition next_fd :: "record_of_calls \<Rightarrow> int" where
  "next_fd cs = Max (insert 2 (open_fds cs)) + 1"

definition demo_kernel :: kernel where
  "demo_kernel cs c = (case c of
     Socket \<Rightarrow> \<lparr>ret = next_fd cs, ends = (0, 0)\<rparr>
   | Accept4 fd \<Rightarrow> \<lparr>ret = next_fd cs, ends = (0, 0)\<rparr>
   | Pipe2 \<Rightarrow> \<lparr>ret = 0, ends = (next_fd cs, next_fd cs + 1)\<rparr>
   | Close fd \<Rightarrow> \<lparr>ret = if fd \<in> open_fds cs then 0 else - 1, ends = (0, 0)\<rparr>
   | Fclose fd \<Rightarrow> \<lparr>ret = if fd \<in> open_fds cs then 0 else - 1, ends = (0, 0)\<rparr>
   | Fdopen fd m \<Rightarrow> \<lparr>ret = if fd \<in> open_fds cs then 1 else 0, ends = (0, 0)\<rparr>
   | Pthread_Create t \<Rightarrow> \<lparr>ret = 0, ends = (0, 0)\<rparr>
   | Pthread_Join t \<Rightarrow> \<lparr>ret = 0, ends = (0, 0)\<rparr>
   | _ \<Rightarrow> \<lparr>ret = 1, ends = (0, 0)\<rparr>)"

lemma open_fds_finite: "finite (open_fds cs)"
proof (induction cs rule: rev_induct)
  case (snoc c cs)
  have "finite (fds_after S c)" if "finite S" for S using that by (cases "(S, c)" rule: fds_after.cases) auto
  then show ?case using snoc by (simp add: open_fds_snoc)
qed (simp add: open_fds_def)

lemma next_fd_fresh: "x \<in> open_fds cs \<Longrightarrow> x < next_fd cs" and next_fd_positive: "2 < next_fd cs"
  using Max_ge [of "insert 2 (open_fds cs)"] open_fds_finite [of cs] by (force simp: next_fd_def)+

lemma demo_posix: "posix demo_kernel"
  unfolding posix_def demo_kernel_def using next_fd_fresh by (auto, fastforce+)

lemma demo_obliging: "obliging demo_kernel"
proof -
  have "next_fd cs \<noteq> - 1" for cs using next_fd_positive [of cs] by simp
  then show ?thesis by (simp add: obliging_def demo_kernel_def)
qed

definition demo_process :: process where
  "demo_process = \<lparr>calls = [], process_mem = init_mem 5000\<rparr>"

text \<open>C23. With a kernel whose descriptors behave as POSIX says, memory for a cube (31 calls of \<open>malloc\<close>) and for the server
  object (whose \<open>malloc\<close> the code does not check), setting up the server exits with a message or
  leaves it a solved cube and exactly the listening socket and the 24 ends of its pipes, all different;
  then \<open>free_echo_server\<close> returns and gives every one of them back. It does not exit if no call fails.\<close>

theorem server_setup_and_release:
  assumes "posix k" and "\<forall>cs. ret (k cs (Malloc ''echo_server'')) \<noteq> 0"
    and "wf_mem (process_mem p)" and "31 \<le> quota (process_mem p)"
  shows "returns_or_exits (server_setup k htons) p (\<lambda>srv p'. length (client_pipes srv) = N_FACES \<and>
      addr srv = socket_address htons 0 PORT \<and> holding (fds_of p) (server_fds srv) p' \<and>
      cube_in (process_mem p') (cube_object srv) solved_val \<and>
      runs_to (free_echo_server k srv) p' (\<lambda>_ p''. fds_of p'' = fds_of p)) \<and>
    (obliging k \<longrightarrow> never_exits (server_setup k htons) p)"
proof -
  note roe = server_setup_roe [OF assms(1) assms(2) [rule_format] assms(3,4)]
  have "cube_heap h c \<noteq> None" if "cube_in h c V" for h c V
    using that by (auto simp: cube_in_def cube_at_def)
  then show ?thesis
    using free_echo_server_wp [OF assms(1)] server_setup_never_exits [OF _ assms(3,4)]
    by (auto intro!: roe_mono [OF roe])
qed

lemma demo_process_ok: "wf_mem (process_mem demo_process)" "quota (process_mem demo_process) = 5000"
  "fds_of demo_process = {}"
  using init_empty by (simp_all add: demo_process_def init_mem_def empty_mem_def fds_of_def open_fds_def)

theorem server_setup_and_release_witness:
  "\<exists>srv p'. server_setup demo_kernel id demo_process = Inr (srv, p') \<and> card (fds_of p') = 25 \<and>
    runs_to (free_echo_server demo_kernel srv) p' (\<lambda>_ p''. fds_of p'' = {})"
proof -
  have m: "\<forall>cs. ret (demo_kernel cs (Malloc ''echo_server'')) \<noteq> 0" by (simp add: demo_kernel_def)
  have q: "31 \<le> quota (process_mem demo_process)" by (simp add: demo_process_ok)
  from server_setup_and_release [OF demo_posix m demo_process_ok(1) q, of id] demo_obliging
  have "runs_to (server_setup demo_kernel id) demo_process (\<lambda>srv p'. length (client_pipes srv) = N_FACES \<and>
      holding {} (server_fds srv) p' \<and> runs_to (free_echo_server demo_kernel srv) p' (\<lambda>_ p''. fds_of p'' = {}))"
    by (intro roe_returns) (auto simp: demo_process_ok elim!: roe_mono)
  then obtain srv p' where run: "server_setup demo_kernel id demo_process = Inr (srv, p')"
    and l: "length (client_pipes srv) = N_FACES" and h: "holding {} (server_fds srv) p'"
    and f: "runs_to (free_echo_server demo_kernel srv) p' (\<lambda>_ p''. fds_of p'' = {})"
    by (rule runs_toE) blast
  have "length (concat (map pipe_fds ps)) = 4 * length ps" for ps by (induction ps) auto
  then have "length (server_fds srv) = 25" using l by (simp add: server_fds_def)
  then have "card (fds_of p') = 25" using h by (simp add: holding_def distinct_card)
  with run f show ?thesis by blast
qed

text \<open>C33. Who holds which end of which pipe. After \<open>n\<close> rounds of the accept loop the server has given up the ends
  of the first \<open>n\<close> clients' pipes that are for the clients and holds all others; and client \<open>n\<close>'s process has
  lost the two ends for the server of its own pipes, and gives up its own two ends at the earliest when one of its
  threads has left its loop, and no other end, whatever its threads do. So the end to write of client \<open>i\<close>'s pipe
  to the server, and the end to read of the other one, are held by the processes of the clients up to
  \<open>i\<close>, not by the one process that uses them, and by the server until it has accepted client \<open>i\<close>. This is before
  any of the server's own threads, which run \<open>server_thread_listen_to_pipe\<close>, has come to its end and closed its end to read.\<close>

theorem pipe_ends_inherited:
  assumes "posix k" and "holding S (server_fds srv) q" and "length (client_pipes srv) = N_FACES" and "n \<le> N_FACES"
    and "\<forall>cs. ret (k cs Fork) = 0 \<longleftrightarrow> forks cs = forks (calls q) + n"
  shows "returns_or_exits (accept_rounds k sched srv n) q (\<lambda>r p. r = Some () \<and> (\<forall>j<N_FACES.
      (still_open q (client_writes srv j) p \<longleftrightarrow> n \<le> j) \<and> (still_open q (client_reads srv j) p \<longleftrightarrow> n \<le> j) \<and>
      still_open q (server_reads srv j) p \<and> still_open q (server_writes srv j) p)) \<and>
    (n < N_FACES \<longrightarrow> returns_or_exits (accept_rounds k sched srv (Suc n)) q (\<lambda>r p. r = None \<and> (\<forall>j<N_FACES.
      (j \<noteq> n \<or> stays_within (sched n) 5 5 \<longrightarrow>
        (still_open q (client_writes srv j) p \<longleftrightarrow> n \<le> j) \<and> (still_open q (client_reads srv j) p \<longleftrightarrow> n \<le> j)) \<and>
      (still_open q (server_reads srv j) p \<longleftrightarrow> j \<noteq> n) \<and> (still_open q (server_writes srv j) p \<longleftrightarrow> j \<noteq> n))))"
  using pipe_ends_parent [OF assms(1-4) assms(5) [rule_format]] pipe_ends_child [OF assms(1-3) _ assms(5) [rule_format]]
  by blast

text \<open>The kernel as the child of one \<open>fork\<close> sees it.\<close>

definition fork_kernel :: "nat \<Rightarrow> kernel" where
  "fork_kernel m cs c = (if c = Fork then \<lparr>ret = (if forks cs = m then 0 else 1), ends = (0, 0)\<rparr> else demo_kernel cs c)"

lemma fork_kernel_ok: "posix (fork_kernel m)" "obliging (fork_kernel m)"
  using demo_posix obligingD [OF demo_obliging] by (simp_all add: posix_def obliging_def fork_kernel_def)

definition idle :: schedule where
  "idle = \<lparr>early = 0, order = []\<rparr>"

theorem pipe_ends_inherited_witness:
  "\<exists>k srv q p. accept_rounds k (\<lambda>i. idle) srv 3 q = Inr (None, p) \<and>
    (\<forall>j<N_FACES. still_open q (client_writes srv j) p \<longleftrightarrow> 2 \<le> j)"
proof -
  have m: "\<And>cs. ret (demo_kernel cs (Malloc ''echo_server'')) \<noteq> 0" by (simp add: demo_kernel_def)
  have r: "31 \<le> quota (process_mem demo_process)" by (simp add: demo_process_ok)
  have "runs_to (server_setup demo_kernel id) demo_process (\<lambda>srv p'. length (client_pipes srv) = N_FACES \<and>
      holding {} (server_fds srv) p')"
    using roe_mono [OF server_setup_roe [OF demo_posix m demo_process_ok(1) r]] demo_process_ok(3)
      server_setup_never_exits [OF demo_obliging demo_process_ok(1) r]
    by (intro roe_returns) auto
  then obtain srv q where l: "length (client_pipes srv) = N_FACES" and h: "holding {} (server_fds srv) q"
    by (rule runs_toE) blast
  let ?k = "fork_kernel (forks (calls q) + 2)" and ?go = "\<lambda>n. accept_rounds (fork_kernel (forks (calls q) + 2)) (\<lambda>i. idle) srv n"
  have f: "\<forall>cs. ret (?k cs Fork) = 0 \<longleftrightarrow> forks cs = forks (calls q) + 2" by (simp add: fork_kernel_def)
  have n: "(2::nat) \<le> N_FACES" and w: "stays_within idle 5 5" by (simp_all add: stays_within_def idle_def)
  have two: "Suc 2 = 3" and lt: "(2::nat) < N_FACES" by simp_all
  from pipe_ends_inherited [OF fork_kernel_ok(1) h l n f, of "\<lambda>i. idle"]
  have "returns_or_exits (?go 3) q (\<lambda>r p. r = None \<and> (\<forall>j<N_FACES. still_open q (client_writes srv j) p \<longleftrightarrow> 2 \<le> j))"
    by - (drule conjunct2, drule mp [OF _ lt], unfold two, erule roe_mono, auto simp: w)
  moreover have "quiet (?go n)" for n
    unfolding idle_def
    by (induction n) (auto simp: split: option.split intro!: quiet_intro accept_client_quiet fork_kernel_ok)
  ultimately have "runs_to (?go 3) q (\<lambda>r p. r = None \<and> (\<forall>j<N_FACES. still_open q (client_writes srv j) p \<longleftrightarrow> 2 \<le> j))"
    by (intro roe_returns) (auto simp: quiet_def)
  then show ?thesis by (rule runs_toE) auto
qed

definition demo_server :: server_object where
  "demo_server = \<lparr>listener_socket = 0, addr = socket_address id 0 PORT, max_backlog = 10,
     client_pipes = replicate N_FACES ((3, 4), (5, 6)), cube_object = 1\<rparr>"

text \<open>A process that has two pipes open.\<close>

definition demo_pipes :: process where
  "demo_pipes = \<lparr>calls = [(Pipe2, \<lparr>ret = 0, ends = (3, 4)\<rparr>), (Pipe2, \<lparr>ret = 0, ends = (5, 6)\<rparr>)],
     process_mem = init_mem 5000\<rparr>"

lemma demo_pipes_fds: "fds_of demo_pipes = {3, 4, 5, 6}"
  by (auto simp: fds_of_def open_fds_def demo_pipes_def)

text \<open>C34. Only the server goes on accepting. A client-facing process never returns, in whatever order its two threads run: as
  long as one of them has not ended the process waits for it, and once both have made all their calls the process
  has gone, with \<open>error_and_exit\<close>, because both threads close the socket. So who
  comes out of the accept loop has accepted a connection for each face left, and none of its calls of \<open>fork\<close> returned as the
  child; and a process in which one did stays in the round in which it was made. With a kernel that has everything
  the server does come out, unless one of its own threads ends it before.\<close>

theorem only_the_server_accepts_on:
  assumes "posix k" and "length (client_pipes srv) = N_FACES" and "n \<le> N_FACES"
  shows "(\<forall>i<N_FACES. returns_or_exits (client_facing_process k (sched i) sd srv i) p
        (\<lambda>r p'. r = None \<and> \<not> runs_out (sched i) 9 8)) \<and>
    returns_or_exits (accept_loop k sched srv n 0) p (\<lambda>r p'. case r of
        Some u \<Rightarrow> accepts p' = accepts p + n \<and> children p' = children p
      | None \<Rightarrow> children p' = Suc (children p) \<and>
          (\<exists>j<n. accepts p' = accepts p + Suc j \<and> \<not> runs_out (sched (N_FACES - n + j)) 9 8)) \<and>
    (obliging k \<and> (\<forall>cs. ret (k cs Fork) \<noteq> 0) \<longrightarrow> (\<exists>p'. accept_loop k sched srv n 0 p = Inr (Some (), p')))"
proof (intro conjI allI impI)
  fix i assume "i < N_FACES"
  then have i: "i < length (client_pipes srv)" by (simp only: assms(2))
  obtain cr cw sr sw where pp: "client_pipes srv ! i = ((cr, cw), (sr, sw))" by (metis surj_pair)
  show "returns_or_exits (client_facing_process k (sched i) sd srv i) p (\<lambda>r p'. r = None \<and> \<not> runs_out (sched i) 9 8)"
    by (rule roe_mono [OF client_facing_process_roe [OF assms(1) i pp, where I = "\<lambda>p. True"]]) simp_all
next
  assume "obliging k \<and> (\<forall>cs. ret (k cs Fork) \<noteq> 0)"
  then show "\<exists>p'. accept_loop k sched srv n 0 p = Inr (Some (), p')"
    using accept_loop_returns [OF _ _ assms(2,3), of k sched p] by (auto elim!: runs_toE)
qed (rule accept_loop_counts [OF assms])

lemma demo_calls:
  "os_pointer demo_kernel (Malloc t) e p = Inr ((), after_call demo_kernel (Malloc t) p)"
  "os_zero demo_kernel (Pthread_Create t) e p = Inr ((), after_call demo_kernel (Pthread_Create t) p)"
  "fd \<in> fds_of p \<Longrightarrow> os_pointer demo_kernel (Fdopen fd m) e p = Inr ((), after_call demo_kernel (Fdopen fd m) p)"
  by (simp_all add: os_pointer_def os_zero_def os_def prog_simps demo_kernel_def fds_of_def)

definition demo_accepted :: process where
  "demo_accepted = demo_pipes\<lparr>calls := calls demo_pipes @ [(Accept4 0, \<lparr>ret = 7, ends = (0, 0)\<rparr>)]\<rparr>"

lemma demo_accepted_fds: "fds_of demo_accepted = {3, 4, 5, 6, 7}"
  by (auto simp: demo_accepted_def demo_pipes_def fds_of_def open_fds_def)

text \<open>A server that accepts five clients; and the process of a client that goes: the thread that reads the socket
  is through when the other one has left its loop, and the process ends with \<open>Failed to close file.\<close>\<close>

theorem only_the_server_accepts_on_witness:
  "(\<exists>p'. accept_loop demo_kernel (\<lambda>i. idle) demo_server 5 0 demo_process = Inr (Some (), p') \<and> accepts p' = 5) \<and>
    client_facing_process demo_kernel \<lparr>early = 5, order = replicate 8 False @ [True, True]\<rparr> 7 demo_server 2 demo_accepted =
      Inl (Exit_Failure ''Failed to close file.'')"
proof
  have len: "length (client_pipes demo_server) = N_FACES" by (simp add: demo_server_def)
  have n: "(5::nat) \<le> N_FACES" by simp
  note a = only_the_server_accepts_on [OF demo_posix len n, of "\<lambda>i. idle" 0 demo_process]
  have "\<forall>cs. ret (demo_kernel cs Fork) \<noteq> 0" by (simp add: demo_kernel_def)
  then obtain p' where p': "accept_loop demo_kernel (\<lambda>i. idle) demo_server 5 0 demo_process = Inr (Some (), p')"
    using a demo_obliging by blast
  with a have "accepts p' = accepts demo_process + 5" by (simp add: returns_or_exits_def)
  with p' show "\<exists>p'. accept_loop demo_kernel (\<lambda>i. idle) demo_server 5 0 demo_process = Inr (Some (), p') \<and> accepts p' = 5"
    by (simp add: accepts_def demo_process_def)
  show "client_facing_process demo_kernel \<lparr>early = 5, order = replicate 8 False @ [True, True]\<rparr> 7 demo_server 2 demo_accepted =
      Inl (Exit_Failure ''Failed to close file.'')"
    by (simp add: client_facing_process_def make_client_facing_thread_channels_def demo_server_def
      client_facing_thread_listen_to_pipe_def client_facing_thread_listen_to_socket_def pipe_thread_start_def
      pipe_thread_end_def socket_thread_start_def socket_thread_end_def eval_nat_numeral idx_def prog_simps demo_calls
      say_eq os_ignore_eq fclose_eq [OF demo_posix] fds_close [OF demo_posix] fds_same demo_accepted_fds del: fds_call)
qed

text \<open>C35. The two threads of a client-facing process close the same socket: the one that ends first closes it,
  and the other one, in either order, takes the process down with \<open>Failed to close file.\<close> before it
  can be joined.\<close>

theorem client_socket_closed_twice:
  assumes "posix k" and "socket_descriptor ch \<in> fds_of p" and "pipe_receiving_end ch \<in> fds_of p"
    and "pipe_transmitting_end ch \<in> fds_of p"
    and "distinct [socket_descriptor ch, pipe_receiving_end ch, pipe_transmitting_end ch]"
  shows "(\<exists>p'. client_facing_thread_listen_to_pipe_end k ch p = Inr ((), p') \<and>
      client_facing_thread_listen_to_socket_end k ch p' = Inl (Exit_Failure ''Failed to close file.'')) \<and>
    (\<exists>p'. client_facing_thread_listen_to_socket_end k ch p = Inr ((), p') \<and>
      client_facing_thread_listen_to_pipe_end k ch p' = Inl (Exit_Failure ''Failed to close file.''))"
  using assms(2-)
  by (simp add: client_facing_thread_listen_to_pipe_end_def client_facing_thread_listen_to_socket_end_def
    pipe_thread_end_def socket_thread_end_def thenM_apply returnM_apply fclose_eq [OF assms(1)] say_eq os_ignore_eq fds_same del: fds_call)

theorem client_socket_closed_twice_witness:
  "\<exists>ch p'. fds_of demo_pipes = {3, 4, 5, 6} \<and> socket_descriptor ch = 3 \<and>
    client_facing_thread_listen_to_pipe_end demo_kernel ch demo_pipes = Inr ((), p') \<and>
    client_facing_thread_listen_to_socket_end demo_kernel ch p' = Inl (Exit_Failure ''Failed to close file.'')"
proof -
  let ?ch = "\<lparr>socket_descriptor = 3, pipe_receiving_end = 5, pipe_transmitting_end = 4\<rparr>"
  from client_socket_closed_twice [OF demo_posix, of ?ch demo_pipes]
  obtain p' where "client_facing_thread_listen_to_pipe_end demo_kernel ?ch demo_pipes = Inr ((), p')"
    "client_facing_thread_listen_to_socket_end demo_kernel ?ch p' = Inl (Exit_Failure ''Failed to close file.'')"
    by (auto simp: demo_pipes_fds)
  then show ?thesis using demo_pipes_fds by (intro exI [of _ ?ch] exI [of _ p']) simp
qed





text \<open>C38. \<open>free_client_thread_args\<close> gives back the face number, the struct of the displayed cube and the arguments, and destroys
  the semaphore; the thirty objects of the faces stay allocated and nothing points to them any more, and the
  memory of the semaphore is not given back.\<close>

theorem freed_client_leaks:
  assumes "sole (process_mem p) (cube_state_to_display a) V"
  shows "\<exists>p'. free_client_thread_args k a p = Inr ((), p') \<and> card (live (process_mem p')) = 30 \<and>
    cube_heap (process_mem p') (cube_state_to_display a) = None \<and>
    map fst (calls p') = map fst (calls p) @ [Free ''cube_face_id_ptr'', Sem_Destroy, Free ''client_thread_args'']"
proof -
  let ?c = "cube_state_to_display a"
  obtain h' where run: "free cube_heap cube_heap_update ?c (process_mem p) = Inr ((), h')" and n: "card (live h') = 30"
    using free_client_leaks [OF assms] by (auto elim!: runs_toE)
  have "?c \<noteq> NULL" using assms by (auto simp: sole_def cube_at_def)
  then have "cube_heap h' ?c = None" using run by (auto simp: free_def split: option.splits)
  then show ?thesis
    using run n by (simp add: free_client_thread_args_def prog_simps os_ignore_eq on_process_def after_call_def)
qed

theorem freed_client_leaks_witness:
  "\<exists>a q p'. new_client_thread_args demo_kernel demo_process = Inr (a, q) \<and>
    free_client_thread_args demo_kernel a q = Inr ((), p') \<and> card (live (process_mem p')) = 30"
proof -
  obtain c where c: "make_client_thread_args True True True (init_mem 5000) = Inr c"
    "sole (client_mem c) (cube_state_to_display c) solved_val"
    using make_client_ok [OF init_empty, of 5000] by (auto simp: init_mem_def)
  then have "\<exists>q. new_client_thread_args demo_kernel demo_process = Inr (c, q) \<and> process_mem q = client_mem c"
    by (simp add: new_client_thread_args_def keep_args_def os_def prog_simps demo_kernel_def demo_process_def)
  then show ?thesis using freed_client_leaks [of _ c solved_val demo_kernel] c(2) by metis
qed

end
