(* ===== verification/Spec2Isabelle.thy ===== *)
theory Spec2Isabelle
  imports Lost_Client History Jam Program_Properties Unit_Tests Server_Properties Setup_Properties
begin

text \<open>
  A verification library for a Rubik's cube that several computers show together.

  The program. \<open>src/rubiks_start.c\<close> keeps the cube as a graph of heap objects (a cube, six faces with
  nine colours each, four adjacency records per face) and turns, shuffles and tests it.
  \<open>src/rubiks_view.c\<close> plays with it on one terminal. \<open>src/server/\<close> plays with it on six: a server
  process owns the cube and forks a process for each client it accepts. Between a client and the
  server's cube there are two directions:

    key, \<open>encode_user_input\<close>, socket, \<open>client_facing_thread_listen_to_socket\<close>, pipe,
    \<open>server_thread_listen_to_pipe\<close>, \<open>decode_user_input\<close> (under the lock), semaphore;

    \<open>server_thread_wait_and_broadcast\<close>, \<open>encode\<close> (under the lock), pipe,
    \<open>client_facing_thread_listen_to_pipe\<close>, socket, \<open>decode\<close>, semaphore, picture.

  The theories, and what of the code they model:
  \<^item> \<open>Prelude\<close>: C functions as functions from a state to a fault or a result, their loops, the
    judgement \<open>runs_to\<close> (total correctness) and its rules.
  \<^item> \<open>C_Memory\<close>: \<open>malloc\<close> and \<open>free\<close> for the three structs of \<open>src/constants.h\<close>; a locale for a heap of
    objects of one type, interpreted three times.
  \<^item> \<open>Cube\<close>: every function of \<open>src/rubiks_start.c\<close>. \<open>Cube_Refine\<close> and \<open>Cube_Rotate\<close> say what each computes
    on the contents of the cube; \<open>Cube_Geometry\<close> that \<open>rotate\<close> is the quarter turn of a layer of points in
    space; \<open>Cube_Moves\<close> what follows for sequences of turns, in a locale of invertible actions; \<open>Cube_Api\<close>
    the contract of the library as a locale, with two instances (any cube in a memory, and the only
    cube in a memory, for the absence of leaks).
  \<^item> \<open>C_Strings\<close>, \<open>Encoding\<close>: character arrays, \<open>fputs\<close>, \<open>getline\<close>; \<open>src/server/encoding.c\<close>; a locale for
    line codecs, interpreted by \<open>encode\<close> and \<open>decode\<close> in \<open>Screen\<close>. \<open>cube_line\<close> and \<open>command_line\<close> are not code: they say
    which text \<open>encode\<close> and \<open>encode_user_input\<close> write (C37, C12), and the threads' models use the functions.
  \<^item> \<open>Screen\<close>, \<open>View\<close>: the drawing loops as lists of curses calls; \<open>main\<close> of \<open>src/rubiks_view.c\<close> refined
    from a program on cube contents.
  \<^item> \<open>Pipes\<close>: pipes and sockets, and the loops of the two relay threads of a client-facing process, which are
    the same function \<open>relay_step\<close>; the locale \<open>framed\<close> for messages of one length, interpreted in \<open>Client\<close> for
    the command lines and for the cube lines.
  \<^item> \<open>Server_Commands\<close>, \<open>Server_Threads\<close>: \<open>decode_user_input\<close>; the six listeners and the broadcaster of
    \<open>src/server/rubiks_server.c\<close> as interleaved steps of program counters, with the lock, the semaphore and the
    pipes. The environment of this model may write any text.
  \<^item> \<open>Client\<close>, \<open>Client_Threads\<close>: the rounds of the three threads of \<open>src/server/rubiks_client.c\<close> as functions,
    and the same threads interleaved square by square, because the displayed cube has no lock.
  \<^item> \<open>System\<close>: six clients, twelve relays and the server, composed. The only inputs are keys and the end of a
    client by its user; a pipe comes to its end, or breaks, when no process holds its other end any more,
    and a process that writes to what is broken is ended by \<open>SIGPIPE\<close>. \<open>Lost_Client\<close> puts longer runs together.
  \<^item> \<open>History\<close>: runs of the system with the keys that were pressed, and their abstract account: one cube to which
    the commands of the six clients are applied one after the other, each client's in its own order, and
    which is sent to all of them.
  \<^item> \<open>Full_Pipes\<close>: the same system with pipes and sockets of a finite capacity, in which a thread waits until its
    line fits; the one way in which it can stand still. \<open>Tally\<close>: the messages sent and due are as many as the
    commands taken, and the memory they cost. \<open>Jam\<close>: a run, for every capacity, in which the broadcaster
    waits for ever.
  \<^item> \<open>Os\<close>, \<open>Server_Setup\<close>, \<open>Client_Setup\<close>: \<open>src/server/server_util.c\<close>, the rest of \<open>rubiks_server.c\<close> and
    \<open>rubiks_client.c\<close> (the server object, \<open>accept_client\<close>, \<open>client_facing_process\<close>, \<open>run_cube\<close>, and the code of
    each thread before and after its loop), \<open>run_server.c\<close> and \<open>run_client.c\<close>. The kernel is a parameter, a
    function from the calls made so far and the next call to the reply. The two threads of a client-facing process, and
    the two threads of a client that use its socket, run in the functions that create and join them: each is
    the list of its calls before and after its loop, and a \<open>schedule\<close>, a parameter, says in which order the calls of
    both happen and when the run is cut; a join waits for a thread whose list has not come to its end, and an
    \<open>error_and_exit\<close> of a thread ends the process. \<open>Pipe_Ends\<close> follows the ends of the
    pipes through the accept loop and its forks; what it finds is what \<open>System\<close> assumes about them.
  \<^item> \<open>Unit_Tests\<close>: the tests of \<open>src/test\<close> for the cube library, the text form and the commands as programs
    that answer whether their assertions hold, and what each of them answers.

  The properties, numbered in the order of their importance, are in \<open>Cube_Properties\<close>, \<open>Program_Properties\<close>,
  \<open>Server_Properties\<close>, \<open>Setup_Properties\<close>, \<open>Unit_Tests\<close> and, for the system as a whole, here; each that has a
  hypothesis has a witness, an example on which it is tried.

  What the lemmas show. For the cube library: what each function computes, for which memory it faults, that
  nothing leaks, and that turns are those of the physical cube. For the text forms: round trips, buffer
  bounds, agreement of client and server on commands. For the threads: an invariant kept by every step
  (\<open>server_inv\<close>, \<open>client_inv\<close>, \<open>system_inv\<close>), mutual exclusion, a measure that every step without new
  input decreases, and what holds in the states where nothing can move. For full pipes: the steps that read
  always fit, so that where all wait there is a pipe without a reader. For set-up: which descriptors and which
  ends of pipes each process holds, and which ways out of the code there are.

  Bounds. \<open>quota\<close>, the number of calls of \<open>malloc\<close> that succeed, is finite and not replenished by \<open>free\<close>: 31 are
  needed for a cube, 930 for a \<open>shuffle\<close> (at most 30 turns, each with a copy of the cube). The two
  loops of \<open>main\<close> without a bound, those of \<open>rubiks_view.c\<close> and \<open>run_client.c\<close>, run over a list of keys and a list of
  schedules, one for each round, both arbitrary; the threads' loops are steps without a bound. The capacity of
  the pipes is any number from 55 on, the length of a message.

  Not modelled. Semaphores have no greatest value. The threads of the server itself, seven in the end, are those of
  \<open>Server_Threads\<close>: in \<open>Server_Setup\<close> they are created, what they call before and after their loops stands by itself, and
  the end of the one that broadcasts, for which \<open>main\<close> waits, does not come. The data race on the displayed cube is
  one of whole accesses: each read and write of a square is atomic. Buffers are unbounded but in \<open>Full_Pipes\<close>, where a line is written whole or not at all.
  The system starts with all six clients accepted and the threads at their loops. A client-facing
  process that outlives the server goes on to write into its pipe: the end to read is inherited by the other
  such processes, too (C33), so this is what happens as long as there is one more; that the last one
  would be ended by \<open>SIGPIPE\<close> is left out. The two threads of a client-facing process share the descriptor of the
  socket; in the system only the one that listens to the socket comes to its end and closes it, when the
  client has ended and what the other one writes is lost. The release of the server object by a listener's
  arguments and the release of memory that is not a cube are calls without an effect on the model's memory.
  \<open>pthread_mutex_init\<close>, \<open>sem_init\<close> and \<open>endwin\<close> have no failure here. What the client-facing processes print is
  left out. The tests of sockets, which ask the kernel for the options of a socket, and the build files are not
  modelled.
\<close>

section \<open>The whole system\<close>

lemma demo_start:
  "\<exists>h p a. start_ok h p (replicate N_FACES a) \<and> fresh_client a \<and> update_view_semaphore a = 0"
proof -
  have "31 \<le> quota (init_mem 5000)" by (simp add: init_mem_def)
  from make_client_ok [OF init_empty this] obtain a where "fresh_client a \<and> update_view_semaphore a = 0"
    by (auto simp: fresh_client_def)
  moreover obtain h p where "cube_in h p solved_val" using demo_cube by blast
  ultimately show ?thesis by (auto simp: start_ok_def)
qed

text \<open>The first client presses the key 0.\<close>

lemma demo_key:
  assumes "start_ok h p (replicate N_FACES a)" and "fresh_client a"
  shows "\<exists>s. system_run pf sg (system_start [] h p (replicate N_FACES a)) [(0, KEY_0)] s \<and>
    system_reachable pf sg (system_start [] h p (replicate N_FACES a)) s \<and>
    outside_step (system_start [] h p (replicate N_FACES a)) s \<and>
    clients s ! 0 = (client_start (a\<lparr>cube_face_id := Some 0\<rparr>))\<lparr>keyer := At_Post\<rparr> \<and> sizes s \<and>
    server s = server_start [] h p \<and> \<not> facing_gone s ! 0 \<and>
    s = set_client 0 ((client_start (a\<lparr>cube_face_id := Some 0\<rparr>))\<lparr>keyer := At_Post\<rparr>)
      (system_start [] h p (replicate N_FACES a))"
proof -
  let ?init = "system_start [] h p (replicate N_FACES a)"
  let ?s1 = "set_client 0 (key_step KEY_0 (clients ?init ! 0)) ?init"
  let ?c = "(client_start (a\<lparr>cube_face_id := Some 0\<rparr>))\<lparr>keyer := At_Post\<rparr>"
  have k: "clients ?init ! 0 = client_start a" by (simp add: system_start_def)
  have step: "outside_step ?init ?s1" by (rule outside_step.key) (simp_all add: k client_start_def)
  have run: "system_run pf sg ?init ([] @ [(0, KEY_0)]) ?s1"
    by (rule system_run.run_key [OF system_run.run_start]) (simp_all add: k client_start_def)
  note r = run_reachable [OF run]
  have "key_step KEY_0 (client_start a) = ?c"
    by (simp add: key_step_def run_args_def choose_face_def prog_simps client_start_def)
  then have s1: "?s1 = set_client 0 ?c ?init" by (simp add: k)
  have "clients (set_client 0 ?c ?init) ! 0 = ?c" by (simp add: set_client_def system_start_def)
  moreover have "sizes (set_client 0 ?c ?init) \<and> server (set_client 0 ?c ?init) = server_start [] h p \<and>
      \<not> facing_gone (set_client 0 ?c ?init) ! 0"
    by (simp add: sizes_def set_client_def system_start_def)
  ultimately show ?thesis using step r run unfolding s1 by auto
qed

text \<open>C8. Nothing is lost, duplicated or reordered on the way: what a client has received is a prefix, in whole
  messages, of what the server has written for it, each the line of a cube that can be solved; and what
  the server has been given from a client is a prefix, in whole lines, of the commands the client sent.\<close>

theorem messages_stay_in_order:
  assumes "rng_ok (rand_r pf)" and "start_ok h p as" and "system_reachable pf sg (system_start fds h p as) s"
    and "i < N_FACES"
  shows "\<exists>Vs Ws xs ys. prefix Ws Vs \<and> prefix ys xs \<and>
    (\<forall>V\<in>set Vs. solvable V) \<and> (\<forall>x\<in>set xs. command_key x) \<and>
    written (to_client (server s) ! i) = concat (map cube_line Vs) \<and>
    written (inbox (clients s ! i)) = concat (map cube_line Ws) \<and>
    socket_out (args (clients s ! i)) = concat (map command_line xs) \<and>
    written (to_server (server s) ! i) = concat (map command_line ys)"
  using messages_in_order [OF start_ok_inv [OF assms(1-3)] assms(4)] by blast

text \<open>The first client chooses the face 0 and presses a several times.\<close>

lemma demo_presses:
  assumes st: "start_ok h p (replicate N_FACES a)" and a: "fresh_client a"
  shows "\<exists>b. system_run pf sg (system_start [] h p (replicate N_FACES a)) ((0, KEY_0) # replicate n (0, KEY_a))
      (set_client 0 (client_start b) (system_start [] h p (replicate N_FACES a))) \<and>
    client_ok b solved_val \<and> cube_face_id b = Some (int 0) \<and>
    socket_out b = concat (replicate n (command_line (KEY_a, 0)))"
proof (induction n)
  case 0
  let ?init = "system_start [] h p (replicate N_FACES a)"
  let ?a = "a\<lparr>cube_face_id := Some 0\<rparr>"
  let ?b = "?a\<lparr>update_view_semaphore := update_view_semaphore a + 1\<rparr>"
  obtain s where r: "system_run pf sg ?init [(0, KEY_0)] s"
    and s: "s = set_client 0 ((client_start ?a)\<lparr>keyer := At_Post\<rparr>) ?init"
    using demo_key [OF assms] by blast
  have k: "clients s ! 0 = (client_start ?a)\<lparr>keyer := At_Post\<rparr>" by (simp add: s set_client_def system_start_def)
  have "client_internal sg (clients s ! 0) (client_start ?b)"
    by (rule client_internal.post)
      (simp_all add: k post_step_def run_args_def sem_post_def prog_simps client_start_def)
  then have "system_step pf sg s (set_client 0 (client_start ?b) s)" by (intro system_step.client) simp_all
  moreover have "set_client 0 (client_start ?b) s = set_client 0 (client_start ?b) ?init"
    by (simp add: s set_client_def)
  ultimately have "system_run pf sg ?init [(0, KEY_0)] (set_client 0 (client_start ?b) ?init)"
    using system_run.run_step [OF r] by simp
  moreover have "client_ok ?b solved_val" using a by (simp add: fresh_client_def client_ok_def)
  ultimately show ?case using a by (intro exI [of _ ?b]) (simp add: fresh_client_def)
next
  case (Suc n)
  let ?init = "system_start [] h p (replicate N_FACES a)" and ?L = "command_line (KEY_a, 0)"
  obtain b where r: "system_run pf sg ?init ((0, KEY_0) # replicate n (0, KEY_a)) (set_client 0 (client_start b) ?init)"
    and b: "client_ok b solved_val" "cube_face_id b = Some (int 0)" "socket_out b = concat (replicate n ?L)"
    using Suc.IH by blast
  let ?s = "set_client 0 (client_start b) ?init"
  let ?b = "b\<lparr>msg := map Some ?L @ [Some nul], socket_out := fputs ?L (socket_out b)\<rparr>"
  have k: "clients ?s ! 0 = client_start b" by (simp add: set_client_def system_start_def)
  have "system_run pf sg ?init (((0, KEY_0) # replicate n (0, KEY_a)) @ [(0, KEY_a)])
      (set_client 0 (key_step KEY_a (clients ?s ! 0)) ?s)"
    by (rule system_run.run_key [OF r]) (simp, unfold k, simp_all add: client_start_def)
  moreover have "key_step KEY_a (client_start b) = client_start ?b"
    using press_key_command [OF b(1,2), of KEY_a]
    by (simp add: key_step_def run_args_def client_start_def)
  ultimately have "system_run pf sg ?init ((0, KEY_0) # replicate (Suc n) (0, KEY_a)) (set_client 0 (client_start ?b) ?init)"
    by (simp add: k replicate_append_same) (simp add: set_client_def)
  moreover have "concat (replicate n ?L) @ ?L = concat (replicate (Suc n) ?L)"
    by (simp add: replicate_append_same [symmetric] del: replicate_append_same)
  moreover have "client_ok ?b solved_val" using b by (simp add: client_ok_def command_line_def)
  ultimately show ?case using b by (intro exI [of _ ?b]) (simp add: fputs_def)
qed

lemma demo_commands:
  assumes "start_ok h p (replicate N_FACES a)" and "fresh_client a"
  shows "\<exists>b. system_reachable pf sg (system_start [] h p (replicate N_FACES a))
      (set_client 0 (client_start b) (system_start [] h p (replicate N_FACES a))) \<and>
    client_ok b solved_val \<and> cube_face_id b = Some (int 0) \<and>
    socket_out b = concat (replicate n (command_line (KEY_a, 0)))"
  using demo_presses [OF assms] run_reachable by blast

lemma demo_command:
  "\<exists>h p as s. start_ok h p as \<and> system_reachable demo_platform True (system_start [] h p as) s \<and>
    socket_out (args (clients s ! 0)) = command_line (KEY_a, 0) \<and> stopped (clients s ! 0) = None"
proof -
  obtain h p a where st: "start_ok h p (replicate N_FACES a)" and a: "fresh_client a" using demo_start by blast
  let ?init = "system_start [] h p (replicate N_FACES a)"
  obtain b where r: "system_reachable demo_platform True ?init (set_client 0 (client_start b) ?init)"
    and b: "socket_out b = command_line (KEY_a, 0)"
    using demo_commands [OF st a, of demo_platform True 1] by auto
  have "clients (set_client 0 (client_start b) ?init) ! 0 = client_start b"
    by (simp add: set_client_def system_start_def)
  then have "socket_out (args (clients (set_client 0 (client_start b) ?init) ! 0)) = command_line (KEY_a, 0) \<and>
      stopped (clients (set_client 0 (client_start b) ?init) ! 0) = None"
    by (simp add: client_start_def b)
  with st r show ?thesis by blast
qed

theorem messages_stay_in_order_witness:
  "\<exists>h p as s ys xs. system_reachable demo_platform True (system_start [] h p as) s \<and>
    socket_out (args (clients s ! 0)) = command_line (KEY_a, 0) \<and> prefix ys xs \<and>
    socket_out (args (clients s ! 0)) = concat (map command_line xs) \<and>
    written (to_server (server s) ! 0) = concat (map command_line ys)"
proof -
  obtain h p as s where st: "start_ok h p as" and r: "system_reachable demo_platform True (system_start [] h p as) s"
    and out: "socket_out (args (clients s ! 0)) = command_line (KEY_a, 0)" using demo_command by blast
  from messages_stay_in_order [OF demo_rng st r, of 0] r out show ?thesis by fastforce
qed

text \<open>C3. At rest all agree. When no thread of the system can make a step and the server has not crashed, there
  is one cube, the server's, that can be solved; every client process that runs holds this cube, all its
  commands have been taken by the server, and if a face has been chosen and the client has not been left,
  the last thing drawn on its screen is that face of that cube.\<close>

theorem agreement_at_rest:
  assumes "rng_ok (rand_r pf)" and "start_ok h p as" and "system_reachable pf sg (system_start fds h p as) s"
    and "system_stuck pf sg s" and "crashed (server s) = None"
  shows "\<exists>V. cube_in (server_mem (server s)) (global_cube_state (server s)) V \<and> solvable V \<and>
    (\<forall>i<N_FACES. stopped (clients s ! i) = None \<longrightarrow>
      cube_in (client_mem (args (clients s ! i))) (cube_state_to_display (args (clients s ! i))) V \<and>
      written (to_server (server s) ! i) = socket_out (args (clients s ! i)) \<and>
      unread (to_server (server s) ! i) = [] \<and>
      (\<forall>f. cube_face_id (args (clients s ! i)) = Some f \<longrightarrow> keyer (clients s ! i) \<noteq> Left \<longrightarrow>
        ends_with (client_screen (args (clients s ! i))) (drawing True (\<lambda>k. view V (nat f, k)) 9)))"
proof -
  have inv: "system_inv sg s" by (rule start_ok_inv [OF assms(1-3)])
  then obtain V where V: "server_inv V (server s)" by (auto simp: system_inv_def)
  then have "cube_in (server_mem (server s)) (global_cube_state (server s)) V \<and> solvable V"
    by (simp add: server_inv_def holds_def)
  moreover have "cube_in (client_mem (args (clients s ! i))) (cube_state_to_display (args (clients s ! i))) V"
    if "i < N_FACES" "stopped (clients s ! i) = None" for i
    using rest_down(1) [OF V inv assms(4,5) that] by (simp add: client_ok_def)
  moreover note rest_up [OF inv assms(4,5)] rest_shown [OF V inv assms(4,5)]
  ultimately show ?thesis by blast
qed

text \<open>With nothing pressed, nothing moves.\<close>

lemma demo_stuck:
  assumes a: "fresh_client a" and sem: "update_view_semaphore a = 0"
  shows "system_stuck pf sg (system_start fds h p (replicate N_FACES a))"
proof -
  let ?s = "system_start fds h p (replicate N_FACES a)"
  have c: "clients ?s ! i = client_start a" if "i < N_FACES" for i using that by (simp add: system_start_def)
  have empty: "pipe_getline q = None \<and> \<not> at_eof q" if "written q = []" "\<not> closed q" for q
    using that by (simp add: pipe_getline_def at_eof_def unread_def)
  have out: "pipe_getline (outbox (client_start a)) = None \<and> \<not> at_eof (outbox (client_start a))"
    using a by (intro empty) (simp_all add: outbox_def client_start_def fresh_client_def)
  have fresh: "pipe_getline fresh_pipe = None \<and> \<not> at_eof fresh_pipe"
    by (intro empty) (simp_all add: fresh_pipe_def)
  have "listener_step pf now i (server ?s) = None" if "i < N_FACES" for now i
    using that fresh by (simp add: listener_step_def listener_read_def system_start_def server_start_def at_eof_def)
  moreover have "broadcast_step (server ?s) = None"
    by (simp add: broadcast_step_def system_start_def server_start_def)
  moreover have "\<not> client_internal sg (clients ?s ! i) c'" if "i < N_FACES" for i c'
    unfolding c [OF that] using fresh sem
    by (auto simp: client_start_def post_step_def receiver_step_def viewer_step_def elim!: client_internalE)
  moreover have "pipe_reader_step i ?s = None \<and> socket_reader_step i ?s = None" if "i < N_FACES" for i
    using that fresh out
    by (simp add: pipe_reader_step_def socket_reader_step_def relay_step_def c)
      (simp add: system_start_def server_start_def relay_step_def)
  moreover have "\<not> no_writer i ?s \<and> \<not> no_reader i ?s \<and> (\<forall>l. pipe_readers ?s ! i \<noteq> Carrying l)" if "i < N_FACES" for i
    using that by (simp add: no_writer_def no_reader_def system_start_def)
  ultimately show ?thesis
    unfolding system_stuck_def by (auto elim!: system_stepE internal_stepE)
qed

theorem agreement_at_rest_witness:
  "\<exists>h p a V. system_stuck demo_platform True (system_start [] h p (replicate N_FACES a)) \<and>
    solvable V \<and> cube_in h p V \<and> cube_in (client_mem a) (cube_state_to_display a) V"
proof -
  obtain h p a where st: "start_ok h p (replicate N_FACES a)" and a: "fresh_client a"
    and sem: "update_view_semaphore a = 0" using demo_start by blast
  let ?s = "system_start [] h p (replicate N_FACES a)"
  have c: "clients ?s ! 0 = client_start a" by (simp add: system_start_def)
  have cr: "crashed (server ?s) = None" by (simp add: system_start_def server_start_def)
  note k = demo_stuck [OF a sem, where pf = demo_platform and sg = True and fds = "[]" and h = h and p = p]
  obtain V where V: "cube_in (server_mem (server ?s)) (global_cube_state (server ?s)) V" "solvable V"
    and all: "\<forall>i<N_FACES. stopped (clients ?s ! i) = None \<longrightarrow>
      cube_in (client_mem (args (clients ?s ! i))) (cube_state_to_display (args (clients ?s ! i))) V"
    using agreement_at_rest [OF demo_rng st system_reachable.start k cr] by blast
  have "stopped (clients ?s ! 0) = None" unfolding c by (simp add: client_start_def)
  then have "cube_in (client_mem (args (clients ?s ! 0))) (cube_state_to_display (args (clients ?s ! 0))) V"
    using all [rule_format, of 0] by simp
  then have "cube_in (client_mem a) (cube_state_to_display a) V" unfolding c by (simp add: client_start_def)
  moreover have "cube_in h p V" using V(1) by (simp add: system_start_def server_start_def)
  ultimately show ?thesis using k V(2) by blast
qed

text \<open>C13. From the two \<open>main\<close> functions to agreement. Let the server have been set up by \<open>server_setup\<close> and the six
  clients' data been made by \<open>make_client_thread_args\<close>. Whatever keys are pressed and however the threads run
  from there: when nothing can move any more and the server has not crashed, the server and all clients that run
  hold the same cube, and it can be solved.\<close>

theorem program_agrees_at_rest:
  assumes "posix k" and "\<forall>cs. ret (k cs (Malloc ''echo_server'')) \<noteq> 0"
    and "wf_mem (process_mem p)" and "31 \<le> quota (process_mem p)"
    and "server_setup k htons p = Inr (srv, p')"
    and "length as = N_FACES"
    and "\<forall>a\<in>set as. \<exists>g. empty_mem g \<and> 31 \<le> quota g \<and> make_client_thread_args True True True g = Inr a"
    and "rng_ok (rand_r pf)"
    and "system_reachable pf sg
      (system_start (map (server_writes srv) [0..<N_FACES]) (process_mem p') (cube_object srv) as) s"
    and "system_stuck pf sg s" and "crashed (server s) = None"
  shows "\<exists>V. solvable V \<and> cube_in (server_mem (server s)) (global_cube_state (server s)) V \<and>
    (\<forall>i<N_FACES. stopped (clients s ! i) = None \<longrightarrow>
      cube_in (client_mem (args (clients s ! i))) (cube_state_to_display (args (clients s ! i))) V)"
proof -
  have "cube_in (process_mem p') (cube_object srv) solved_val"
    using server_setup_roe [OF assms(1) assms(2) [rule_format] assms(3,4), of htons] assms(5)
    by (simp add: returns_or_exits_def)
  moreover have "fresh_client a" if "a \<in> set as" for a
    using assms(7) that make_client_ok by (fastforce simp: fresh_client_def)
  ultimately have st: "start_ok (process_mem p') (cube_object srv) as" using assms(6) by (simp add: start_ok_def)
  have inv: "system_inv sg s" by (rule start_ok_inv [OF assms(8) st assms(9)])
  then obtain V where V: "server_inv V (server s)" by (auto simp: system_inv_def)
  then have "solvable V \<and> cube_in (server_mem (server s)) (global_cube_state (server s)) V"
    by (simp add: server_inv_def holds_def)
  moreover have "cube_in (client_mem (args (clients s ! i))) (cube_state_to_display (args (clients s ! i))) V"
    if "i < N_FACES" "stopped (clients s ! i) = None" for i
    using rest_down(1) [OF V inv assms(10,11) that] by (simp add: client_ok_def)
  ultimately show ?thesis by blast
qed

theorem program_agrees_at_rest_witness:
  "\<exists>srv p' a s V. server_setup demo_kernel id demo_process = Inr (srv, p') \<and>
    s = system_start (map (server_writes srv) [0..<N_FACES]) (process_mem p') (cube_object srv) (replicate N_FACES a) \<and>
    solvable V \<and> cube_in (server_mem (server s)) (global_cube_state (server s)) V \<and>
    cube_in (client_mem (args (clients s ! 0))) (cube_state_to_display (args (clients s ! 0))) V"
proof -
  have m: "\<forall>cs. ret (demo_kernel cs (Malloc ''echo_server'')) \<noteq> 0" by (simp add: demo_kernel_def)
  have q: "31 \<le> quota (process_mem demo_process)" by (simp add: demo_process_ok)
  have "runs_to (server_setup demo_kernel id) demo_process (\<lambda>_ _. True)"
    using server_setup_roe [OF demo_posix m [rule_format] demo_process_ok(1) q, of id]
      server_setup_never_exits [OF demo_obliging demo_process_ok(1) q] by (intro roe_returns) (auto elim!: roe_mono)
  then obtain srv p' where r: "server_setup demo_kernel id demo_process = Inr (srv, p')" by (auto elim!: runs_toE)
  have g: "empty_mem (init_mem 5000)" "31 \<le> quota (init_mem 5000)" using init_empty by (simp_all add: init_mem_def)
  obtain a where a: "make_client_thread_args True True True (init_mem 5000) = Inr a" "fresh_client a"
    and sem: "update_view_semaphore a = 0" using make_client_ok [OF g] by (auto simp: fresh_client_def)
  let ?s = "system_start (map (server_writes srv) [0..<N_FACES]) (process_mem p') (cube_object srv) (replicate N_FACES a)"
  have as: "length (replicate N_FACES a) = N_FACES" "\<forall>b\<in>set (replicate N_FACES a). \<exists>g. empty_mem g \<and> 31 \<le> quota g \<and>
      make_client_thread_args True True True g = Inr b"
    using a(1) g by auto
  have k: "system_stuck demo_platform True ?s" by (rule demo_stuck [OF a(2) sem])
  have cr: "crashed (server ?s) = None" by (simp add: system_start_def server_start_def)
  have c: "stopped (clients ?s ! 0) = None" by (simp add: system_start_def client_start_def)
  from program_agrees_at_rest [OF demo_posix m demo_process_ok(1) q r as demo_rng system_reachable.start k cr] c
  obtain V where V: "solvable V" "cube_in (server_mem (server ?s)) (global_cube_state (server ?s)) V"
    "cube_in (client_mem (args (clients ?s ! 0))) (cube_state_to_display (args (clients ?s ! 0))) V" by auto
  show ?thesis
    by (rule exI [of _ srv], rule exI [of _ p'], rule exI [of _ a], rule exI [of _ ?s], rule exI [of _ V])
      (use r V in blast)
qed

text \<open>C7. The system comes to rest: from every reachable state a run without further keys leads to a state in
  which no thread can make a step, and there is no infinite run, whatever the scheduler does.\<close>

theorem system_comes_to_rest:
  assumes "rng_ok (rand_r pf)" and "start_ok h p as" and "system_reachable pf sg (system_start fds h p as) s"
  shows "(\<exists>s'. (system_step pf sg)\<^sup>*\<^sup>* s s' \<and> system_stuck pf sg s') \<and>
    \<not> (\<exists>run. run 0 = s \<and> (\<forall>n. system_step pf sg (run n) (run (Suc n))))"
proof -
  have inv: "system_inv sg s" by (rule start_ok_inv [OF assms])
  then show ?thesis
    using system_settles [OF assms(1) inv] system_terminates [OF assms(1)] by blast
qed

theorem system_comes_to_rest_witness:
  "\<exists>h p as s s'. system_reachable demo_platform True (system_start [] h p as) s \<and>
    socket_out (args (clients s ! 0)) = command_line (KEY_a, 0) \<and>
    (system_step demo_platform True)\<^sup>*\<^sup>* s s' \<and> system_stuck demo_platform True s'"
proof -
  obtain h p as s where st: "start_ok h p as" and r: "system_reachable demo_platform True (system_start [] h p as) s"
    and out: "socket_out (args (clients s ! 0)) = command_line (KEY_a, 0)" using demo_command by blast
  with system_comes_to_rest [OF demo_rng st r] show ?thesis by blast
qed

text \<open>C28. What clients send never brings the server down: as long as there is memory for a shuffle, and the process
  of the client that was accepted first (which holds the reading ends of all pipes) has not been ended,
  no step of any thread of the system crashes the server (which arbitrary text from elsewhere can).\<close>

theorem system_keeps_running:
  assumes "rng_ok (rand_r pf)" and "start_ok h p as" and "system_reachable pf sg (system_start fds h p as) s"
    and "system_step pf sg s s'" and "crashed (server s) = None" and "930 \<le> quota (server_mem (server s))"
    and "\<not> facing_gone s ! 0"
  shows "crashed (server s') = None"
proof (rule ccontr)
  assume "crashed (server s') \<noteq> None"
  then obtain e where e: "crashed (server s') = Some e" by blast
  have inv: "system_inv sg s" by (rule start_ok_inv [OF assms(1-3)])
  from system_step_server [OF inv assms(4)] show False
  proof (elim disjE)
    assume "internal_step pf (server s) (server s')"
    from system_crash_cause [OF inv assms(1) this e] assms(6,7) show False by simp
  next
    assume "env_step (server s) (server s')"
    then show False using e assms(5) by (elim env_stepE) simp_all
  qed (use e assms(5) in simp)
qed

theorem system_keeps_running_witness:
  "\<exists>h p as s s'. system_reachable demo_platform True (system_start [] h p as) s \<and>
    system_step demo_platform True s s' \<and> s' \<noteq> s \<and> crashed (server s') = None"
proof -
  obtain h p where c: "cube_in h p solved_val" and q: "quota h = 4969" using demo_cube by blast
  obtain a where a: "fresh_client a" using demo_start by blast
  have st: "start_ok h p (replicate N_FACES a)" using c a by (simp add: start_ok_def)
  from demo_key [OF st a] obtain s
    where r: "system_reachable demo_platform True (system_start [] h p (replicate N_FACES a)) s"
      and k: "clients s ! 0 = (client_start (a\<lparr>cube_face_id := Some 0\<rparr>))\<lparr>keyer := At_Post\<rparr>" and sz: "sizes s"
      and sv: "server s = server_start [] h p" and g: "\<not> facing_gone s ! 0" by blast
  obtain c' where c': "post_step (clients s ! 0) = Some c'" "keyer c' = At_Getch"
    by (simp add: k post_step_def run_args_def sem_post_def prog_simps)
  have "stopped (clients s ! 0) = None" by (simp add: k client_start_def)
  then have step: "system_step demo_platform True s (set_client 0 c' s)"
    using c'(1) by (intro system_step.client client_internal.post) simp_all
  have "keyer (clients (set_client 0 c' s) ! 0) \<noteq> keyer (clients s ! 0)"
    using c'(2) sz by (simp add: clients_set_client k)
  then have ne: "set_client 0 c' s \<noteq> s" by metis
  have "crashed (server s) = None" "930 \<le> quota (server_mem (server s))" by (simp_all add: sv server_start_def q)
  from system_keeps_running [OF demo_rng st r step this g] r step ne show ?thesis by blast
qed

text \<open>C30. Unless its user ends it by \<open>SIGINT\<close>, the only fault of a client process in the system is its use of the
  face number before one has been chosen: by a command key, or by the picture for a message that has
  come in.\<close>

theorem client_faults_without_face:
  assumes "rng_ok (rand_r pf)" and "start_ok h p as" and "system_reachable pf sg (system_start fds h p as) s"
    and "system_step pf sg s s' \<or> outside_step s s'" and "i < N_FACES"
    and "stopped (clients s ! i) = None" and "stopped (clients s' ! i) = Some e"
  shows "(cube_face_id (args (clients s ! i)) = None \<and> e = Indeterminate) \<or> e = Signal ''SIGINT''"
  by (rule client_fault_cause [OF start_ok_inv [OF assms(1-3)] assms(4-7)])

theorem client_faults_without_face_witness:
  "\<exists>h p as s. outside_step (system_start [] h p as) s \<and> stopped (clients s ! 0) = Some Indeterminate \<and>
    cube_face_id (args (clients (system_start [] h p as) ! 0)) = None"
proof -
  obtain h p a where st: "start_ok h p (replicate N_FACES a)" and a: "fresh_client a" using demo_start by blast
  let ?init = "system_start [] h p (replicate N_FACES a)"
  have k: "clients ?init ! 0 = client_start a" by (simp add: system_start_def)
  have run: "stopped (clients ?init ! 0) = None" and g: "keyer (clients ?init ! 0) = At_Getch"
    unfolding k by (simp_all add: client_start_def)
  let ?s1 = "set_client 0 (key_step KEY_a (clients ?init ! 0)) ?init"
  have step: "outside_step ?init ?s1" by (rule outside_step.key [OF _ run g]) simp
  have "cube_face_id a = None" using a by (simp add: fresh_client_def)
  from press_key_indeterminate [OF this, of KEY_a]
  have "stopped (key_step KEY_a (client_start a)) = Some Indeterminate"
    by (simp add: key_step_def run_args_def client_start_def)
  then have e: "stopped (clients ?s1 ! 0) = Some Indeterminate"
    by (simp add: set_client_def system_start_def)
  have d: "system_step demo_platform True ?init ?s1 \<or> outside_step ?init ?s1" using step by blast
  from client_faults_without_face [OF demo_rng st system_reachable.start d _ run e] step e show ?thesis by auto
qed

text \<open>The first client presses 0 and twice a, its commands are carried out, and it is lost.\<close>

lemma demo_lost:
  "\<exists>h p as s0 s1 s2 s3 V W. start_ok h p as \<and>
    system_run demo_platform True (system_start [] h p as) [(0, KEY_0), (0, KEY_a), (0, KEY_a)] s0 \<and>
    server s0 = server_start [] h p \<and> cube_face_id (args (clients s0 ! 0)) = Some 0 \<and>
    socket_out (args (clients s0 ! 0)) = command_line (KEY_a, 0) @ command_line (KEY_a, 0) \<and>
    obeys (key_command KEY_a 0) solved_val V \<and> obeys (key_command KEY_a 0) V W \<and>
    (system_step demo_platform True)\<^sup>*\<^sup>* s0 s1 \<and> map written (to_client (server s1)) = replicate N_FACES (cube_line V) \<and>
    pipe_readers s1 ! 0 = Carrying (cube_line V) \<and>
    (system_step demo_platform True)\<^sup>*\<^sup>* s1 s2 \<and> broadcaster (server s2) = Sending (cube_line W) 0 \<and>
    pipe_readers s2 ! 0 = Carrying (cube_line V) \<and> outside_step s2 (ended_by_user s2) \<and>
    (system_step demo_platform True)\<^sup>*\<^sup>* (ended_by_user s2) s3 \<and> facing_gone s3 = (facing_gone s2)[0 := True] \<and>
    stopped (clients s3 ! 0) = Some (Signal ''SIGINT'') \<and> tl (clients s3) = map client_start (tl as) \<and>
    crashed (server s3) = Some (Signal ''SIGPIPE'')"
proof -
  obtain h p where c: "cube_in h p solved_val" and q: "quota h = 4969" using demo_cube by blast
  obtain a where a: "fresh_client a" using demo_start by blast
  have st: "start_ok h p (replicate N_FACES a)" using c a by (simp add: start_ok_def)
  let ?init = "system_start [] h p (replicate N_FACES a)" and ?x = "(KEY_a, 0) :: int \<times> nat"
  obtain b where r: "system_run demo_platform True ?init [(0, KEY_0), (0, KEY_a), (0, KEY_a)] (set_client 0 (client_start b) ?init)"
    and b: "socket_out b = concat (map command_line [?x, ?x])" "cube_face_id b = Some 0"
    using demo_presses [OF st a, of demo_platform True 2] by (auto simp: numeral_2_eq_2)
  let ?s = "set_client 0 (client_start b) ?init"
  have k: "clients ?s ! 0 = client_start b" by (simp add: set_client_def system_start_def)
  have ch: "commands.channel (outbox (clients ?s ! 0)) [?x, ?x] 0"
    using b unfolding k by (simp add: carries_def outbox_def client_start_def command_key_def)
  have calm: "calm ?s"
    unfolding calm_def k by (simp add: set_client_def system_start_def server_start_def client_start_def)
  have quota: "1860 \<le> quota (server_mem (server ?s))" and hold: "holds solved_val (server ?s)"
    using q c solvable_solved by (simp_all add: set_client_def system_start_def server_start_def holds_def)
  have cmd: "command_of (signed_char demo_platform) (command_line ?x) = key_command KEY_a 0"
    by (rule command_of_line(1)) simp_all
  obtain V W s1 s2 s3 where ob: "obeys (key_command KEY_a 0) solved_val V" "obeys (key_command KEY_a 0) V W"
    and run: "(system_step demo_platform True)\<^sup>*\<^sup>* ?s s1" "map written (to_client (server s1)) = replicate N_FACES (cube_line V)"
      "pipe_readers s1 ! 0 = Carrying (cube_line V)" "(system_step demo_platform True)\<^sup>*\<^sup>* s1 s2"
      "broadcaster (server s2) = Sending (cube_line W) 0" "pipe_readers s2 ! 0 = Carrying (cube_line V)"
      "outside_step s2 (ended_by_user s2)" "(system_step demo_platform True)\<^sup>*\<^sup>* (ended_by_user s2) s3"
      "facing_gone s3 = (facing_gone s2)[0 := True]" "crashed (server s3) = Some (Signal ''SIGPIPE'')"
    and cl: "clients s3 = (clients ?s)[0 := clients s3 ! 0]" "stopped (clients s3 ! 0) = Some (Signal ''SIGINT'')"
    using lost_client_run [OF start_ok_inv [OF demo_rng st run_reachable [OF r]] demo_rng calm ch quota hold] unfolding cmd by blast
  have "tl (clients s3) = map client_start (tl (replicate N_FACES a))"
    by (subst cl(1)) (simp add: set_client_def system_start_def eval_nat_numeral)
  moreover have "server ?s = server_start [] h p" by (simp add: set_client_def system_start_def)
  moreover have "cube_face_id (args (clients ?s ! 0)) = Some 0"
    "socket_out (args (clients ?s ! 0)) = command_line (KEY_a, 0) @ command_line (KEY_a, 0)"
    unfolding k using b by (simp_all add: client_start_def)
  ultimately show ?thesis using st r ob run cl(2) by blast
qed

lemma demo_broadcast:
  "\<exists>h p as s V. start_ok h p as \<and>
    system_run demo_platform True (system_start [] h p as) [(0, KEY_0), (0, KEY_a), (0, KEY_a)] s \<and>
    obeys (key_command KEY_a 0) solved_val V \<and> written (to_client (server s) ! 5) = cube_line V"
proof -
  obtain h p as s0 s V where st: "start_ok h p as"
    and r: "system_run demo_platform True (system_start [] h p as) [(0, KEY_0), (0, KEY_a), (0, KEY_a)] s0"
      "(system_step demo_platform True)\<^sup>*\<^sup>* s0 s"
    and V: "obeys (key_command KEY_a 0) solved_val V" "map written (to_client (server s)) = replicate N_FACES (cube_line V)"
    using demo_lost by blast
  have "length (to_client (server s)) = N_FACES" using arg_cong [OF V(2), of length] by simp
  then have "written (to_client (server s) ! 5) = cube_line V" using arg_cong [OF V(2), of "\<lambda>xs. xs ! 5"] by simp
  then show ?thesis using st V(1) run_steps [OF r(2,1)] by blast
qed

text \<open>C31. A client that is ended by its user can take the server with it. In this run nothing but this comes from outside:
  the first client chooses the face 0 and presses a twice (\<open>s0\<close>). The first command is obeyed and the cube
  broadcast to all six, and client 0's process has the message in its hands (\<open>s1\<close>); the second one is obeyed, and the
  broadcaster is about to write the next message to client 0's pipe (\<open>s2\<close>). Now the user ends that client; the
  client-facing process is ended by \<open>SIGPIPE\<close> on its write to the socket, and the server by its write to the pipe
  that has lost its reader (\<open>s3\<close>). The other clients are as they were at the start.\<close>

theorem killed_client_stops_server:
  "\<exists>h p as s0 s1 s2 s3 V W. start_ok h p as \<and> system_reachable demo_platform True (system_start [] h p as) s0 \<and>
    server s0 = server_start [] h p \<and> cube_face_id (args (clients s0 ! 0)) = Some 0 \<and>
    socket_out (args (clients s0 ! 0)) = command_line (KEY_a, 0) @ command_line (KEY_a, 0) \<and>
    obeys (key_command KEY_a 0) solved_val V \<and> obeys (key_command KEY_a 0) V W \<and>
    (system_step demo_platform True)\<^sup>*\<^sup>* s0 s1 \<and> map written (to_client (server s1)) = replicate N_FACES (cube_line V) \<and>
    pipe_readers s1 ! 0 = Carrying (cube_line V) \<and>
    (system_step demo_platform True)\<^sup>*\<^sup>* s1 s2 \<and> broadcaster (server s2) = Sending (cube_line W) 0 \<and>
    pipe_readers s2 ! 0 = Carrying (cube_line V) \<and> outside_step s2 (ended_by_user s2) \<and>
    (system_step demo_platform True)\<^sup>*\<^sup>* (ended_by_user s2) s3 \<and> facing_gone s3 = (facing_gone s2)[0 := True] \<and>
    stopped (clients s3 ! 0) = Some (Signal ''SIGINT'') \<and> tl (clients s3) = map client_start (tl as) \<and>
    crashed (server s3) = Some (Signal ''SIGPIPE'')"
  using demo_lost run_reachable by blast

section \<open>One cube for all\<close>

text \<open>C11. Six players, one cube. Take any run of the whole system and the keys \<open>ks\<close> pressed in it. The server's cube is
  what comes of the solved one by carrying out commands one after the other (\<open>obeyed ops Vs\<close>: \<open>Vs\<close> are the cubes
  before and after each command of \<open>ops\<close>, the first one solved, each next one given by the turn, or the solving or
  shuffling, the command stands for). The commands that come from client \<open>i\<close> are, in their order, the first of
  those its keys stand for (for each a, d or space the key with the face of the last digit before it), and they are all
  whose lines (of three characters) its listener has taken, except the line it has in hand. The cubes the
  server sends are some of \<open>Vs\<close>, in this order, the same for all clients up to the one being sent; what a
  client has received are the first of them, and the cube it holds, when no message is being decoded,
  is one of those or the solved one.\<close>

theorem one_shared_cube:
  assumes "rng_ok (rand_r pf)" and "start_ok h p as" and "system_run pf sg (system_start fds h p as) ks s"
  shows "\<exists>ops Vs bs. obeyed ops Vs \<and> cube_in (server_mem (server s)) (global_cube_state (server s)) (last Vs) \<and>
    (\<forall>i<N_FACES. prefix (commands_by i ops) (commands_of (keys_of i ks)) \<and>
      taken (to_server (server s) ! i) = 3 * length (commands_by i ops) + length (in_hand (listeners (server s) ! i))) \<and>
    sorted bs \<and> (\<forall>b\<in>set bs. b < length Vs) \<and>
    (\<forall>i<N_FACES. \<exists>ms ns. prefix ns ms \<and> prefix ms bs \<and> length bs \<le> Suc (length ms) \<and>
      written (to_client (server s) ! i) = concat (map (\<lambda>b. cube_line (Vs ! b)) ms) \<and>
      written (inbox (clients s ! i)) = concat (map (\<lambda>b. cube_line (Vs ! b)) ns) \<and>
      ((\<forall>l k. receiver (clients s ! i) \<noteq> Decoding l k) \<longrightarrow> (\<exists>n. (n = 0 \<or> n \<in> set ns) \<and>
        cube_in (client_mem (args (clients s ! i))) (cube_state_to_display (args (clients s ! i))) (Vs ! n))))"
proof -
  obtain ops Vs bs where h: "history ops Vs bs (server s)" using started_history(1) [OF assms] by blast
  note inv = started_history(2) [OF assms]
  have "\<forall>i<N_FACES. prefix (commands_by i ops) (commands_of (keys_of i ks)) \<and>
      taken (to_server (server s) ! i) = 3 * length (commands_by i ops) + length (in_hand (listeners (server s) ! i))"
    using history_commands [OF h inv] history_taken [OF h] started_history(3) [OF assms] by blast
  moreover have "obeyed ops Vs" "cube_in (server_mem (server s)) (global_cube_state (server s)) (last Vs)"
    "sorted bs" "\<forall>b\<in>set bs. b < length Vs"
    using h by (simp_all add: history_def holds_def cast_of_def)
  moreover note history_received [OF h inv, unfolded cubes_at_def]
  ultimately show ?thesis by blast
qed

text \<open>The first client presses 0 and twice a, and the first command is carried out and broadcast.\<close>

theorem one_shared_cube_witness:
  "\<exists>h p as s ops Vs bs. start_ok h p as \<and>
    system_run demo_platform True (system_start [] h p as) [(0, KEY_0), (0, KEY_a), (0, KEY_a)] s \<and>
    written (to_client (server s) ! 5) = cube_line (apply_turn (0, False) solved_val) \<and>
    obeyed ops Vs \<and> ops \<noteq> [] \<and> prefix (commands_by 0 ops) [(KEY_a, 0), (KEY_a, 0)] \<and> commands_by 5 ops = [] \<and>
    cube_in (server_mem (server s)) (global_cube_state (server s)) (last Vs)"
proof -
  let ?x = "(KEY_a, 0) :: int \<times> nat" and ?ks = "[(0, KEY_0), (0, KEY_a), (0, KEY_a)] :: (nat \<times> int) list"
  obtain h p as s V where st: "start_ok h p as" and run: "system_run demo_platform True (system_start [] h p as) ?ks s"
    and V: "obeys (key_command KEY_a 0) solved_val V" "written (to_client (server s) ! 5) = cube_line V"
    using demo_broadcast by blast
  have turned: "V = apply_turn (0, False) solved_val" using V(1) by (simp add: obeys_def key_command_def)
  have keys: "commands_of (keys_of 0 ?ks) = [?x, ?x]" "commands_of (keys_of 5 ?ks) = []" by code_simp+
  obtain ops Vs bs ms where o: "obeyed ops Vs"
    "cube_in (server_mem (server s)) (global_cube_state (server s)) (last Vs)"
    "\<forall>i<N_FACES. prefix (commands_by i ops) (commands_of (keys_of i ?ks)) \<and>
      taken (to_server (server s) ! i) = 3 * length (commands_by i ops) + length (in_hand (listeners (server s) ! i))"
    "\<forall>b\<in>set bs. b < length Vs" "prefix ms bs"
    "written (to_client (server s) ! 5) = concat (map (\<lambda>b. cube_line (Vs ! b)) ms)"
  proof -
    have five: "5 < N_FACES" by simp
    show thesis using one_shared_cube [OF demo_rng st run] five that by meson
  qed
  have "ops \<noteq> []"
  proof
    assume "ops = []"
    then have Vs: "Vs ! 0 = solved_val" "length Vs = 1" using o(1) by (simp_all add: obeyed_def)
    have ms: "\<forall>b\<in>set ms. Vs ! b = solved_val" using o(4) set_mono_prefix [OF o(5)] Vs by fastforce
    have "solvable V" unfolding turned
      using solvable_turns [OF solvable_solved, of "[(0, False)]"] by (simp add: valid_turn_def)
    moreover have "concat (map cube_line (map ((!) Vs) ms)) = concat (map cube_line [V])"
      using o(6) V(2) by (simp add: o_def)
    ultimately have "map ((!) Vs) ms = [V]"
      using cube_lines_injective [of "map ((!) Vs) ms" "[V]"] ms solvable_solved by auto
    then have "V = solved_val" using ms by auto
    moreover have "V \<noteq> solved_val" unfolding turned by code_simp
    ultimately show False by contradiction
  qed
  moreover have "prefix (commands_by 0 ops) [?x, ?x]" "commands_by 5 ops = []"
    using o(3) [rule_format, of 0] o(3) [rule_format, of 5] keys by simp_all
  ultimately show ?thesis using st run V(2) o(1,2) unfolding turned by blast
qed

section \<open>Full pipes\<close>

text \<open>C17. Every command is answered by one broadcast to every client: in every reachable state the messages
  (of 55 characters) written to the pipe of a client and those that are still due (for a command that a
  listener works on, for a post of the semaphore, for the message in the broadcaster's hands) are
  together as many as the commands that the listeners have taken from their pipes.\<close>

theorem commands_answered_once:
  assumes "rng_ok (rand_r pf)" and "start_ok h p as" and "system_reachable pf sg (system_start fds h p as) s"
    and "k < N_FACES"
  shows "length (written (to_client (server s) ! k)) + 55 * due k (server s) = 55 * commands_taken (server s)"
  using accounts_reachable [OF assms(1) _ accounts_start assms(3)] system_inv_start assms(2,4)
  by (auto simp: start_ok_def accounts_def tally_def)

theorem commands_answered_once_witness:
  "\<exists>h p as s. system_reachable demo_platform True (system_start [] h p as) s \<and>
    socket_out (args (clients s ! 0)) = command_line (KEY_a, 0) \<and>
    length (written (to_client (server s) ! 5)) + 55 * due 5 (server s) = 55 * commands_taken (server s)"
proof -
  obtain h p as s where st: "start_ok h p as" and r: "system_reachable demo_platform True (system_start [] h p as) s"
    and out: "socket_out (args (clients s ! 0)) = command_line (KEY_a, 0)" using demo_command by blast
  from commands_answered_once [OF demo_rng st r, of 5] r out show ?thesis by auto
qed

text \<open>C14. Pipes and sockets that can be full do not make the threads wait for each other in a circle. Let each
  hold as many characters as one likes, but at least a message. Then, when no thread can make a step
  because a line would not fit, either no thread could make a step with pipes of any size (and C3 says
  that all agree), or the broadcaster waits for room in the pipe of a process that has ended, and that
  another process keeps from breaking.\<close>

theorem full_pipes_wait_for_readers:
  assumes "rng_ok (rand_r pf)" and "start_ok h p as" and "capped_reachable cap pf sg (system_start fds h p as) s"
    and "capped_stuck cap pf sg s" and "crashed (server s) = None" and "55 \<le> cap"
  shows "system_stuck pf sg s \<or> (\<exists>k. jammed cap s k)"
proof -
  note r = capped_reachable_system [OF assms(3)]
  then have "system_inv sg s" using start_ok_inv [OF assms(1,2)] by blast
  then show ?thesis using capped_stuck_cases r assms(4-6) by blast
qed

theorem full_pipes_wait_for_readers_witness:
  "\<exists>h p as. start_ok h p as \<and> capped_stuck 65536 demo_platform True (system_start [] h p as) \<and>
    (system_stuck demo_platform True (system_start [] h p as) \<or> (\<exists>k. jammed 65536 (system_start [] h p as) k))"
proof -
  obtain h p a where st: "start_ok h p (replicate N_FACES a)" and a: "fresh_client a"
    and sem: "update_view_semaphore a = 0" using demo_start by blast
  let ?s = "system_start [] h p (replicate N_FACES a)"
  have "system_stuck demo_platform True ?s" by (rule demo_stuck [OF a sem])
  then have k: "capped_stuck 65536 demo_platform True ?s" by (simp add: capped_stuck_def system_stuck_def capped_step_iff)
  have "fits 65536 ?s"
    by (rule fits_quiet) (use a in \<open>simp_all add: system_start_def fresh_client_def client_start_def fresh_pipe_def\<close>)
  then have r: "capped_reachable 65536 demo_platform True ?s ?s" by (rule capped_reachable.start)
  have "crashed (server ?s) = None" by (simp add: system_start_def server_start_def)
  from full_pipes_wait_for_readers [OF demo_rng st r k this] st k show ?thesis by auto
qed

text \<open>C32. That happens. Whatever the size of the pipes, there is a run after which the server stands and the first client
  plays, but, for as long as that client is not ended, no message is sent to anybody: at the end of every
  continuation the pipes to the clients hold what they held.\<close>

theorem full_pipe_stops_broadcasts:
  assumes "rng_ok (rand_r pf)" and "55 \<le> cap"
  shows "\<exists>h p as s k. start_ok h p as \<and> capped_reachable cap pf sg (system_start [] h p as) s \<and>
    crashed (server s) = None \<and> stopped (clients s ! 0) = None \<and>
    (\<forall>s'. capped_reachable cap pf sg s s' \<longrightarrow> stopped (clients s' ! 0) = None \<longrightarrow>
       jammed cap s' k \<and> (\<forall>i. written (to_client (server s') ! i) = written (to_client (server s) ! i)))"
proof -
  let ?n = "930 * (cap + 4) + 31"
  have "quota (init_mem ?n) = ?n" by (simp add: init_mem_def)
  then have "runs_to make_cube (init_mem ?n) (\<lambda>p h. sole h p solved_val \<and> ?n = quota h + 31)"
    using alone.make_law [OF init_empty, of ?n] by simp
  then obtain h p where "sole h p solved_val" and "?n = quota h + 31" by (auto elim!: runs_toE)
  then have c: "cube_in h p solved_val" and q: "930 * (cap + 4) \<le> quota h" using sole_cube_in by auto
  obtain a where a: "fresh_client a" using demo_start by blast
  have st: "start_ok h p (replicate N_FACES a)" using c a by (simp add: start_ok_def)
  let ?init = "system_start [] h p (replicate N_FACES a)"
  have "3 \<le> cap" using assms(2) by simp
  from playing_start [OF st a this assms(1)] obtain t where t: "capped_reachable cap pf sg ?init t"
    "playing cap sg (quota h) 1 t" "unserved t" by blast
  obtain s n k where s: "capped_reachable cap pf sg t s" "playing cap sg (quota h) n s" "jammed cap s k"
    using jam_found [OF assms q t(2,3)] by blast
  have inv: "system_inv sg s" and run: "crashed (server s) = None" "stopped (clients s ! 0) = None"
    using s(2) by (simp_all add: playing_def lone_def)
  have k: "0 < k" using s(3) running_there [OF inv _ run(2)] by (cases k) (auto simp: jammed_def)
  have "jammed cap s' k \<and> (\<forall>i. written (to_client (server s') ! i) = written (to_client (server s) ! i))"
    if s': "capped_reachable cap pf sg s s'" "stopped (clients s' ! 0) = None" for s'
  proof -
    have "\<not> facing_gone s' ! 0"
      using running_there [OF capped_reachable_inv [OF inv assms(1) s'(1)] _ s'(2)] by simp
    then show ?thesis using jam_stays [OF s(3) inv assms(1) s'(1) k] by blast
  qed
  with st run capped_reachable_trans [OF s(1) t(1)] show ?thesis by blast
qed

theorem full_pipe_stops_broadcasts_witness:
  "\<exists>h p as s k. capped_reachable 65536 demo_platform True (system_start [] h p as) s \<and>
    stopped (clients s ! 0) = None \<and> jammed 65536 s k"
proof -
  have "(55::nat) \<le> 65536" by simp
  from full_pipe_stops_broadcasts [OF demo_rng this, where sg = True] obtain h p as s k
    where r: "capped_reachable 65536 demo_platform True (system_start [] h p as) s"
    and run: "stopped (clients s ! 0) = None"
    and all: "\<forall>s'. capped_reachable 65536 demo_platform True s s' \<longrightarrow> stopped (clients s' ! 0) = None \<longrightarrow>
       jammed 65536 s' k \<and> (\<forall>i. written (to_client (server s') ! i) = written (to_client (server s) ! i))" by blast
  have "capped_reachable 65536 demo_platform True s s"
    using capped_reachable_system [OF r] by (blast intro: capped_reachable.start)
  with all run r show ?thesis by blast
qed

text \<open>C16. The small steps are those of the code: when no other thread comes in between, the steps that take a
  message from the socket, decode it and draw the picture are one call of \<open>receive_line\<close> and one of
  \<open>update_view\<close>, and the picture is the chosen face of the cube of the message.\<close>

theorem undisturbed_message_shown:
  assumes "client_ok (args c) W" and "cube_face_id (args c) = Some (int f)" and "stopped c = None"
    and "receiver c = At_Getline" and "viewer c = At_Wait" and "update_view_semaphore (args c) = 0"
    and "pipe_getline (inbox c) = Some (cube_line V, q)" and "std V" and "plain V"
  shows "\<exists>a a'. receive_line sg (line_memory (cube_line V)) (args c) = Inr ((), a) \<and>
    update_view (a\<lparr>update_view_semaphore := 0\<rparr>) = Inr ((), a') \<and>
    (client_internal sg)\<^sup>*\<^sup>* c (c\<lparr>args := a', inbox := q\<rparr>) \<and> client_ok a' V \<and>
    client_screen a' = client_screen (args c) @ drawing True (\<lambda>k. view V (f, k)) 9"
proof -
  let ?l = "cube_line V" and ?w = "\<lambda>a. a\<lparr>update_view_semaphore := 0\<rparr>"
  obtain a where a: "receive_line sg (line_memory ?l) (args c) = Inr ((), a)" "client_ok a V"
    "cube_face_id a = Some (int f)" "client_screen a = client_screen (args c)" "update_view_semaphore a = 1"
    and decoded: "(client_internal sg)\<^sup>*\<^sup>* c (c\<lparr>args := a, inbox := q\<rparr>)"
    using message_decoded [OF assms(1,3,4,7-9), of sg] assms(2,6) by auto
  have ok: "client_ok (?w a) V" using a(2) by (simp add: client_ok_def)
  obtain a' where a': "update_view (?w a) = Inr ((), a')"
    "a' = (?w a)\<lparr>client_screen := client_screen a @ drawing True (\<lambda>k. view V (f, k)) 9\<rparr>"
    using update_view_eq [OF ok] a(3) by auto
  let ?c2 = "c\<lparr>args := a, inbox := q\<rparr>"
  let ?c3 = "c\<lparr>args := ?w a, inbox := q, viewer := At_Face\<rparr>" and ?c4 = "c\<lparr>args := a', inbox := q\<rparr>"
  note decoded
  moreover have "client_internal sg ?c2 ?c3"
    using assms(3,5) a(5) by (intro client_internal.view)
      (simp_all add: viewer_step_def run_args_def wait_one_def prog_simps)
  moreover have "(client_internal sg)\<^sup>*\<^sup>* ?c3 ?c4"
  proof -
    have "viewer_moves\<^sup>*\<^sup>* ?c3 (?c3\<lparr>args := a', viewer := At_Wait\<rparr>)"
      by (rule viewer_round) (simp_all add: a'(1))
    moreover have "?c3\<lparr>args := a', viewer := At_Wait\<rparr> = ?c4" using assms(5) by (cases c) simp
    ultimately have m: "viewer_moves\<^sup>*\<^sup>* ?c3 ?c4" by simp
    show ?thesis by (rule moves_internal [OF disjI2 [OF refl] m, THEN conjunct2]) (simp add: assms(3))
  qed
  ultimately have "(client_internal sg)\<^sup>*\<^sup>* c ?c4" by (meson converse_rtranclp_into_rtranclp rtranclp_trans)
  moreover have "client_ok a' V" using ok by (simp add: a'(2) client_ok_def)
  ultimately show ?thesis using a(1,4) a'  by (intro exI [of _ a] exI [of _ a']) simp
qed

theorem undisturbed_message_shown_witness:
  "\<exists>c V a'. receiver c = At_Getline \<and> V = apply_turn (0, True) solved_val \<and>
    written (inbox c) = cube_line V \<and> (client_internal True)\<^sup>*\<^sup>* c (c\<lparr>args := a', inbox := (inbox c)\<lparr>taken := 55\<rparr>\<rparr>) \<and>
    client_screen a' = drawing True (\<lambda>k. view V (2, k)) 9"
proof -
  let ?V = "apply_turn (0, True) solved_val"
  obtain b where b: "client_ok b solved_val" "update_view_semaphore b = 0" "client_screen b = []"
  proof -
    have "31 \<le> quota (init_mem 5000)" by (simp add: init_mem_def)
    from make_client_ok [OF init_empty this] that show ?thesis by auto
  qed
  let ?q = "pipe_write (cube_line ?V) fresh_pipe"
  let ?c = "(client_start (b\<lparr>cube_face_id := Some (int 2)\<rparr>))\<lparr>inbox := ?q\<rparr>"
  have V: "solvable ?V" using solvable_turns [OF solvable_solved, of "[(0, True)]"] by (simp add: valid_turn_def)
  have ch: "cubes.channel ?q [?V] 0" using cubes.channel_write [OF cubes.channel_fresh V] by simp
  have g: "pipe_getline (inbox ?c) = Some (cube_line ?V, ?q\<lparr>taken := 55\<rparr>)"
    using cubes.channel_getline(1) [OF ch] by simp
  have ok: "client_ok (args ?c) solved_val" using b(1) by (simp add: client_ok_def client_start_def)
  have f: "cube_face_id (args ?c) = Some (int 2)" by (simp add: client_start_def)
  have r: "stopped ?c = None" "receiver ?c = At_Getline" "viewer ?c = At_Wait" "update_view_semaphore (args ?c) = 0"
    "client_screen (args ?c) = []" "inbox ?c = ?q"
    using b by (simp_all add: client_start_def)
  from undisturbed_message_shown [OF ok f r(1-4) g solvable_std [OF V] solvable_plain [OF V]] r(2,5,6)
  show ?thesis by (intro exI [of _ ?c] exI [of _ ?V]) (auto simp: pipe_write_def fputs_def fresh_pipe_def)
qed

text \<open>C27. Without a lock a picture can be torn. When a message comes in while the picture is being drawn, after any
  number \<open>m\<close> of its nine squares, there is a run of the client's threads in which the message is decoded in
  between: the finished picture has \<open>m\<close> squares of the old cube and the others of the new one. Another picture
  is due then.\<close>

theorem torn_picture:
  assumes "client_ok (args c) W" and "f < N_FACES" and "stopped c = None" and "receiver c = At_Getline"
    and "viewer c = Drawing (int f) m" and "m \<le> N_SQUARES_PER_FACE"
    and "client_screen (args c) = pre @ drawing True (\<lambda>k. view W (f, k)) m"
    and "pipe_getline (inbox c) = Some (cube_line V, q)" and "std V" and "plain V"
  shows "\<exists>c'. (client_internal sg)\<^sup>*\<^sup>* c c' \<and> viewer c' = At_Wait \<and> client_ok (args c') V \<and>
    client_screen (args c') = pre @ drawing True (\<lambda>k. view (if k < m then W else V) (f, k)) 9 \<and>
    0 < update_view_semaphore (args c')"
proof -
  obtain a where a: "client_ok a V" "client_screen a = client_screen (args c)"
    "update_view_semaphore a = update_view_semaphore (args c) + 1"
    "(client_internal sg)\<^sup>*\<^sup>* c (c\<lparr>args := a, inbox := q\<rparr>)"
    using message_decoded [OF assms(1,3,4,8-10), of sg] by blast
  let ?g = "\<lambda>k. view (if k < m then W else V) (f, k)" and ?c = "c\<lparr>inbox := q\<rparr>"
  have "drawing True (\<lambda>k. view W (f, k)) m = drawing True ?g m" by (rule drawing_cong) simp
  then have screen: "client_screen a = pre @ drawing True ?g m" using a(2) assms(7) by simp
  let ?a = "a\<lparr>client_screen := pre @ drawing True ?g 9\<rparr>"
  let ?d = "?c\<lparr>args := ?a, viewer := At_Wait\<rparr>"
  have v: "viewer_moves\<^sup>*\<^sup>* (?c\<lparr>args := a, viewer := Drawing (int f) m\<rparr>) ?d"
    by (rule drawing_on [OF a(1) assms(2,6) screen]) simp
  have "(client_internal sg)\<^sup>*\<^sup>* (?c\<lparr>args := a, viewer := Drawing (int f) m\<rparr>) ?d"
    by (rule moves_internal [OF disjI2 [OF refl] v, THEN conjunct2]) (simp add: assms(3))
  moreover have "?c\<lparr>args := a, viewer := Drawing (int f) m\<rparr> = c\<lparr>args := a, inbox := q\<rparr>"
    using assms(5) by (cases c) simp
  ultimately have "(client_internal sg)\<^sup>*\<^sup>* c ?d" using a(4) by simp
  moreover have "client_ok (args ?d) V" using a(1) by (simp add: client_ok_def)
  ultimately show ?thesis using a(3) by (intro exI [of _ ?d]) simp
qed

theorem torn_picture_witness:
  "\<exists>c c' V. viewer c = Drawing 2 4 \<and> client_screen (args c) = drawing True (\<lambda>k. view solved_val (2, k)) 4 \<and>
    V = apply_turn (0, True) solved_val \<and> (client_internal True)\<^sup>*\<^sup>* c c' \<and> viewer c' = At_Wait \<and>
    client_screen (args c') = drawing True (\<lambda>k. view (if k < 4 then solved_val else V) (2, k)) 9 \<and>
    view V (2, 3) \<noteq> view solved_val (2, 3) \<and> view V (2, 6) \<noteq> view solved_val (2, 6)"
proof -
  let ?V = "apply_turn (0, True) solved_val" and ?g = "\<lambda>k. view solved_val (2, k)"
  obtain b where b: "client_ok b solved_val"
  proof -
    have "31 \<le> quota (init_mem 5000)" by (simp add: init_mem_def)
    from make_client_ok [OF init_empty this] that show ?thesis by auto
  qed
  let ?q = "pipe_write (cube_line ?V) fresh_pipe"
  let ?b = "b\<lparr>cube_face_id := Some 2, client_screen := drawing True ?g 4\<rparr>"
  let ?c = "(client_start ?b)\<lparr>inbox := ?q, viewer := Drawing (int 2) 4\<rparr>"
  have V: "solvable ?V" using solvable_turns [OF solvable_solved, of "[(0, True)]"] by (simp add: valid_turn_def)
  have ch: "cubes.channel ?q [?V] 0" using cubes.channel_write [OF cubes.channel_fresh V] by simp
  have g: "pipe_getline (inbox ?c) = Some (cube_line ?V, ?q\<lparr>taken := 55\<rparr>)"
    using cubes.channel_getline(1) [OF ch] by simp
  have ok: "client_ok (args ?c) solved_val" using b by (simp add: client_ok_def client_start_def)
  have r: "stopped ?c = None" "receiver ?c = At_Getline" "viewer ?c = Drawing (int 2) 4"
    "client_screen (args ?c) = [] @ drawing True ?g 4"
    by (simp_all add: client_start_def)
  have m: "(2::nat) < N_FACES" "(4::nat) \<le> N_SQUARES_PER_FACE" by simp_all
  from torn_picture [OF ok m(1) r(1-3) m(2) r(4) g solvable_std [OF V] solvable_plain [OF V], of True] obtain c' where c':
    "(client_internal True)\<^sup>*\<^sup>* ?c c'" "viewer c' = At_Wait"
    "client_screen (args c') = [] @ drawing True (\<lambda>k. view (if k < 4 then solved_val else ?V) (2, k)) 9" by blast
  have "view ?V (2, 3) \<noteq> view solved_val (2, 3) \<and> view ?V (2, 6) \<noteq> view solved_val (2, 6)" by code_simp
  with c' r show ?thesis by (intro exI [of _ ?c] exI [of _ c'] exI [of _ ?V]) simp
qed

end
